(* ===== verification/Go_Prelude.thy ===== *)
theory Go_Prelude
  imports Main "HOL-Library.Word"
begin

text \<open>
  Shared vocabulary of the development: machine integers and byte slices of Go, the
  big-endian accessors of \<^verbatim>\<open>encoding/binary\<close>, readers (\<^verbatim>\<open>io.Reader\<close> with
  \<^verbatim>\<open>io.ReadFull\<close> and \<^verbatim>\<open>io.CopyN\<close>), the lemmas on index loops the components share, and
  the interfaces that several components provide: a frame codec over a byte
  stream (\<open>frame_codec\<close>), a reader that keeps the rest of a message
  (\<open>buffered_reader\<close>) and a store whose entries expire (\<open>expiring_store\<close>).
\<close>

unbundle bit_operations_syntax

section \<open>Types\<close>

type_synonym byte = "8 word"
type_synonym u16 = "16 word"
type_synonym u32 = "32 word"
type_synonym u64 = "64 word"
type_synonym bytes = "byte list"

text \<open>Instants and durations are integers, in nanoseconds as in package \<^verbatim>\<open>time\<close>.\<close>

type_synonym instant = int
type_synonym duration = int

named_theorems codec_simps
named_theorems io_simps

section \<open>Big-endian integers\<close>

definition put_u16 :: "u16 \<Rightarrow> bytes" where
  "put_u16 w = [ucast (drop_bit 8 w), ucast w]"

definition put_u32 :: "u32 \<Rightarrow> bytes" where
  "put_u32 w = [ucast (drop_bit 24 w), ucast (drop_bit 16 w), ucast (drop_bit 8 w), ucast w]"

definition put_u64 :: "u64 \<Rightarrow> bytes" where
  "put_u64 w = [ucast (drop_bit 56 w), ucast (drop_bit 48 w), ucast (drop_bit 40 w),
     ucast (drop_bit 32 w), ucast (drop_bit 24 w), ucast (drop_bit 16 w),
     ucast (drop_bit 8 w), ucast w]"

text \<open>
  The readers take the bytes of the slice the source passes. Go panics on a slice that is
  too short; every caller passes a slice of the full width, so that case never arises and
  the value 0 given for it is never used.
\<close>

fun be16 :: "bytes \<Rightarrow> u16" where
  "be16 (a # b # _) = push_bit 8 (ucast a) OR ucast b"
| "be16 _ = 0"

fun be32 :: "bytes \<Rightarrow> u32" where
  "be32 (a # b # c # d # _) =
     push_bit 24 (ucast a) OR push_bit 16 (ucast b) OR push_bit 8 (ucast c) OR ucast d"
| "be32 _ = 0"

fun be64 :: "bytes \<Rightarrow> u64" where
  "be64 (a # b # c # d # e # f # g # h # _) =
     push_bit 56 (ucast a) OR push_bit 48 (ucast b) OR push_bit 40 (ucast c) OR
     push_bit 32 (ucast d) OR push_bit 24 (ucast e) OR push_bit 16 (ucast f) OR
     push_bit 8 (ucast g) OR ucast h"
| "be64 _ = 0"

lemma length_put_u16 [simp]: "length (put_u16 w) = 2"
  by (simp add: put_u16_def)

lemma length_put_u32 [simp]: "length (put_u32 w) = 4"
  by (simp add: put_u32_def)

lemma length_put_u64 [simp]: "length (put_u64 w) = 8"
  by (simp add: put_u64_def)

lemma bit_push_byte:
  fixes w :: "'a::len word"
  assumes "n < LENGTH('a)"
  shows "bit (push_bit k (ucast (ucast (drop_bit k w) :: byte)) :: 'a word) n
           \<longleftrightarrow> k \<le> n \<and> n < k + 8 \<and> bit w n"
  using assms by (auto simp: bit_simps)

lemma bit_low_byte:
  fixes w :: "'a::len word"
  assumes "n < LENGTH('a)"
  shows "bit (ucast (ucast w :: byte) :: 'a word) n \<longleftrightarrow> n < 8 \<and> bit w n"
  using assms by (auto simp: bit_simps)

lemmas bit_bytes = bit_or_iff bit_push_byte bit_low_byte

lemma be16_put_u16 [codec_simps, simp]: "be16 (put_u16 w @ r) = w"
  unfolding put_u16_def append.simps be16.simps
  by (rule bit_word_eqI) (simp add: bit_bytes, arith)

lemma be32_put_u32 [codec_simps, simp]: "be32 (put_u32 w @ r) = w"
  unfolding put_u32_def append.simps be32.simps
  by (rule bit_word_eqI) (simp add: bit_bytes, arith)

lemma be64_put_u64 [codec_simps, simp]: "be64 (put_u64 w @ r) = w"
  unfolding put_u64_def append.simps be64.simps
  by (rule bit_word_eqI) (simp add: bit_bytes, arith)

lemma be16_put_u16_nil [codec_simps, simp]: "be16 (put_u16 w) = w"
  using be16_put_u16 [of w "[]"] by simp

lemma be32_put_u32_nil [codec_simps, simp]: "be32 (put_u32 w) = w"
  using be32_put_u32 [of w "[]"] by simp

lemma be64_put_u64_nil [codec_simps, simp]: "be64 (put_u64 w) = w"
  using be64_put_u64 [of w "[]"] by simp

lemma put_u16_be16: "length b = 2 \<Longrightarrow> put_u16 (be16 b) = b"
proof -
  assume "length b = 2"
  then obtain x y where b: "b = [x, y]" by (auto simp: numeral_2_eq_2 length_Suc_conv)
  have "(ucast (drop_bit 8 (be16 [x, y])) :: byte) = x"
    by (rule bit_word_eqI) (auto simp: bit_simps dest: bit_imp_le_length)
  moreover have "(ucast (be16 [x, y]) :: byte) = y"
    by (rule bit_word_eqI) (auto simp: bit_simps)
  ultimately show ?thesis by (simp add: b put_u16_def del: be16.simps)
qed

text \<open>The conversion \<^verbatim>\<open>uint16(len(p))\<close> keeps the low 16 bits of a length.\<close>

definition u16_len :: "nat \<Rightarrow> u16" where
  "u16_len n = of_nat n"

lemma unat_u16_len: "unat (u16_len n) = n mod 65536"
  by (simp add: u16_len_def unat_of_nat)

lemma unat_u16_len_small [codec_simps, simp]: "n < 65536 \<Longrightarrow> unat (u16_len n) = n"
  by (simp add: unat_u16_len)

lemma unat_byte_lt: "unat (b :: byte) < 256"
  using unsigned_less [of b] by simp

lemma unat_u16_lt: "unat (w :: u16) < 65536"
  using unsigned_less [of w] by simp

section \<open>Readers\<close>

text \<open>
  The errors a reader of package \<^verbatim>\<open>io\<close> or a connection delivers; \<open>ConnErr\<close> stands for an
  error of the underlying connection, identified by a number.
\<close>

datatype io_error = EOF | ErrUnexpectedEOF | ErrClosedPipe | ConnErr nat

text \<open>
  A reader holds the bytes still to come and the error it delivers once they are used up.
\<close>

record reader =
  rd_data :: bytes
  rd_err :: io_error

text \<open>\<^verbatim>\<open>io.ReadFull(r, buf)\<close> with a buffer of \<open>n\<close> bytes.\<close>

definition read_full :: "nat \<Rightarrow> reader \<Rightarrow> (io_error + bytes) \<times> reader" where
  "read_full n r =
     (if n \<le> length (rd_data r)
      then (Inr (take n (rd_data r)), r\<lparr>rd_data := drop n (rd_data r)\<rparr>)
      else if rd_data r = [] then (Inl (rd_err r), r)
      else (Inl (if rd_err r = EOF then ErrUnexpectedEOF else rd_err r), r\<lparr>rd_data := []\<rparr>))"

text \<open>\<^verbatim>\<open>io.CopyN(io.Discard, r, n)\<close>: the error, if any, and the reader after it.\<close>

definition copy_n_discard :: "nat \<Rightarrow> reader \<Rightarrow> io_error option \<times> reader" where
  "copy_n_discard n r =
     (if n \<le> length (rd_data r) then (None, r\<lparr>rd_data := drop n (rd_data r)\<rparr>)
      else (Some (rd_err r), r\<lparr>rd_data := []\<rparr>))"

lemma read_full_append [io_simps, simp]:
  "length xs = n \<Longrightarrow>
     read_full n \<lparr>rd_data = xs @ ys, rd_err = e\<rparr> = (Inr xs, \<lparr>rd_data = ys, rd_err = e\<rparr>)"
  by (simp add: read_full_def)

lemma copy_n_discard_append [io_simps, simp]:
  "length xs = n \<Longrightarrow>
     copy_n_discard n \<lparr>rd_data = xs @ ys, rd_err = e\<rparr> = (None, \<lparr>rd_data = ys, rd_err = e\<rparr>)"
  by (simp add: copy_n_discard_def)

lemma read_full_InrD:
  assumes "read_full n r = (Inr b, r')"
  shows "length b = n" and "rd_data r = b @ rd_data r'" and "rd_err r' = rd_err r"
  using assms by (auto simp: read_full_def split: if_splits)

lemma read_full_cons1 [io_simps, simp]:
  "read_full (Suc 0) \<lparr>rd_data = b # ys, rd_err = e\<rparr> = (Inr [b], \<lparr>rd_data = ys, rd_err = e\<rparr>)"
  by (simp add: read_full_def)

lemma read_full_nil [io_simps]:
  "0 < n \<Longrightarrow> read_full n \<lparr>rd_data = [], rd_err = e\<rparr> = (Inl e, \<lparr>rd_data = [], rd_err = e\<rparr>)"
  by (simp add: read_full_def)

lemma length_read_full: "length (rd_data (snd (read_full n r))) \<le> length (rd_data r)"
  by (simp add: read_full_def)

lemma length_copy_n_discard: "length (rd_data (snd (copy_n_discard n r))) \<le> length (rd_data r)"
  by (simp add: copy_n_discard_def)

section \<open>Index loops\<close>

text \<open>
  A loop that runs an index down and overwrites the element at the index from elements at
  or below it computes every element from the array as it was before the loop.
\<close>

lemma length_fold_update [simp]:
  "length (fold (\<lambda>i xs. xs[i := f xs i]) is xs) = length xs"
  by (induction "is" arbitrary: xs) auto

lemma fold_down_update:
  assumes local: "\<And>i xs ys. length xs = length ys \<Longrightarrow> (\<And>k. k \<le> i \<Longrightarrow> xs ! k = ys ! k) \<Longrightarrow> f xs i = f ys i"
    and "hi \<le> length xs" and "j < length xs"
  shows "fold (\<lambda>i xs. xs[i := f xs i]) (rev [lo..<hi]) xs ! j =
           (if lo \<le> j \<and> j < hi then f xs j else xs ! j)"
  using assms(2,3)
proof (induction hi arbitrary: xs)
  case 0
  then show ?case by simp
next
  case (Suc hi)
  show ?case
  proof (cases "lo \<le> hi")
    case True
    let ?ys = "xs[hi := f xs hi]"
    have "fold (\<lambda>i xs. xs[i := f xs i]) (rev [lo..<Suc hi]) xs ! j =
            fold (\<lambda>i xs. xs[i := f xs i]) (rev [lo..<hi]) ?ys ! j"
      using True by simp
    also have "\<dots> = (if lo \<le> j \<and> j < hi then f ?ys j else ?ys ! j)"
      using Suc.prems by (intro Suc.IH) auto
    also have "\<dots> = (if lo \<le> j \<and> j < Suc hi then f xs j else xs ! j)"
    proof (cases "j < hi")
      case True
      then have "f ?ys j = f xs j" by (intro local) auto
      with True show ?thesis by simp
    next
      case False
      with Suc.prems \<open>lo \<le> hi\<close> show ?thesis by (cases "j = hi") (auto simp: nth_list_update)
    qed
    finally show ?thesis .
  next
    case False
    then show ?thesis by auto
  qed
qed

lemma fold_const_update:
  "j < length xs \<Longrightarrow> fold (\<lambda>i xs. xs[i := c]) [lo..<hi] xs ! j =
     (if lo \<le> j \<and> j < hi then c else xs ! j)"
proof (induction hi)
  case (Suc hi)
  have "length (fold (\<lambda>i xs. xs[i := c]) [lo..<hi] xs) = length xs"
    using length_fold_update [of "\<lambda>_ _. c"] by simp
  with Suc show ?case by (cases "j = hi") (auto simp: nth_list_update)
qed simp

section \<open>Interfaces\<close>

text \<open>
  A frame codec over a byte stream: \<open>enc\<close> writes one frame, \<open>dec\<close> reads one frame and
  returns the rest of the stream. A component that frames messages promises that a frame
  it accepts is read back whatever follows it; its clients get that a stream of frames is
  read back frame by frame and has only one reading.
\<close>

fun iter_dec :: "(bytes \<Rightarrow> ('f \<times> bytes) option) \<Rightarrow> nat \<Rightarrow> bytes \<Rightarrow> ('f list \<times> bytes) option" where
  "iter_dec dec 0 bs = Some ([], bs)"
| "iter_dec dec (Suc n) bs =
     (case dec bs of None \<Rightarrow> None
      | Some (f, r) \<Rightarrow> map_option (\<lambda>(fs, r'). (f # fs, r')) (iter_dec dec n r))"

locale frame_codec =
  fixes enc :: "'f \<Rightarrow> bytes"
    and dec :: "bytes \<Rightarrow> ('f \<times> bytes) option"
    and ok :: "'f \<Rightarrow> bool"
  assumes dec_enc: "ok f \<Longrightarrow> dec (enc f @ r) = Some (f, r)"
    and enc_nonempty: "ok f \<Longrightarrow> enc f \<noteq> []"
begin

lemma dec_stream:
  assumes "list_all ok fs"
  shows "iter_dec dec (length fs) (concat (map enc fs) @ r) = Some (fs, r)"
  using assms by (induction fs) (auto simp: dec_enc)

lemma enc_inj:
  assumes "ok f" and "ok g" and "enc f @ r = enc g @ s"
  shows "f = g \<and> r = s"
proof -
  have "Some (f, r) = dec (enc f @ r)" using assms(1) by (simp only: dec_enc)
  also have "\<dots> = dec (enc g @ s)" by (simp only: assms(3))
  also have "\<dots> = Some (g, s)" using assms(2) by (simp only: dec_enc)
  finally show ?thesis by simp
qed

lemma stream_unique:
  assumes "list_all ok fs" and "list_all ok gs" and "concat (map enc fs) = concat (map enc gs)"
  shows "fs = gs"
  using assms
proof (induction fs arbitrary: gs)
  case Nil
  then show ?case by (cases gs) (auto dest: enc_nonempty)
next
  case (Cons f fs)
  show ?case
  proof (cases gs)
    case Nil
    with Cons.prems show ?thesis by (auto dest: enc_nonempty)
  next
    case gs: (Cons g gs')
    with Cons.prems have eq: "f = g \<and> concat (map enc fs) = concat (map enc gs')"
      by (intro enc_inj) auto
    then have "fs = gs'" using Cons.prems(1,2) gs by (intro Cons.IH) simp_all
    with eq gs show ?thesis by simp
  qed
qed

end

text \<open>
  A reader that receives whole messages and hands them out in pieces: a \<^verbatim>\<open>Read\<close> with a
  buffer of \<open>n\<close> bytes returns the next bytes and keeps the rest. \<open>rest\<close> is the stream
  still to be handed out. The client is \<^verbatim>\<open>io.ReadFull\<close>, which repeats \<^verbatim>\<open>Read\<close> until its
  buffer is full; \<open>full_loop\<close> is that loop, with the number of bytes wanted as its fuel.
\<close>

fun full_loop :: "(nat \<Rightarrow> 's \<Rightarrow> (bytes \<times> 's) option) \<Rightarrow> nat \<Rightarrow> nat \<Rightarrow> 's \<Rightarrow> (bytes \<times> 's) option" where
  "full_loop rd fuel 0 s = Some ([], s)"
| "full_loop rd 0 (Suc n) s = None"
| "full_loop rd (Suc fuel) (Suc n) s =
     (case rd (Suc n) s of None \<Rightarrow> None
      | Some (b, s') \<Rightarrow>
          map_option (\<lambda>(bs, s''). (b @ bs, s'')) (full_loop rd fuel (Suc n - length b) s'))"

lemma full_loop_pos:
  "0 < n \<Longrightarrow> full_loop rd (Suc fuel) n s =
     (case rd n s of None \<Rightarrow> None
      | Some (b, s') \<Rightarrow>
          map_option (\<lambda>(bs, s''). (b @ bs, s'')) (full_loop rd fuel (n - length b) s'))"
  by (cases n) (simp_all cong: option.case_cong)

text \<open>The loop only sees the state through \<^verbatim>\<open>Read\<close>: a state with more in it reads the same bytes.\<close>

lemma full_loop_map:
  assumes "\<And>n s. rd' n (h s) = map_option (\<lambda>(b, s'). (b, h s')) (rd n s)"
  shows "full_loop rd' m n (h s) = map_option (\<lambda>(b, s'). (b, h s')) (full_loop rd m n s)"
proof (induction m arbitrary: n s)
  case 0
  then show ?case by (cases n) simp_all
next
  case (Suc m)
  show ?case
  proof (cases n)
    case n: (Suc k)
    show ?thesis
    proof (cases "rd (Suc k) s")
      case None
      then show ?thesis by (simp add: n assms)
    next
      case (Some p)
      then obtain b s' where "rd (Suc k) s = Some (b, s')" by (cases p) simp
      then show ?thesis
        by (simp add: n assms Suc.IH option.map_comp comp_def split_beta)
    qed
  qed simp
qed

text \<open>A sequence of \<^verbatim>\<open>Read\<close> calls with buffers of the given sizes: all the bytes they returned.\<close>

fun read_seq :: "(nat \<Rightarrow> 's \<Rightarrow> (bytes \<times> 's) option) \<Rightarrow> nat list \<Rightarrow> 's \<Rightarrow> (bytes \<times> 's) option" where
  "read_seq rd [] s = Some ([], s)"
| "read_seq rd (n # ns) s =
     (case rd n s of None \<Rightarrow> None
      | Some (b, s') \<Rightarrow> map_option (\<lambda>(bs, s''). (b @ bs, s'')) (read_seq rd ns s'))"

locale buffered_reader =
  fixes rd :: "nat \<Rightarrow> 's \<Rightarrow> (bytes \<times> 's) option"
    and rest :: "'s \<Rightarrow> bytes"
    and inv :: "'s \<Rightarrow> bool"
  assumes rd_split: "inv s \<Longrightarrow> rd n s = Some (b, s') \<Longrightarrow> rest s = b @ rest s'"
    and rd_inv: "inv s \<Longrightarrow> rd n s = Some (b, s') \<Longrightarrow> inv s'"
    and rd_bound: "inv s \<Longrightarrow> rd n s = Some (b, s') \<Longrightarrow> length b \<le> n"
    and rd_progress: "inv s \<Longrightarrow> rest s \<noteq> [] \<Longrightarrow> 0 < n \<Longrightarrow> \<exists>b s'. rd n s = Some (b, s') \<and> b \<noteq> []"
begin

lemma read_seq_split:
  assumes "inv s" and "read_seq rd ns s = Some (bs, s')"
  shows "rest s = bs @ rest s' \<and> inv s' \<and> length bs \<le> sum_list ns"
  using assms
proof (induction ns arbitrary: s bs)
  case (Cons n ns)
  obtain b s1 bs' where rd: "rd n s = Some (b, s1)" and rs: "read_seq rd ns s1 = Some (bs', s')" and bs: "bs = b @ bs'"
    using Cons.prems(2) by (auto split: option.splits)
  have "rest s1 = bs' @ rest s' \<and> inv s' \<and> length bs' \<le> sum_list ns"
    by (rule Cons.IH [OF rd_inv [OF Cons.prems(1) rd] rs])
  then show ?case
    using rd_split [OF Cons.prems(1) rd] rd_bound [OF Cons.prems(1) rd] bs by simp
qed simp

lemma full_loop_reads:
  assumes "inv s" and "n \<le> length (rest s)" and "n \<le> fuel"
  shows "\<exists>s'. full_loop rd fuel n s = Some (take n (rest s), s') \<and> rest s' = drop n (rest s) \<and> inv s'"
  using assms
proof (induction fuel arbitrary: n s)
  case 0
  then show ?case by simp
next
  case (Suc fuel)
  show ?case
  proof (cases "n = 0")
    case True
    with Suc.prems show ?thesis by (cases fuel) auto
  next
    case False
    then have n: "0 < n" by simp
    with Suc.prems have "rest s \<noteq> []" by auto
    with Suc.prems(1) n obtain b s1 where rd: "rd n s = Some (b, s1)" and "b \<noteq> []"
      using rd_progress by blast
    have split: "rest s = b @ rest s1" and inv: "inv s1" and len: "length b \<le> n"
      using rd_split rd_inv rd_bound Suc.prems(1) rd by blast+
    from \<open>b \<noteq> []\<close> have "0 < length b" by simp
    then have "n - length b \<le> fuel" using Suc.prems(3) by linarith
    moreover have "n - length b \<le> length (rest s1)" using split Suc.prems(2) by simp
    ultimately obtain s2 where "full_loop rd fuel (n - length b) s1 = Some (take (n - length b) (rest s1), s2)"
        and "rest s2 = drop (n - length b) (rest s1)" and "inv s2"
      using Suc.IH [OF inv] by blast
    with rd split len show ?thesis by (simp add: full_loop_pos [OF n])
  qed
qed

end

text \<open>
  A store whose entries expire: \<open>sweep c\<close> is the periodic collection with cutoff \<open>c\<close>, and
  \<open>live c v\<close> says that the entry \<open>v\<close> is fresh enough for it.
\<close>

locale expiring_store =
  fixes lookup :: "'s \<Rightarrow> 'k \<Rightarrow> 'v option"
    and live :: "instant \<Rightarrow> 'v \<Rightarrow> bool"
    and sweep :: "instant \<Rightarrow> 's \<Rightarrow> 's"
  assumes lookup_sweep: "lookup (sweep c s) k = Option.bind (lookup s k) (\<lambda>v. if live c v then Some v else None)"
    and live_mono: "live c v \<Longrightarrow> c' \<le> c \<Longrightarrow> live c' v"
begin

lemma sweep_keeps: "lookup s k = Some v \<Longrightarrow> live c v \<Longrightarrow> lookup (sweep c s) k = Some v"
  by (simp add: lookup_sweep)

lemma sweep_only_removes: "lookup (sweep c s) k = Some v \<Longrightarrow> lookup s k = Some v \<and> live c v"
  by (auto simp: lookup_sweep bind_eq_Some_conv split: if_splits)

lemma sweep_compose: "lookup (sweep c (sweep c' s)) k = lookup (sweep (max c c') s) k"
proof -
  have "live (max c c') v \<longleftrightarrow> live c v \<and> live c' v" for v
  proof (cases "c \<le> c'")
    case True
    then show ?thesis using live_mono [of c' v c] by (auto simp: max_def)
  next
    case False
    then show ?thesis using live_mono [of c v c'] by (auto simp: max_def)
  qed
  then show ?thesis by (cases "lookup s k") (simp_all add: lookup_sweep)
qed

text \<open>Runs of sweeps: what stays is what was live at every one of them.\<close>

lemma sweeps_exact:
  "lookup (fold sweep cs s) k = Option.bind (lookup s k) (\<lambda>v. if \<forall>c \<in> set cs. live c v then Some v else None)"
  by (induction cs arbitrary: s) (auto simp: lookup_sweep split: bind_splits option.splits)

lemma sweeps_keep:
  assumes "lookup s k = Some v" and "\<forall>c \<in> set cs. c \<le> m" and "live m v"
  shows "lookup (fold sweep cs s) k = Some v"
  using assms
proof (induction cs arbitrary: s)
  case (Cons c cs)
  have "live c v" using Cons.prems(2,3) live_mono [of m v c] by simp
  with Cons.prems(1) have "lookup (sweep c s) k = Some v" by (rule sweep_keeps)
  then have "lookup (fold sweep cs (sweep c s)) k = Some v"
    using Cons.prems(2,3) by (intro Cons.IH) simp_all
  then show ?case by simp
qed simp

lemma sweeps_absent: "lookup s k = None \<Longrightarrow> lookup (fold sweep cs s) k = None"
  by (induction cs arbitrary: s) (simp_all add: lookup_sweep)

lemma sweeps_remove:
  assumes "c \<in> set cs" and "\<And>v. lookup s k = Some v \<Longrightarrow> \<not> live c v"
  shows "lookup (fold sweep cs s) k = None"
  using assms
proof (induction cs arbitrary: s)
  case (Cons d cs)
  show ?case
  proof (cases "c = d")
    case True
    have "lookup (sweep d s) k = None"
      using Cons.prems(2) True by (cases "lookup s k") (simp_all add: lookup_sweep)
    then show ?thesis by (simp add: sweeps_absent)
  next
    case False
    have "\<not> live c v" if "lookup (sweep d s) k = Some v" for v
      using sweep_only_removes [OF that] Cons.prems(2) by blast
    with False Cons.prems(1) have "lookup (fold sweep cs (sweep d s)) k = None"
      by (intro Cons.IH) simp_all
    then show ?thesis by simp
  qed
qed simp

end

section \<open>Text\<close>

text \<open>
  A Go string is a sequence of bytes; \<open>ascii\<close> gives the bytes of a literal. \<open>itoa\<close> is
  \<^verbatim>\<open>strconv.Itoa\<close> of a number that is not negative.
\<close>

definition ascii :: "string \<Rightarrow> bytes" where
  "ascii s = map of_char s"

fun itoa :: "nat \<Rightarrow> bytes" where
  "itoa n = (if n < 10 then [48 + of_nat n] else itoa (n div 10) @ [48 + of_nat (n mod 10)])"

declare itoa.simps [simp del]

lemma length_ascii [simp]: "length (ascii s) = length s"
  by (simp add: ascii_def)

lemma itoa_nonempty [simp]: "itoa n \<noteq> []"
  by (subst itoa.simps) simp

lemma length_itoa_pow: "n < 10 ^ k \<Longrightarrow> 0 < k \<Longrightarrow> length (itoa n) \<le> k"
proof (induction k arbitrary: n)
  case (Suc k)
  show ?case
  proof (cases "n < 10")
    case True
    then show ?thesis by (subst itoa.simps) simp
  next
    case False
    then have "0 < k" using Suc.prems by (cases k) auto
    moreover have "n div 10 < 10 ^ k" using Suc.prems by auto
    ultimately show ?thesis using False Suc.IH [of "n div 10"] by (subst itoa.simps) simp
  qed
qed simp

text \<open>\<^verbatim>\<open>net.JoinHostPort\<close>: a host with a colon in it goes in brackets.\<close>

definition join_host_port :: "bytes \<Rightarrow> bytes \<Rightarrow> bytes" where
  "join_host_port host port =
     (if 58 \<in> set host then 91 # host @ [93, 58] @ port else host @ [58] @ port)"

lemma join_host_port_colon: "58 \<in> set (join_host_port h p)"
  by (simp add: join_host_port_def)

lemma length_join_host_port: "length (join_host_port h p) \<le> length h + length p + 3"
  by (simp add: join_host_port_def)

text \<open>\<^verbatim>\<open>strings.Join\<close> with a separator.\<close>

fun join :: "bytes \<Rightarrow> bytes list \<Rightarrow> bytes" where
  "join sep [] = []"
| "join sep [x] = x"
| "join sep (x # y # xs) = x @ sep @ join sep (y # xs)"

lemma length_join_le:
  "(\<And>x. x \<in> set xs \<Longrightarrow> length x \<le> b) \<Longrightarrow> length (join sep xs) \<le> length xs * (b + length sep)"
proof (induction sep xs rule: join.induct)
  case (3 sep x y xs)
  have "length x \<le> b" "length (join sep (y # xs)) \<le> length (y # xs) * (b + length sep)"
    using 3 by simp_all
  then show ?case by simp
qed auto

text \<open>\<^verbatim>\<open>net.IP.String\<close> for 4 and for 16 bytes.\<close>

definition ipv4_string :: "bytes \<Rightarrow> bytes" where
  "ipv4_string b = join [46] (map (\<lambda>x. itoa (unat x)) b)"

definition hex_digit :: "nat \<Rightarrow> byte" where
  "hex_digit d = (if d < 10 then 48 + of_nat d else 87 + of_nat d)"

fun hex16 :: "nat \<Rightarrow> bytes" where
  "hex16 n = (if n < 16 then [hex_digit n] else hex16 (n div 16) @ [hex_digit (n mod 16)])"

declare hex16.simps [simp del]

lemma length_hex16_pow: "n < 16 ^ k \<Longrightarrow> 0 < k \<Longrightarrow> length (hex16 n) \<le> k"
proof (induction k arbitrary: n)
  case (Suc k)
  show ?case
  proof (cases "n < 16")
    case True
    then show ?thesis by (subst hex16.simps) simp
  next
    case False
    then have "0 < k" using Suc.prems by (cases k) auto
    moreover have "n div 16 < 16 ^ k" using Suc.prems by auto
    ultimately show ?thesis using False Suc.IH [of "n div 16"] by (subst hex16.simps) simp
  qed
qed simp

fun groups16 :: "bytes \<Rightarrow> u16 list" where
  "groups16 (a # b # r) = be16 [a, b] # groups16 r"
| "groups16 _ = []"

definition zero_run :: "u16 list \<Rightarrow> nat \<Rightarrow> nat" where
  "zero_run gs i = length (takeWhile (\<lambda>g. g = 0) (drop i gs))"

definition longest_zeros :: "u16 list \<Rightarrow> nat \<times> nat" where
  "longest_zeros gs =
     fold (\<lambda>i (s, l). if 2 \<le> zero_run gs i \<and> l < zero_run gs i then (i, zero_run gs i) else (s, l))
       [0..<length gs] (0, 0)"

definition ipv6_groups_string :: "u16 list \<Rightarrow> bytes" where
  "ipv6_groups_string gs =
     (let (s, l) = longest_zeros gs; h = (\<lambda>g. hex16 (unat g))
      in if l = 0 then join [58] (map h gs)
         else join [58] (map h (take s gs)) @ [58, 58] @ join [58] (map h (drop (s + l) gs)))"

definition is_ipv4_mapped :: "bytes \<Rightarrow> bool" where
  "is_ipv4_mapped b \<longleftrightarrow> length b = 16 \<and> take 10 b = replicate 10 0 \<and> b ! 10 = 255 \<and> b ! 11 = 255"

definition ip_string :: "bytes \<Rightarrow> bytes" where
  "ip_string b =
     (if length b = 4 then ipv4_string b
      else if is_ipv4_mapped b then ipv4_string (drop 12 b)
      else ipv6_groups_string (groups16 b))"

lemma length_ipv4_string: "length b = 4 \<Longrightarrow> length (ipv4_string b) \<le> 16"
proof -
  assume b: "length b = 4"
  have "length (itoa (unat (x :: byte))) \<le> 3" for x
    using unat_byte_lt [of x] by (intro length_itoa_pow) auto
  then show ?thesis
    using length_join_le [of "map (\<lambda>x. itoa (unat x)) b" 3 "[46]"] b by (auto simp: ipv4_string_def)
qed

lemma length_groups16: "length (groups16 b) = length b div 2"
  by (induction b rule: groups16.induct) auto

lemma length_ipv6_groups_string: "length gs = 8 \<Longrightarrow> length (ipv6_groups_string gs) \<le> 82"
proof -
  assume gs: "length gs = 8"
  have h: "length (hex16 (unat (g :: u16))) \<le> 4" for g
    using unat_u16_lt [of g] by (intro length_hex16_pow) auto
  have j: "length (join [58] (map (\<lambda>g. hex16 (unat g)) xs)) \<le> length xs * 5" for xs :: "u16 list"
    using length_join_le [of "map (\<lambda>g. hex16 (unat g)) xs" 4 "[58]"] h by auto
  show ?thesis
    using j [of gs] j [of "take (fst (longest_zeros gs)) gs"]
      j [of "drop (fst (longest_zeros gs) + snd (longest_zeros gs)) gs"] gs
    by (auto simp: ipv6_groups_string_def Let_def case_prod_unfold)
qed

lemma length_ip_string: "length b = 4 \<or> length b = 16 \<Longrightarrow> length (ip_string b) \<le> 82"
  using length_ipv4_string [of b] length_ipv4_string [of "drop 12 b"] length_ipv6_groups_string [of "groups16 b"]
  by (auto simp: ip_string_def length_groups16 is_ipv4_mapped_def)

text \<open>
  \<^verbatim>\<open>strings.Trim\<close>-like functions cut at both ends what satisfies a predicate;
  \<^verbatim>\<open>strings.Split\<close> at a single character.
\<close>

definition trim_with :: "('a \<Rightarrow> bool) \<Rightarrow> 'a list \<Rightarrow> 'a list" where
  "trim_with p s = rev (dropWhile p (rev (dropWhile p s)))"

fun split_on :: "'a \<Rightarrow> 'a list \<Rightarrow> 'a list list" where
  "split_on c [] = [[]]"
| "split_on c (x # xs) =
     (if x = c then [] # split_on c xs
      else case split_on c xs of [] \<Rightarrow> [[x]] | y # ys \<Rightarrow> (x # y) # ys)"

lemma trim_with_id: "s = [] \<or> \<not> p (hd s) \<and> \<not> p (last s) \<Longrightarrow> trim_with p s = s"
proof (cases "s = []")
  case False
  assume "s = [] \<or> \<not> p (hd s) \<and> \<not> p (last s)"
  with False have "dropWhile p s = s" "dropWhile p (rev s) = rev s" by (simp_all add: dropWhile_eq_self_iff hd_rev)
  then show ?thesis by (simp add: trim_with_def)
qed (simp add: trim_with_def)

lemma trim_with_front: "p x \<Longrightarrow> trim_with p (x # s) = trim_with p s"
  by (simp add: trim_with_def)

lemma split_on_not_Nil [simp]: "split_on c s \<noteq> []"
  by (induction s) (auto split: list.splits)

lemma split_on_append: "c \<notin> set xs \<Longrightarrow> split_on c (xs @ c # ys) = xs # split_on c ys"
  by (induction xs) auto

lemma split_on_none: "c \<notin> set xs \<Longrightarrow> split_on c xs = [xs]"
  by (induction xs) auto

lemma trim_with_surround:
  assumes "list_all p ws" "list_all p ws'" "s \<noteq> []" "\<not> p (hd s)" "\<not> p (last s)"
  shows "trim_with p (ws @ s @ ws') = s"
proof -
  obtain x t where s: "s = x # t" "\<not> p x" using assms(3,4) by (cases s) auto
  have "dropWhile p (ws @ s @ ws') = s @ ws'" using assms(1) s by (simp add: dropWhile_append list_all_iff)
  moreover have "\<not> p (hd (rev s))" "rev s \<noteq> []" using assms(3,5) by (simp_all add: hd_rev)
  then obtain y u where y: "rev s = y # u" "\<not> p y" by (cases "rev s") simp_all
  then have "dropWhile p (rev ws' @ rev s) = rev s" using assms(2) by (simp add: dropWhile_append list_all_iff)
  ultimately show ?thesis by (simp add: trim_with_def)
qed

end
