(* ===== verification/Replay_Filter.thy ===== *)
theory Replay_Filter
  imports Go_Prelude
begin

text \<open>
  The sliding-window anti-replay filter of \<^verbatim>\<open>golib/webrtc/replay.go\<close>: the highest sequence
  number seen and a bitmap of 128 64-bit words for the 8192 numbers up to it. The bitmap is
  kept in words, and the window moves by shifting whole words and then bits in place, loop
  by loop as the source does. The abstract filter keeps the set of the accepted numbers
  still in the window; the lemmas show that the shift computes the shift of the whole bit
  vector, that \<open>Check\<close> refines the abstract filter, and that no number is accepted twice.
\<close>

section \<open>The filter\<close>

definition replayWindowSize :: u64 where
  "replayWindowSize = 8192"

record replay_filter =
  rf_maxSeq :: u64
  rf_bitmap :: "u64 list"

definition newReplayFilter :: replay_filter where
  "newReplayFilter = \<lparr>rf_maxSeq = 0, rf_bitmap = replicate 128 0\<rparr>"

definition setBit :: "u64 \<Rightarrow> u64 list \<Rightarrow> u64 list" where
  "setBit offset bm =
     (let idx = unat (offset div 64); b = unat (offset mod 64)
      in bm[idx := bm ! idx OR push_bit b 1])"

definition getBit :: "u64 \<Rightarrow> u64 list \<Rightarrow> bool" where
  "getBit offset bm =
     (let idx = unat (offset div 64); b = unat (offset mod 64)
      in (bm ! idx) AND push_bit b 1 \<noteq> 0)"

text \<open>The three loops of \<^verbatim>\<open>advanceWindow\<close>.\<close>

definition shift_words :: "nat \<Rightarrow> u64 list \<Rightarrow> u64 list" where
  "shift_words ws bm = fold (\<lambda>i bm. bm[i := bm ! (i - ws)]) (rev [ws..<128]) bm"

definition zero_words :: "nat \<Rightarrow> u64 list \<Rightarrow> u64 list" where
  "zero_words ws bm = fold (\<lambda>i bm. bm[i := 0]) [0..<ws] bm"

definition shift_bits :: "nat \<Rightarrow> u64 list \<Rightarrow> u64 list" where
  "shift_bits b bm =
     (let bm1 = fold (\<lambda>i bm. bm[i := push_bit b (bm ! i) OR drop_bit (64 - b) (bm ! (i - 1))])
                  (rev [1..<128]) bm
      in bm1[0 := push_bit b (bm1 ! 0)])"

definition advanceWindow :: "u64 \<Rightarrow> u64 list \<Rightarrow> u64 list" where
  "advanceWindow shift bm =
     (let wordShift = unat (shift div 64); bitShift = unat (shift mod 64)
      in if 128 \<le> wordShift then replicate 128 0
         else let bm1 = (if 0 < wordShift then zero_words wordShift (shift_words wordShift bm) else bm)
              in if 0 < bitShift then shift_bits bitShift bm1 else bm1)"

definition Check :: "u64 \<Rightarrow> replay_filter \<Rightarrow> bool \<times> replay_filter" where
  "Check seq rf =
     (if rf_maxSeq rf < seq then
        let shift = seq - rf_maxSeq rf;
            bm = (if replayWindowSize \<le> shift then replicate 128 0
                  else advanceWindow shift (rf_bitmap rf))
        in (True, \<lparr>rf_maxSeq = seq, rf_bitmap = setBit 0 bm\<rparr>)
      else
        let diff = rf_maxSeq rf - seq
        in if replayWindowSize \<le> diff then (False, rf)
           else if getBit diff (rf_bitmap rf) then (False, rf)
           else (True, rf\<lparr>rf_bitmap := setBit diff (rf_bitmap rf)\<rparr>))"

text \<open>A run of checks: the numbers accepted, in order, and the filter after them.\<close>

fun accepts :: "u64 list \<Rightarrow> replay_filter \<Rightarrow> u64 list \<times> replay_filter" where
  "accepts [] rf = ([], rf)"
| "accepts (q # qs) rf =
     (case Check q rf of (ok, rf') \<Rightarrow>
        (case accepts qs rf' of (as, rf'') \<Rightarrow> (if ok then q # as else as, rf'')))"

section \<open>The bitmap as a bit vector\<close>

definition wbit :: "u64 list \<Rightarrow> nat \<Rightarrow> bool" where
  "wbit bm n = bit (bm ! (n div 64)) (n mod 64)"

lemma bit_and_one: "(w :: u64) AND push_bit b 1 \<noteq> 0 \<longleftrightarrow> bit w b" if "b < 64"
proof -
  have "bit (w AND push_bit b 1) n \<longleftrightarrow> n = b \<and> bit w b" for n
    using that by (auto simp: bit_simps)
  then show ?thesis by (metis bit_eq_iff bit_0_eq bot_apply bot_bool_def)
qed

lemma getBit_wbit: "getBit off bm = wbit bm (unat off)"
  unfolding getBit_def wbit_def Let_def unat_div unat_mod
  by (simp add: bit_and_one del: push_bit_of_1)

lemma length_setBit [simp]: "length (setBit off bm) = length bm"
  by (simp add: setBit_def Let_def)

lemma wbit_setBit:
  assumes "length bm = 128" and "unat off < 8192" and "n < 8192"
  shows "wbit (setBit off bm) n \<longleftrightarrow> n = unat off \<or> wbit bm n"
proof -
  have off: "unat off div 64 < 128" and n: "n div 64 < 128" using assms by auto
  have eq: "n = unat off \<longleftrightarrow> n div 64 = unat off div 64 \<and> n mod 64 = unat off mod 64"
    by (metis div_mult_mod_eq)
  show ?thesis
    unfolding wbit_def setBit_def Let_def unat_div unat_mod eq
    using assms(1) off n
    by (cases "n div 64 = unat off div 64") (auto simp: bit_or_iff bit_exp_iff)
qed

lemma wbit_zeros [simp]: "n < 8192 \<Longrightarrow> \<not> wbit (replicate 128 0) n"
  by (simp add: wbit_def less_mult_imp_div_less)

lemma length_shift_words [simp]: "length (shift_words ws bm) = length bm"
  unfolding shift_words_def by (rule length_fold_update)

lemma length_zero_words [simp]: "length (zero_words ws bm) = length bm"
  unfolding zero_words_def by (rule length_fold_update)

lemma length_shift_bits [simp]: "length (shift_bits b bm) = length bm"
  unfolding shift_bits_def Let_def length_list_update by (rule length_fold_update)

lemma shift_words_nth:
  assumes "length bm = 128" and "j < 128"
  shows "shift_words ws bm ! j = (if ws \<le> j then bm ! (j - ws) else bm ! j)"
  unfolding shift_words_def using assms
  by (subst fold_down_update [where f = "\<lambda>bm i. bm ! (i - ws)"]) auto

lemma zero_words_nth:
  assumes "length bm = 128" and "j < 128"
  shows "zero_words ws bm ! j = (if j < ws then 0 else bm ! j)"
  unfolding zero_words_def using assms by (subst fold_const_update) auto

lemma shift_bits_nth:
  assumes "length bm = 128" and "j < 128"
  shows "shift_bits b bm ! j =
           (if j = 0 then push_bit b (bm ! 0)
            else push_bit b (bm ! j) OR drop_bit (64 - b) (bm ! (j - 1)))"
proof -
  let ?f = "\<lambda>bm i. push_bit b (bm ! i) OR drop_bit (64 - b) (bm ! (i - 1))"
  let ?bm1 = "fold (\<lambda>i bm. bm[i := ?f bm i]) (rev [1..<128]) bm"
  have nth: "?bm1 ! k = (if 1 \<le> k \<and> k < 128 then ?f bm k else bm ! k)" if "k < 128" for k
    using assms that by (intro fold_down_update) auto
  show ?thesis
    using nth [of 0] nth [OF assms(2)] assms
    by (auto simp: shift_bits_def Let_def nth_list_update)
qed

lemma div_mod_of:
  fixes m :: nat
  assumes "m = c * q + r" and "r < c"
  shows "m div c = q" and "m mod c = r"
  using assms by auto

lemma wbit_shift_words:
  assumes "length bm = 128" and "n < 8192"
  shows "wbit (zero_words ws (shift_words ws bm)) n \<longleftrightarrow> 64 * ws \<le> n \<and> wbit bm (n - 64 * ws)"
proof -
  have "n div 64 < 128" using assms(2) by auto
  then have eq: "zero_words ws (shift_words ws bm) ! (n div 64) = (if n div 64 < ws then 0 else bm ! (n div 64 - ws))"
    using assms(1) by (simp add: zero_words_nth shift_words_nth)
  have le: "64 * ws \<le> n \<longleftrightarrow> ws \<le> n div 64" by (simp add: less_eq_div_iff_mult_less_eq mult.commute)
  have idx: "(n - 64 * ws) div 64 = n div 64 - ws \<and> (n - 64 * ws) mod 64 = n mod 64" if le': "64 * ws \<le> n"
  proof -
    obtain k where "n = k + 64 * ws" using le' by (metis le_add_diff_inverse2)
    then show ?thesis by simp
  qed
  show ?thesis using idx le by (auto simp: wbit_def eq)
qed

lemma bit_word_shift:
  fixes v w :: u64
  assumes "r < 64" and "0 < b" and "b < 64"
  shows "bit (push_bit b v OR drop_bit (64 - b) w) r \<longleftrightarrow>
           (if b \<le> r then bit v (r - b) else bit w (64 - b + r))"
proof -
  have "\<not> bit w (64 - b + r)" if "b \<le> r"
    using that assms bit_imp_le_length [of w "64 - b + r"] by auto
  then show ?thesis
    using assms by (auto simp: bit_or_iff bit_push_bit_iff bit_drop_bit_eq)
qed

lemma wbit_shift_bits:
  assumes "length bm = 128" and "n < 8192" and "0 < b" and "b < 64"
  shows "wbit (shift_bits b bm) n \<longleftrightarrow> b \<le> n \<and> wbit bm (n - b)"
proof -
  define j r where "j = n div 64" and "r = n mod 64"
  have n: "n = 64 * j + r" and r: "r < 64" and j: "j < 128" using assms(2) by (auto simp: j_def r_def)
  have lhs: "wbit (shift_bits b bm) n = bit (shift_bits b bm ! j) r"
    by (simp add: wbit_def j_def r_def)
  show ?thesis
  proof (cases "b \<le> r")
    case True
    then have "(n - b) div 64 = j" "(n - b) mod 64 = r - b" "b \<le> n"
      using div_mod_of [of "n - b" 64 j "r - b"] n r by auto
    then show ?thesis
      unfolding lhs unfolding wbit_def using True r assms(3,4)
      by (simp add: shift_bits_nth [OF assms(1) j] bit_word_shift bit_push_bit_iff)
  next
    case False
    show ?thesis
    proof (cases j)
      case 0
      then show ?thesis
        unfolding lhs using False n shift_bits_nth [OF assms(1), of 0 b] by (simp add: bit_push_bit_iff)
    next
      case (Suc q)
      then have eq: "n - b = 64 * q + (64 - b + r)" "64 - b + r < 64" and "b \<le> n"
        using n r False assms(3,4) by auto
      note div_mod_of [OF eq]
      with \<open>b \<le> n\<close> have "(n - b) div 64 = q" "(n - b) mod 64 = 64 - b + r" "b \<le> n" by auto
      then show ?thesis
        unfolding lhs shift_bits_nth [OF assms(1) j] unfolding wbit_def
        using False Suc r assms(3,4) by (simp add: bit_word_shift)
    qed
  qed
qed

text \<open>The window moves as one bit vector, whatever the split into words.\<close>

lemma length_advanceWindow [simp]: "length bm = 128 \<Longrightarrow> length (advanceWindow shift bm) = 128"
  by (simp add: advanceWindow_def Let_def)

lemma shift_split: "(b \<le> n \<and> a \<le> n - b) \<longleftrightarrow> a + b \<le> (n :: nat)"
  by arith

lemma wbit_advanceWindow:
  assumes "length bm = 128" and "n < 8192"
  shows "wbit (advanceWindow shift bm) n \<longleftrightarrow> unat shift \<le> n \<and> wbit bm (n - unat shift)"
proof -
  let ?ws = "unat shift div 64" and ?bs = "unat shift mod 64"
  have sh: "unat shift = 64 * ?ws + ?bs" by simp
  show ?thesis
  proof (cases "128 \<le> ?ws")
    case True
    then have "n < unat shift" using assms(2) sh by linarith
    with True assms show ?thesis by (simp add: advanceWindow_def unat_div unat_mod)
  next
    case False
    define bm1 where "bm1 = (if 0 < ?ws then zero_words ?ws (shift_words ?ws bm) else bm)"
    have len: "length bm1 = 128" using assms(1) by (simp add: bm1_def)
    have bm1: "wbit bm1 k \<longleftrightarrow> 64 * ?ws \<le> k \<and> wbit bm (k - 64 * ?ws)" if "k < 8192" for k
      using wbit_shift_words [OF assms(1) that] by (simp add: bm1_def)
    have adv: "advanceWindow shift bm = (if 0 < ?bs then shift_bits ?bs bm1 else bm1)"
      using False by (simp add: advanceWindow_def bm1_def Let_def unat_div unat_mod)
    show ?thesis
    proof (cases "0 < ?bs")
      case True
      then have "wbit (advanceWindow shift bm) n \<longleftrightarrow> ?bs \<le> n \<and> wbit bm1 (n - ?bs)"
        using wbit_shift_bits [OF len assms(2)] by (simp add: adv)
      also have "\<dots> \<longleftrightarrow> 64 * ?ws + ?bs \<le> n \<and> wbit bm (n - (64 * ?ws + ?bs))"
        using bm1 [of "n - ?bs"] assms(2) shift_split [of "?bs" n "64 * ?ws"]
        by (simp only: diff_diff_left add.commute less_imp_diff_less) blast
      finally show ?thesis by (simp only: sh [symmetric])
    next
      case False
      then show ?thesis using bm1 [OF assms(2)] sh by (simp add: adv)
    qed
  qed
qed

section \<open>The abstract filter\<close>

text \<open>
  The highest number accepted so far and the accepted numbers still in the window, with no
  bitmap: what the filter promises its callers.
\<close>

type_synonym window = "nat \<times> nat set"

definition spec_check :: "nat \<Rightarrow> window \<Rightarrow> bool \<times> window" where
  "spec_check q w = (case w of (m, S) \<Rightarrow>
     if m < q then (True, (q, insert q {x \<in> S. q < x + 8192}))
     else if m < q + 8192 \<and> q \<notin> S then (True, (m, insert q S))
     else (False, (m, S)))"

definition window_of :: "replay_filter \<Rightarrow> window" where
  "window_of rf =
     (let m = unat (rf_maxSeq rf)
      in (m, {q. q \<le> m \<and> m < q + 8192 \<and> wbit (rf_bitmap rf) (m - q)}))"

definition rf_ok :: "replay_filter \<Rightarrow> bool" where
  "rf_ok rf \<longleftrightarrow> length (rf_bitmap rf) = 128"

lemma rf_ok_new [simp]: "rf_ok newReplayFilter"
  by (simp add: rf_ok_def newReplayFilter_def)

lemma rf_ok_Check: "rf_ok rf \<Longrightarrow> rf_ok (snd (Check q rf))"
  by (simp add: rf_ok_def Check_def Let_def)

lemma window_of_new: "window_of newReplayFilter = (0, {})"
  by (auto simp: window_of_def newReplayFilter_def wbit_def)

text \<open>The window after a newer number, bit by bit.\<close>

lemma newer_bits:
  fixes m q x :: nat
  assumes mq: "m < q"
    and bits: "\<And>n. n < 8192 \<Longrightarrow> B' n \<longleftrightarrow> n = 0 \<or> q - m \<le> n \<and> B (n - (q - m))"
  shows "x \<le> q \<and> q < x + 8192 \<and> B' (q - x) \<longleftrightarrow>
           x = q \<or> (x \<le> m \<and> m < x + 8192 \<and> B (m - x)) \<and> q < x + 8192"
proof (cases "x \<le> q \<and> q < x + 8192")
  case True
  then have "B' (q - x) \<longleftrightarrow> q - x = 0 \<or> q - m \<le> q - x \<and> B (q - x - (q - m))"
    by (intro bits) auto
  moreover have "q - x - (q - m) = m - x" "q - m \<le> q - x \<longleftrightarrow> x \<le> m" "q - x = 0 \<longleftrightarrow> x = q" "m < x + 8192"
    using True mq by auto
  ultimately show ?thesis using True by simp
next
  case False
  then show ?thesis using mq by auto
qed

lemma Check_newer:
  assumes ok: "rf_ok rf" and lt: "rf_maxSeq rf < q"
  shows "fst (Check q rf)"
    and "window_of (snd (Check q rf)) =
           (unat q, insert (unat q) {x \<in> snd (window_of rf). unat q < x + 8192})"
proof -
  let ?m = "unat (rf_maxSeq rf)" and ?shift = "q - rf_maxSeq rf"
  define bm where
    "bm = (if 8192 \<le> ?shift then replicate 128 0 else advanceWindow ?shift (rf_bitmap rf))"
  have mq: "?m < unat q" using lt by (simp add: word_less_nat_alt)
  have sh: "unat ?shift = unat q - ?m" using lt by (simp add: unat_sub)
  have chk: "Check q rf = (True, \<lparr>rf_maxSeq = q, rf_bitmap = setBit 0 bm\<rparr>)"
    using lt by (simp add: Check_def replayWindowSize_def Let_def bm_def)
  then show "fst (Check q rf)" by simp
  have big: "8192 \<le> ?shift \<longleftrightarrow> 8192 \<le> unat q - ?m" by (simp add: word_le_nat_alt sh)
  have len: "length bm = 128" using ok by (simp add: rf_ok_def bm_def)
  have "wbit bm n \<longleftrightarrow> unat q - ?m \<le> n \<and> wbit (rf_bitmap rf) (n - (unat q - ?m))" if "n < 8192" for n
    using that ok big by (auto simp: wbit_advanceWindow rf_ok_def sh bm_def)
  then have "wbit (setBit 0 bm) n \<longleftrightarrow> n = 0 \<or> unat q - ?m \<le> n \<and> wbit (rf_bitmap rf) (n - (unat q - ?m))"
    if "n < 8192" for n using wbit_setBit [OF len _ that, of 0] that by simp
  then have bits: "x \<le> unat q \<and> unat q < x + 8192 \<and> wbit (setBit 0 bm) (unat q - x) \<longleftrightarrow>
      x = unat q \<or> (x \<le> ?m \<and> ?m < x + 8192 \<and> wbit (rf_bitmap rf) (?m - x)) \<and> unat q < x + 8192" for x
    by (rule newer_bits [OF mq])
  show "window_of (snd (Check q rf)) =
      (unat q, insert (unat q) {x \<in> snd (window_of rf). unat q < x + 8192})"
    unfolding chk window_of_def Let_def snd_conv by (simp add: bits) blast
qed

lemma Check_older:
  assumes ok: "rf_ok rf" and le: "q \<le> rf_maxSeq rf"
  shows "map_prod id window_of (Check q rf) = spec_check (unat q) (window_of rf)"
proof -
  let ?m = "unat (rf_maxSeq rf)" and ?d = "rf_maxSeq rf - q"
  obtain S where win: "window_of rf = (?m, S)" by (simp add: window_of_def Let_def)
  have qm: "unat q \<le> ?m" using le by (simp add: word_le_nat_alt)
  have sub: "unat ?d = ?m - unat q" using le by (simp add: unat_sub)
  have old: "8192 \<le> ?d \<longleftrightarrow> \<not> ?m < unat q + 8192" using qm by (auto simp: word_le_nat_alt sub)
  have mem: "unat q \<in> S \<longleftrightarrow> wbit (rf_bitmap rf) (?m - unat q)" if "?m < unat q + 8192"
    using qm win that by (auto simp: window_of_def Let_def)
  have chk: "Check q rf = (if \<not> ?m < unat q + 8192 \<or> wbit (rf_bitmap rf) (?m - unat q) then (False, rf)
      else (True, rf\<lparr>rf_bitmap := setBit ?d (rf_bitmap rf)\<rparr>))"
    using le by (auto simp: Check_def Let_def replayWindowSize_def getBit_wbit sub old leD)
  have upd: "window_of (rf\<lparr>rf_bitmap := setBit ?d (rf_bitmap rf)\<rparr>) = (?m, insert (unat q) S)"
    if w: "?m < unat q + 8192"
  proof -
    have "wbit (setBit ?d (rf_bitmap rf)) (?m - x) \<longleftrightarrow> x = unat q \<or> wbit (rf_bitmap rf) (?m - x)"
      if "x \<le> ?m" "?m < x + 8192" for x
      using that w qm ok wbit_setBit [of "rf_bitmap rf" ?d "?m - x"] by (auto simp: rf_ok_def sub)
    then show ?thesis using win w qm by (auto simp: window_of_def Let_def)
  qed
  show ?thesis
  proof (cases "?m < unat q + 8192 \<and> unat q \<notin> S")
    case True
    then show ?thesis using qm mem by (simp add: chk win spec_check_def upd)
  next
    case False
    then show ?thesis using qm mem by (auto simp add: chk win spec_check_def)
  qed
qed

lemma Check_spec:
  assumes "rf_ok rf"
  shows "map_prod id window_of (Check q rf) = spec_check (unat q) (window_of rf)"
proof (cases "rf_maxSeq rf < q")
  case True
  then have "fst (window_of rf) < unat q" by (simp add: window_of_def Let_def word_less_nat_alt)
  then show ?thesis
    using Check_newer [OF assms True]
    by (cases "Check q rf"; cases "window_of rf") (simp add: spec_check_def)
next
  case False
  then show ?thesis using Check_older [OF assms] by simp
qed

section \<open>Runs of checks\<close>

text \<open>
  What a receiver needs of a replay filter: an accepted number was not spent before, and it
  and everything spent earlier stay spent.
\<close>

locale replay_guard =
  fixes chk :: "'q \<Rightarrow> 's \<Rightarrow> bool \<times> 's"
    and run :: "'q list \<Rightarrow> 's \<Rightarrow> 'q list \<times> 's"
    and spent :: "'s \<Rightarrow> 'q set"
    and inv :: "'s \<Rightarrow> bool"
  assumes run_Nil: "run [] s = ([], s)"
    and run_Cons: "run (q # qs) s =
          (let (ok, s') = chk q s; (as, s'') = run qs s' in (if ok then q # as else as, s''))"
    and chk_inv: "inv s \<Longrightarrow> inv (snd (chk q s))"
    and chk_fresh: "inv s \<Longrightarrow> fst (chk q s) \<Longrightarrow> q \<notin> spent s \<and> q \<in> spent (snd (chk q s))"
    and chk_mono: "inv s \<Longrightarrow> spent s \<subseteq> spent (snd (chk q s))"
begin

lemma run_inv: "inv s \<Longrightarrow> inv (snd (run qs s))"
  by (induction qs arbitrary: s)
    (auto simp: run_Nil run_Cons split: prod.splits dest: chk_inv, metis chk_inv snd_conv)

lemma run_distinct: "inv s \<Longrightarrow> distinct (fst (run qs s)) \<and> set (fst (run qs s)) \<inter> spent s = {}"
proof (induction qs arbitrary: s)
  case Nil
  then show ?case by (simp add: run_Nil)
next
  case (Cons q qs)
  obtain ok s' where chk: "chk q s = (ok, s')" by fastforce
  have "inv s'" "spent s \<subseteq> spent s'" "ok \<Longrightarrow> q \<notin> spent s \<and> q \<in> spent s'"
    using chk_inv [OF Cons.prems, of q] chk_mono [OF Cons.prems, of q] chk_fresh [OF Cons.prems, of q] chk
    by auto
  with Cons.IH [of s'] show ?case
    by (auto simp: run_Cons chk split: prod.splits)
qed

end

text \<open>Spent numbers of the filter: seen in the window, or too old for it.\<close>

definition rf_spent :: "replay_filter \<Rightarrow> u64 set" where
  "rf_spent rf = {q. unat q \<in> snd (window_of rf) \<or> unat q + 8192 \<le> fst (window_of rf)}"

lemma Check_cases:
  assumes "rf_ok rf"
  obtains m S b rf' m' S' where "window_of rf = (m, S)" "Check q rf = (b, rf')" "window_of rf' = (m', S')"
    "spec_check (unat q) (m, S) = (b, (m', S'))" "\<And>x. x \<in> S \<Longrightarrow> x \<le> m"
proof -
  obtain b rf' where chk: "Check q rf = (b, rf')" by fastforce
  obtain m S where w: "window_of rf = (m, S)" by fastforce
  obtain m' S' where w': "window_of rf' = (m', S')" by fastforce
  show thesis
    by (rule that [OF w chk w'])
      (use Check_spec [OF assms, of q] chk w w' in \<open>auto simp: window_of_def Let_def\<close>)
qed

lemma Check_spent:
  assumes "rf_ok rf"
  shows "rf_spent rf \<subseteq> rf_spent (snd (Check q rf))"
    and "fst (Check q rf) \<Longrightarrow> q \<notin> rf_spent rf \<and> q \<in> rf_spent (snd (Check q rf))"
proof -
  obtain m S b rf' m' S' where w: "window_of rf = (m, S)" "Check q rf = (b, rf')" "window_of rf' = (m', S')"
    and sp: "spec_check (unat q) (m, S) = (b, (m', S'))" and le: "\<And>x. x \<in> S \<Longrightarrow> x \<le> m"
    by (rule Check_cases [OF assms, of q]) blast
  show "rf_spent rf \<subseteq> rf_spent (snd (Check q rf))"
    using sp le by (auto simp: rf_spent_def w spec_check_def split: if_splits)
  show "q \<notin> rf_spent rf \<and> q \<in> rf_spent (snd (Check q rf))" if "fst (Check q rf)"
    using that sp le [of "unat q"] by (auto simp: rf_spent_def w spec_check_def split: if_splits)
qed

interpretation rf: replay_guard Check accepts rf_spent rf_ok
  by unfold_locales
    (simp_all add: rf_ok_Check Check_spent(1) Check_spent(2) Let_def split: prod.splits)

text \<open>The window of the filter after a run, in terms of the numbers accepted in it.\<close>

definition run_window :: "u64 list \<Rightarrow> window" where
  "run_window as = (let m = unat (fold max as 0) in (m, {unat q | q. q \<in> set as \<and> m < unat q + 8192}))"

lemma fold_max_snoc: "fold max (as @ [q]) 0 = max q (fold max as (0 :: u64))"
  by simp

lemma fold_max_ge: "q \<in> set as \<Longrightarrow> q \<le> fold max as (0 :: u64)"
  by (induction as rule: rev_induct) (auto simp: le_max_iff_disj)

lemma run_window_Check:
  assumes "rf_ok rf" and "window_of rf = run_window as"
  shows "window_of (snd (Check q rf)) = run_window (if fst (Check q rf) then as @ [q] else as)"
proof -
  have ge: "unat x \<le> unat (fold max as 0)" if "x \<in> set as" for x
    using fold_max_ge [OF that] by (simp add: word_le_nat_alt)
  have mx: "unat (max q w) = max (unat q) (unat w)" for w :: u64
    by (simp add: max_def word_le_nat_alt)
  show ?thesis
    by (rule Check_cases [OF assms(1), of q])
      (use assms(2) ge in \<open>auto simp: run_window_def spec_check_def Let_def mx split: if_splits\<close>)
qed

lemma accepts_window:
  assumes "rf_ok rf" and "window_of rf = run_window as"
  shows "window_of (snd (accepts qs rf)) = run_window (as @ fst (accepts qs rf))"
  using assms
proof (induction qs arbitrary: as rf)
  case (Cons q qs)
  have "rf_ok (snd (Check q rf))" using Cons.prems(1) by (rule rf_ok_Check)
  from Cons.IH [OF this run_window_Check [OF Cons.prems]] show ?case
    by (auto split: prod.splits)
qed simp

lemma fst_Check:
  assumes "rf_ok rf"
  shows "fst (Check q rf) \<longleftrightarrow> q \<notin> rf_spent rf"
proof -
  obtain m S b rf' m' S' where w: "window_of rf = (m, S)" "Check q rf = (b, rf')" "window_of rf' = (m', S')"
    and sp: "spec_check (unat q) (m, S) = (b, (m', S'))" and le: "\<And>x. x \<in> S \<Longrightarrow> x \<le> m"
    by (rule Check_cases [OF assms, of q]) blast
  show ?thesis
    using sp le [of "unat q"] by (auto simp: rf_spent_def w spec_check_def split: if_splits)
qed

section \<open>Properties\<close>

text \<open>
  C1: over any sequence of received numbers, starting from a new filter, no sequence number
  is accepted twice.
\<close>

theorem replay_accepts_distinct: "distinct (fst (accepts qs newReplayFilter))"
  using rf.run_distinct [OF rf_ok_new] by blast

text \<open>
  C2: the filter is exact. After any run from a new filter, a number is accepted if and
  only if it was not accepted before and it is less than 8192 behind the highest number
  accepted (0 when there is none): no legitimate in-window number is refused, and nothing
  older than the window is let through.
\<close>

theorem replay_accept_iff:
  "fst (Check q (snd (accepts qs newReplayFilter))) \<longleftrightarrow>
     q \<notin> set (fst (accepts qs newReplayFilter)) \<and>
     unat (fold max (fst (accepts qs newReplayFilter)) 0) < unat q + 8192"
proof -
  let ?as = "fst (accepts qs newReplayFilter)" and ?rf = "snd (accepts qs newReplayFilter)"
  have ok: "rf_ok ?rf" by (rule rf.run_inv) simp
  have "window_of newReplayFilter = run_window []" by (simp add: window_of_new run_window_def)
  from accepts_window [OF rf_ok_new this] have w: "window_of ?rf = run_window ?as" by simp
  have "q \<in> rf_spent ?rf \<longleftrightarrow> q \<in> set ?as \<or> unat q + 8192 \<le> unat (fold max ?as 0)"
    by (auto simp: rf_spent_def w run_window_def Let_def dest!: iffD2 [OF word_unat_eq_iff])
  then show ?thesis by (auto simp: fst_Check [OF ok])
qed

text \<open>
  C3: one call of \<open>Check\<close> on a filter with its 128 words implements the abstract filter
  over sets of numbers: same verdict, and the abstraction of the new bitmap is the new set.
\<close>

theorem Check_refines_spec:
  assumes "rf_ok rf"
  shows "map_prod id window_of (Check q rf) = spec_check (unat q) (window_of rf)"
  using assms by (rule Check_spec)

theorem Check_refines_spec_witness:
  "rf_ok newReplayFilter \<and>
   map_prod id window_of (Check 70 newReplayFilter) = spec_check 70 (0, {}) \<and>
   fst (Check 70 newReplayFilter) \<and> \<not> fst (Check 70 (snd (Check 70 newReplayFilter)))"
  using Check_refines_spec [OF rf_ok_new, of 70] Check_refines_spec [of "snd (Check 70 newReplayFilter)" 70]
    rf_ok_Check [OF rf_ok_new, of 70]
  by (cases "Check 70 newReplayFilter"; cases "Check 70 (snd (Check 70 newReplayFilter))")
    (simp add: window_of_new spec_check_def)

text \<open>
  moving the window word by word and then bit by bit, in place, is the shift of the
  whole 8192-bit vector by the number of positions asked for.
\<close>

lemma advanceWindow_shift:
  assumes "length bm = 128" and "n < 8192"
  shows "getBit (of_nat n) (advanceWindow shift bm) \<longleftrightarrow>
           unat shift \<le> n \<and> getBit (of_nat n - shift) bm"
proof -
  have n: "unat (of_nat n :: u64) = n" using assms(2) by (simp add: unat_of_nat)
  moreover have "unat (of_nat n - shift) = n - unat shift" if "unat shift \<le> n"
    using that n unat_sub [of shift "of_nat n"] by (simp add: word_le_nat_alt)
  ultimately show ?thesis
    using assms by (auto simp: getBit_wbit wbit_advanceWindow)
qed

end
