(* ===== verification/Padding.thy ===== *)
theory Padding
  imports Go_Prelude
begin

text \<open>
  The padded stream of \<^verbatim>\<open>golib/webrtc/padding.go\<close> and \<^verbatim>\<open>padding_burst.go\<close>. Every write becomes
  a frame with a flags byte and 16-bit lengths, possibly with random padding; decoy frames
  and a burst-end mark are mixed in and dropped by the reader. \<open>PadRead\<close> is the reader's
  loop with every error branch; the random numbers the writer draws are arguments. The
  frames form a frame codec, and the reader is a buffered reader of the payloads.
\<close>

section \<open>Writing\<close>

definition paddingFlagNone :: byte where "paddingFlagNone = 0"
definition paddingFlagPad :: byte where "paddingFlagPad = 1"
definition paddingFlagDecoy :: byte where "paddingFlagDecoy = 2"
definition paddingFlagBurstEnd :: byte where "paddingFlagBurstEnd = 3"

lemmas pad_flag_defs =
  paddingFlagNone_def paddingFlagPad_def paddingFlagDecoy_def paddingFlagBurstEnd_def

datatype pad_frame = FrameNone bytes | FramePad bytes bytes | FrameDecoy bytes | FrameBurstEnd

text \<open>The buffers the writer fills, one equation per wire format.\<close>

fun enc_frame :: "pad_frame \<Rightarrow> bytes" where
  "enc_frame (FrameNone p) = paddingFlagNone # put_u16 (u16_len (length p)) @ p"
| "enc_frame (FramePad pad p) =
     paddingFlagPad # put_u16 (u16_len (length pad)) @ pad @ put_u16 (u16_len (length p)) @ p"
| "enc_frame (FrameDecoy d) = paddingFlagDecoy # put_u16 (u16_len (length d)) @ d"
| "enc_frame FrameBurstEnd = [paddingFlagBurstEnd]"

datatype pad_error =
    PadIO io_error
  | PadRead_error string io_error
  | UnknownFlags byte
  | PadPanic

text \<open>
  The stream's own state: the padding range, whether the burst was sent, and the bytes of a
  partly consumed frame. The inner stream's writing side is a sink that appends, or fails
  with its error.
\<close>

record padded_stream =
  ps_minPad :: int
  ps_maxPad :: int
  ps_burstDone :: bool
  ps_readBuf :: bytes

record sink =
  sk_out :: bytes
  sk_err :: "io_error option"

definition newPaddedStream :: "int \<Rightarrow> int \<Rightarrow> padded_stream" where
  "newPaddedStream minPad maxPad =
     \<lparr>ps_minPad = minPad, ps_maxPad = maxPad, ps_burstDone = False, ps_readBuf = []\<rparr>"

definition sink_write :: "bytes \<Rightarrow> sink \<Rightarrow> (pad_error + unit) \<times> sink" where
  "sink_write b sk =
     (case sk_err sk of Some e \<Rightarrow> (Inl (PadIO e), sk) | None \<Rightarrow> (Inr (), sk\<lparr>sk_out := sk_out sk @ b\<rparr>))"

text \<open>
  Randomness: \<^verbatim>\<open>rand.Intn(n)\<close> for a draw \<open>r\<close> is \<open>r mod n\<close>, any number below \<open>n\<close>, and
  \<^verbatim>\<open>rand.Read\<close> fills a slice from a source of bytes.
\<close>

definition intn :: "nat \<Rightarrow> nat \<Rightarrow> nat" where
  "intn n r = r mod n"

definition rand_read :: "nat \<Rightarrow> (nat \<Rightarrow> byte) \<Rightarrow> bytes" where
  "rand_read n src = map src [0..<n]"

record pad_rand =
  pr_count :: nat
  pr_sizes :: "nat \<Rightarrow> nat"
  pr_fills :: "nat \<Rightarrow> nat \<Rightarrow> byte"
  pr_pad :: nat
  pr_src :: "nat \<Rightarrow> byte"

definition burst_frames :: "pad_rand \<Rightarrow> pad_frame list" where
  "burst_frames rnd =
     (let count = 3 + intn 6 (pr_count rnd)
      in map (\<lambda>i. FrameDecoy (rand_read (64 + intn 961 (pr_sizes rnd i)) (pr_fills rnd i))) [0..<count]
         @ [FrameBurstEnd])"

text \<open>The burst is one write; its error is only logged.\<close>

definition sendPaddingBurst :: "pad_rand \<Rightarrow> sink \<Rightarrow> sink" where
  "sendPaddingBurst rnd sk = snd (sink_write (concat (map enc_frame (burst_frames rnd))) sk)"

definition pad_len :: "padded_stream \<Rightarrow> nat \<Rightarrow> int" where
  "pad_len ps r =
     (if ps_minPad ps < ps_maxPad ps then ps_minPad ps + int (intn (nat (ps_maxPad ps - ps_minPad ps)) r)
      else if 0 < ps_maxPad ps then ps_minPad ps
      else 0)"

definition PadWrite ::
    "bytes \<Rightarrow> pad_rand \<Rightarrow> padded_stream \<Rightarrow> sink \<Rightarrow> (pad_error + nat) \<times> padded_stream \<times> sink" where
  "PadWrite p rnd ps sk =
     (let sk1 = (if ps_burstDone ps then sk else sendPaddingBurst rnd sk);
          ps1 = ps\<lparr>ps_burstDone := True\<rparr>;
          padLen = pad_len ps1 (pr_pad rnd)
      in if padLen < 0 then (Inl PadPanic, ps1, sk1)
         else let buf = (if padLen = 0 then enc_frame (FrameNone p)
                         else enc_frame (FramePad (rand_read (nat padLen) (pr_src rnd)) p))
              in case sink_write buf sk1 of
                   (Inl e, sk2) \<Rightarrow> (Inl e, ps1, sk2)
                 | (Inr _, sk2) \<Rightarrow> (Inr (length p), ps1, sk2))"

definition WriteDecoy :: "int \<Rightarrow> pad_rand \<Rightarrow> sink \<Rightarrow> (pad_error + unit) \<times> sink" where
  "WriteDecoy sz rnd sk =
     (let size' = (if sz \<le> 0 then 64 + intn 961 (pr_pad rnd) else nat sz)
      in sink_write (enc_frame (FrameDecoy (rand_read size' (pr_src rnd)))) sk)"

definition WriteBurstEnd :: "sink \<Rightarrow> (pad_error + unit) \<times> sink" where
  "WriteBurstEnd sk = sink_write (enc_frame FrameBurstEnd) sk"

section \<open>Reading\<close>

text \<open>The length and payload of a real-data frame; \<open>None\<close> is the \<^verbatim>\<open>continue\<close> on an empty one.\<close>

definition read_payload :: "reader \<Rightarrow> (pad_error + bytes option) \<times> reader" where
  "read_payload r =
     (case read_full 2 r of
        (Inl e, r') \<Rightarrow> (Inl (PadRead_error ''read payload len'' e), r')
      | (Inr lenBuf, r') \<Rightarrow>
          let payloadLen = unat (be16 lenBuf)
          in if payloadLen = 0 then (Inr None, r')
             else (case read_full payloadLen r' of
                     (Inl e, r'') \<Rightarrow> (Inl (PadRead_error ''read payload'' e), r'')
                   | (Inr payload, r'') \<Rightarrow> (Inr (Some payload), r'')))"

definition discard_block :: "string \<Rightarrow> string \<Rightarrow> reader \<Rightarrow> (pad_error + unit) \<times> reader" where
  "discard_block what_len what r =
     (case read_full 2 r of
        (Inl e, r') \<Rightarrow> (Inl (PadRead_error what_len e), r')
      | (Inr lenBuf, r') \<Rightarrow>
          let n = unat (be16 lenBuf)
          in if n = 0 then (Inr (), r')
             else (case copy_n_discard n r' of
                     (Some e, r'') \<Rightarrow> (Inl (PadRead_error what e), r'')
                   | (None, r'') \<Rightarrow> (Inr (), r'')))"

text \<open>One turn of the reader's loop.\<close>

definition read_frame :: "reader \<Rightarrow> (pad_error + bytes option) \<times> reader" where
  "read_frame r =
     (case read_full 1 r of
        (Inl e, r') \<Rightarrow> (Inl (PadIO e), r')
      | (Inr flags, r') \<Rightarrow>
          if hd flags = paddingFlagNone then read_payload r'
          else if hd flags = paddingFlagPad then
            (case discard_block ''read padLen'' ''discard pad'' r' of
               (Inl e, r'') \<Rightarrow> (Inl e, r'')
             | (Inr _, r'') \<Rightarrow> read_payload r'')
          else if hd flags = paddingFlagDecoy then
            (case discard_block ''read decoy len'' ''discard decoy'' r' of
               (Inl e, r'') \<Rightarrow> (Inl e, r'')
             | (Inr _, r'') \<Rightarrow> (Inr None, r''))
          else if hd flags = paddingFlagBurstEnd then (Inr None, r')
          else (Inl (UnknownFlags (hd flags)), r'))"

lemma length_read_payload: "length (rd_data (snd (read_payload r))) \<le> length (rd_data r)"
  using length_read_full [of 2 r]
  by (auto simp: read_payload_def Let_def split: prod.splits sum.splits)
    (metis le_trans length_read_full snd_conv)+

lemma length_discard_block: "length (rd_data (snd (discard_block a b r))) \<le> length (rd_data r)"
  using length_read_full [of 2 r]
  by (auto simp: discard_block_def Let_def split: prod.splits sum.splits option.splits)
    (metis le_trans length_copy_n_discard snd_conv)+

lemma read_frame_consumes:
  assumes "read_frame r = (Inr x, r')"
  shows "length (rd_data r') < length (rd_data r)"
proof -
  obtain fl r1 where f: "read_full 1 r = (Inr fl, r1)"
    using assms by (auto simp: read_frame_def split: prod.splits sum.splits)
  have lt: "length (rd_data r1) < length (rd_data r)"
    using read_full_InrD(1,2) [OF f] by simp
  have "length (rd_data r') \<le> length (rd_data r1)"
    using assms f length_read_payload [of r1]
      length_discard_block [of "''read padLen''" "''discard pad''" r1]
      length_discard_block [of "''read decoy len''" "''discard decoy''" r1]
      length_read_payload [of "snd (discard_block ''read padLen'' ''discard pad'' r1)"]
    by (auto simp: read_frame_def split: prod.splits sum.splits if_splits)
  with lt show ?thesis by simp
qed

text \<open>The loop: it ends because every turn that continues has used up a byte.\<close>

function read_loop :: "reader \<Rightarrow> (pad_error + bytes) \<times> reader" where
  "read_loop r =
     (case read_frame r of
        (Inl e, r') \<Rightarrow> (Inl e, r')
      | (Inr (Some payload), r') \<Rightarrow> (Inr payload, r')
      | (Inr None, r') \<Rightarrow> read_loop r')"
  by pat_completeness auto

termination
  by (relation "measure (\<lambda>r. length (rd_data r))") (auto dest: read_frame_consumes [OF sym])

declare read_loop.simps [simp del]

text \<open>\<^verbatim>\<open>Read(p)\<close> with \<open>n = len(p)\<close>.\<close>

definition PadRead ::
    "nat \<Rightarrow> padded_stream \<Rightarrow> reader \<Rightarrow> (pad_error + bytes) \<times> padded_stream \<times> reader" where
  "PadRead n ps r =
     (if 0 < length (ps_readBuf ps)
      then (Inr (take n (ps_readBuf ps)), ps\<lparr>ps_readBuf := drop n (ps_readBuf ps)\<rparr>, r)
      else case read_loop r of
             (Inl e, r') \<Rightarrow> (Inl e, ps, r')
           | (Inr payload, r') \<Rightarrow>
               (Inr (take n payload),
                if n < length payload then ps\<lparr>ps_readBuf := drop n payload\<rparr> else ps,
                r'))"

section \<open>The wire format as a frame codec\<close>

text \<open>A reader of the documented wire format, frame by frame, with padding and decoys kept.\<close>

definition take_exact :: "nat \<Rightarrow> bytes \<Rightarrow> (bytes \<times> bytes) option" where
  "take_exact n bs = (if n \<le> length bs then Some (take n bs, drop n bs) else None)"

definition dec_block :: "bytes \<Rightarrow> (bytes \<times> bytes) option" where
  "dec_block bs = Option.bind (take_exact 2 bs) (\<lambda>(l, r). take_exact (unat (be16 l)) r)"

fun dec_frame :: "bytes \<Rightarrow> (pad_frame \<times> bytes) option" where
  "dec_frame [] = None"
| "dec_frame (f # bs) =
     (if f = paddingFlagNone then map_option (\<lambda>(p, r). (FrameNone p, r)) (dec_block bs)
      else if f = paddingFlagPad then
        Option.bind (dec_block bs) (\<lambda>(pad, bs'). map_option (\<lambda>(p, r). (FramePad pad p, r)) (dec_block bs'))
      else if f = paddingFlagDecoy then map_option (\<lambda>(d, r). (FrameDecoy d, r)) (dec_block bs)
      else if f = paddingFlagBurstEnd then Some (FrameBurstEnd, bs)
      else None)"

fun frame_ok :: "pad_frame \<Rightarrow> bool" where
  "frame_ok (FrameNone p) \<longleftrightarrow> length p < 65536"
| "frame_ok (FramePad pad p) \<longleftrightarrow> length pad < 65536 \<and> length p < 65536"
| "frame_ok (FrameDecoy d) \<longleftrightarrow> length d < 65536"
| "frame_ok FrameBurstEnd \<longleftrightarrow> True"

fun payload_of :: "pad_frame \<Rightarrow> bytes" where
  "payload_of (FrameNone p) = p"
| "payload_of (FramePad _ p) = p"
| "payload_of _ = []"

lemma take_exact_append [simp]: "length xs = n \<Longrightarrow> take_exact n (xs @ ys) = Some (xs, ys)"
  by (simp add: take_exact_def)

lemma dec_block_enc [simp]:
  "length p < 65536 \<Longrightarrow> dec_block (put_u16 (u16_len (length p)) @ p @ r) = Some (p, r)"
  by (simp add: dec_block_def)

interpretation pad: frame_codec enc_frame dec_frame frame_ok
proof
  fix f r
  assume "frame_ok f"
  then show "dec_frame (enc_frame f @ r) = Some (f, r)" by (cases f) (simp_all add: pad_flag_defs)
next
  fix f
  show "enc_frame f \<noteq> []" by (cases f) simp_all
qed

text \<open>
  The reader's turn and the wire format agree: where the format has a frame, the turn
  delivers its payload, or continues when there is none.
\<close>

lemma read_payload_block:
  "dec_block bs = Some (p, rest) \<Longrightarrow>
     read_payload \<lparr>rd_data = bs, rd_err = e\<rparr> =
       (Inr (if p = [] then None else Some p), \<lparr>rd_data = rest, rd_err = e\<rparr>)"
  by (auto simp: dec_block_def take_exact_def bind_eq_Some_conv read_payload_def read_full_def Let_def
      numeral_2_eq_2 split: if_splits)

lemma discard_block_block:
  "dec_block bs = Some (p, rest) \<Longrightarrow>
     discard_block w1 w2 \<lparr>rd_data = bs, rd_err = e\<rparr> = (Inr (), \<lparr>rd_data = rest, rd_err = e\<rparr>)"
  by (auto simp: dec_block_def take_exact_def bind_eq_Some_conv discard_block_def read_full_def
      copy_n_discard_def Let_def numeral_2_eq_2 split: if_splits)

lemma read_frame_dec:
  assumes "dec_frame bs = Some (f, rest)"
  shows "read_frame \<lparr>rd_data = bs, rd_err = e\<rparr> =
           (Inr (if payload_of f = [] then None else Some (payload_of f)), \<lparr>rd_data = rest, rd_err = e\<rparr>)"
proof (cases bs)
  case Nil
  with assms show ?thesis by simp
next
  case (Cons b bs')
  with assms show ?thesis
    by (auto simp: read_frame_def read_payload_block discard_block_block bind_eq_Some_conv pad_flag_defs
        split: if_splits)
qed

lemma read_loop_frames:
  assumes "list_all frame_ok fs"
  shows "read_loop \<lparr>rd_data = concat (map enc_frame fs) @ tail, rd_err = e\<rparr> =
    (case dropWhile (\<lambda>f. payload_of f = []) fs of
       [] \<Rightarrow> read_loop \<lparr>rd_data = tail, rd_err = e\<rparr>
     | f # fs' \<Rightarrow> (Inr (payload_of f), \<lparr>rd_data = concat (map enc_frame fs') @ tail, rd_err = e\<rparr>))"
  using assms
proof (induction fs)
  case (Cons f fs)
  have "dec_frame (enc_frame f @ concat (map enc_frame fs) @ tail) = Some (f, concat (map enc_frame fs) @ tail)"
    using Cons.prems by (intro pad.dec_enc) simp
  from read_frame_dec [OF this, of e] show ?case
    using Cons by (subst read_loop.simps) simp
qed simp

section \<open>The payload stream\<close>

text \<open>
  The receiving end as a buffered reader: its state is the stream, the inner reader, and the
  frames the inner reader still holds; the stream to come is the buffered rest and the
  payloads of those frames.
\<close>

type_synonym pad_recv = "padded_stream \<times> reader \<times> pad_frame list"

definition recv_ok :: "pad_recv \<Rightarrow> bool" where
  "recv_ok s = (case s of (ps, r, fs) \<Rightarrow> list_all frame_ok fs \<and> rd_data r = concat (map enc_frame fs))"

definition recv_rest :: "pad_recv \<Rightarrow> bytes" where
  "recv_rest s = (case s of (ps, r, fs) \<Rightarrow> ps_readBuf ps @ concat (map payload_of fs))"

definition recv_read :: "nat \<Rightarrow> pad_recv \<Rightarrow> (bytes \<times> pad_recv) option" where
  "recv_read n s = (case s of (ps, r, fs) \<Rightarrow>
     (case PadRead n ps r of
        (Inl _, _) \<Rightarrow> None
      | (Inr b, ps', r') \<Rightarrow>
          Some (b, ps', r', if ps_readBuf ps \<noteq> [] then fs else tl (dropWhile (\<lambda>f. payload_of f = []) fs))))"

lemma concat_payload_dropWhile:
  "concat (map payload_of (dropWhile (\<lambda>f. payload_of f = []) fs)) = concat (map payload_of fs)"
  by (induction fs) auto

lemma list_all_dropWhile: "list_all Q xs \<Longrightarrow> list_all Q (dropWhile P xs)"
  by (induction xs) auto

lemma PadRead_frames:
  assumes "recv_ok (ps, r, fs)" and "ps_readBuf ps = []"
  shows "PadRead n ps r =
    (case dropWhile (\<lambda>f. payload_of f = []) fs of
       [] \<Rightarrow> (Inl (PadIO (rd_err r)), ps, r\<lparr>rd_data := []\<rparr>)
     | f # fs' \<Rightarrow> (Inr (take n (payload_of f)),
                    ps\<lparr>ps_readBuf := drop n (payload_of f)\<rparr>, r\<lparr>rd_data := concat (map enc_frame fs')\<rparr>))"
proof -
  have r: "r = \<lparr>rd_data = concat (map enc_frame fs), rd_err = rd_err r\<rparr>"
    using assms(1) by (simp add: recv_ok_def)
  have ok: "list_all frame_ok fs" using assms(1) by (simp add: recv_ok_def)
  have "read_loop \<lparr>rd_data = [], rd_err = e\<rparr> = (Inl (PadIO e), \<lparr>rd_data = [], rd_err = e\<rparr>)" for e
    by (subst read_loop.simps) (simp add: read_frame_def read_full_def)
  then show ?thesis
    using assms(2) read_loop_frames [OF ok, of "[]" "rd_err r"]
    by (subst r, subst PadRead_def)
      (cases "dropWhile (\<lambda>f. payload_of f = []) fs"; simp del: dropWhile_eq_Nil_conv)
qed

interpretation pad_rd: buffered_reader recv_read recv_rest recv_ok
proof
  fix s n b s'
  assume ok: "recv_ok s" and rd: "recv_read n s = Some (b, s')"
  obtain ps r fs where s: "s = (ps, r, fs)" by (cases s)
  have "recv_rest s = b @ recv_rest s' \<and> recv_ok s' \<and> length b \<le> n"
  proof (cases "ps_readBuf ps = []")
    case False
    with ok rd show ?thesis by (auto simp: s recv_read_def PadRead_def recv_rest_def recv_ok_def)
  next
    case True
    have "concat (map payload_of fs) = concat (map payload_of (dropWhile (\<lambda>f. payload_of f = []) fs))"
      by (rule concat_payload_dropWhile [symmetric])
    moreover have "list_all frame_ok (dropWhile (\<lambda>f. payload_of f = []) fs)"
      using ok by (intro list_all_dropWhile) (simp add: s recv_ok_def)
    ultimately show ?thesis
      using rd PadRead_frames [OF ok [unfolded s] True, of n]
      by (auto simp: s recv_read_def recv_rest_def recv_ok_def True split: list.splits)
  qed
  then show "recv_rest s = b @ recv_rest s'" "recv_ok s'" "length b \<le> n" by simp_all
next
  fix s and n :: nat
  assume ok: "recv_ok s" and ne: "recv_rest s \<noteq> []" and n: "0 < n"
  obtain ps r fs where s: "s = (ps, r, fs)" by (cases s)
  show "\<exists>b s'. recv_read n s = Some (b, s') \<and> b \<noteq> []"
  proof (cases "ps_readBuf ps = []")
    case False
    with n show ?thesis by (simp add: s recv_read_def PadRead_def)
  next
    case True
    with ne have "concat (map payload_of (dropWhile (\<lambda>f. payload_of f = []) fs)) \<noteq> []"
      by (simp add: s recv_rest_def concat_payload_dropWhile)
    then obtain f fs' where d: "dropWhile (\<lambda>f. payload_of f = []) fs = f # fs'"
      by (cases "dropWhile (\<lambda>f. payload_of f = []) fs") auto
    then have "payload_of f \<noteq> []" by (metis (mono_tags, lifting) hd_dropWhile list.discI list.sel(1))
    with n d show ?thesis
      using PadRead_frames [OF ok [unfolded s] True, of n] by (simp add: s recv_read_def)
  qed
qed

text \<open>What the writer puts on the wire, as frames.\<close>

definition write_frames :: "bytes \<Rightarrow> pad_rand \<Rightarrow> padded_stream \<Rightarrow> pad_frame list" where
  "write_frames p rnd ps =
     (if ps_burstDone ps then [] else burst_frames rnd) @
     [if pad_len ps (pr_pad rnd) = 0 then FrameNone p
      else FramePad (rand_read (nat (pad_len ps (pr_pad rnd))) (pr_src rnd)) p]"

lemma length_rand_read [simp]: "length (rand_read n src) = n"
  by (simp add: rand_read_def)

lemma intn_less: "0 < n \<Longrightarrow> intn n r < n"
  by (simp add: intn_def)

lemma burst_frames_ok: "list_all frame_ok (burst_frames rnd)"
proof -
  have "intn 961 r < 65472" for r using intn_less [of 961 r] by simp
  then show ?thesis by (auto simp: burst_frames_def Let_def list_all_iff)
qed

lemma burst_payload [simp]: "concat (map payload_of (burst_frames rnd)) = []"
  by (simp add: burst_frames_def Let_def comp_def)

lemma pad_len_range:
  assumes "0 \<le> ps_minPad ps" and "ps_minPad ps < 65536" and "ps_maxPad ps \<le> 65536"
  shows "0 \<le> pad_len ps r \<and> pad_len ps r < 65536"
  using assms intn_less [of "nat (ps_maxPad ps - ps_minPad ps)" r] by (auto simp: pad_len_def)

lemma PadWrite_frames:
  assumes "0 \<le> pad_len ps (pr_pad rnd)" and "sk_err sk = None"
  shows "PadWrite p rnd ps sk =
    (Inr (length p), ps\<lparr>ps_burstDone := True\<rparr>,
     sk\<lparr>sk_out := sk_out sk @ concat (map enc_frame (write_frames p rnd ps))\<rparr>)"
proof -
  have "pad_len (ps\<lparr>ps_burstDone := True\<rparr>) (pr_pad rnd) = pad_len ps (pr_pad rnd)" by (simp add: pad_len_def)
  then show ?thesis
    using assms by (simp add: PadWrite_def write_frames_def sendPaddingBurst_def sink_write_def Let_def)
qed

text \<open>A sequence of calls on the writing side.\<close>

datatype pad_op = OpWrite bytes pad_rand | OpDecoy int pad_rand | OpBurstEnd

fun pad_step :: "pad_op \<Rightarrow> padded_stream \<times> sink \<Rightarrow> padded_stream \<times> sink" where
  "pad_step (OpWrite p rnd) (ps, sk) = snd (PadWrite p rnd ps sk)"
| "pad_step (OpDecoy n rnd) (ps, sk) = (ps, snd (WriteDecoy n rnd sk))"
| "pad_step OpBurstEnd (ps, sk) = (ps, snd (WriteBurstEnd sk))"

fun op_ok :: "pad_op \<Rightarrow> bool" where
  "op_ok (OpWrite p _) \<longleftrightarrow> length p < 65536"
| "op_ok (OpDecoy n _) \<longleftrightarrow> n < 65536"
| "op_ok OpBurstEnd \<longleftrightarrow> True"

fun op_payload :: "pad_op \<Rightarrow> bytes" where
  "op_payload (OpWrite p _) = p"
| "op_payload _ = []"

definition range_ok :: "padded_stream \<Rightarrow> bool" where
  "range_ok ps \<longleftrightarrow> 0 \<le> ps_minPad ps \<and> ps_minPad ps < 65536 \<and> ps_maxPad ps \<le> 65536"

lemma pad_step_frames:
  assumes "op_ok op" and "range_ok ps" and "sk_err sk = None"
  obtains fs ps' where "pad_step op (ps, sk) = (ps', sk\<lparr>sk_out := sk_out sk @ concat (map enc_frame fs)\<rparr>)"
    "list_all frame_ok fs" "concat (map payload_of fs) = op_payload op" "range_ok ps'"
proof (cases op)
  case (OpWrite p rnd)
  have rng: "0 \<le> pad_len ps (pr_pad rnd)" "pad_len ps (pr_pad rnd) < 65536"
    using pad_len_range [of ps "pr_pad rnd"] assms(2) by (auto simp: range_ok_def)
  show thesis
  proof (rule that)
    show "pad_step op (ps, sk) = (ps\<lparr>ps_burstDone := True\<rparr>,
        sk\<lparr>sk_out := sk_out sk @ concat (map enc_frame (write_frames p rnd ps))\<rparr>)"
      using rng assms(3) by (simp add: OpWrite PadWrite_frames)
    show "list_all frame_ok (write_frames p rnd ps)"
      using assms(1) rng burst_frames_ok by (auto simp: OpWrite write_frames_def)
    show "concat (map payload_of (write_frames p rnd ps)) = op_payload op"
      by (simp add: OpWrite write_frames_def del: concat_eq_Nil_conv)
  qed (use assms in \<open>auto simp: OpWrite range_ok_def\<close>)
next
  case (OpDecoy n rnd)
  have "intn 961 (pr_pad rnd) < 961" by (simp add: intn_less)
  then show thesis
    using assms OpDecoy
    by (intro that [of ps "[FrameDecoy (rand_read (if n \<le> 0 then 64 + intn 961 (pr_pad rnd) else nat n) (pr_src rnd))]"])
      (auto simp: WriteDecoy_def sink_write_def Let_def)
next
  case OpBurstEnd
  then show thesis
    using assms by (intro that [of ps "[FrameBurstEnd]"]) (auto simp: WriteBurstEnd_def sink_write_def)
qed

lemma pad_run_frames:
  assumes "list_all op_ok ops" and "range_ok ps" and "sk_err sk = None"
  shows "\<exists>fs. sk_out (snd (fold pad_step ops (ps, sk))) = sk_out sk @ concat (map enc_frame fs) \<and>
              list_all frame_ok fs \<and> concat (map payload_of fs) = concat (map op_payload ops)"
  using assms
proof (induction ops arbitrary: ps sk)
  case Nil
  show ?case by (rule exI [of _ "[]"]) simp
next
  case (Cons op ops)
  obtain fs ps' where step: "pad_step op (ps, sk) = (ps', sk\<lparr>sk_out := sk_out sk @ concat (map enc_frame fs)\<rparr>)"
    and fs: "list_all frame_ok fs" "concat (map payload_of fs) = op_payload op" and ps': "range_ok ps'"
    by (rule pad_step_frames [of op ps sk]) (use Cons.prems in auto)
  obtain gs where "sk_out (snd (fold pad_step ops (ps', sk\<lparr>sk_out := sk_out sk @ concat (map enc_frame fs)\<rparr>))) =
      sk_out sk @ concat (map enc_frame fs) @ concat (map enc_frame gs)"
    "list_all frame_ok gs" "concat (map payload_of gs) = concat (map op_payload ops)"
    using Cons.IH [of ps' "sk\<lparr>sk_out := sk_out sk @ concat (map enc_frame fs)\<rparr>"] Cons.prems ps' by auto
  then show ?case using step fs by (intro exI [of _ "fs @ gs"]) simp
qed

section \<open>Properties\<close>

text \<open>\<^verbatim>\<open>io.ReadFull\<close> on the receiving padded stream.\<close>

definition pad_read :: "nat \<Rightarrow> padded_stream \<times> reader \<Rightarrow> (bytes \<times> padded_stream \<times> reader) option" where
  "pad_read n s =
     (case PadRead n (fst s) (snd s) of (Inl _, _) \<Rightarrow> None | (Inr b, s') \<Rightarrow> Some (b, s'))"

definition rnd0 :: pad_rand where
  "rnd0 = \<lparr>pr_count = 0, pr_sizes = (\<lambda>_. 0), pr_fills = (\<lambda>_ _. 0), pr_pad = 5, pr_src = (\<lambda>_. 0)\<rparr>"

definition read_all :: "nat \<Rightarrow> padded_stream \<times> reader \<Rightarrow> (bytes \<times> padded_stream \<times> reader) option" where
  "read_all n s = full_loop pad_read n n s"

lemma pad_read_recv:
  "pad_read n (fst s, fst (snd s)) = map_option (\<lambda>(b, s'). (b, fst s', fst (snd s'))) (recv_read n s)"
  by (cases s) (auto simp: pad_read_def recv_read_def split: prod.splits sum.splits)



text \<open>
  a write of 65536 bytes or more is reported as written in full, but the length on the
  wire wraps. The peer takes only the bytes beyond the multiple of 65536 as the payload and
  reads the next payload byte as the flags of a new frame: the rest of the write is not
  delivered as data. The relay copies with buffers of 128 KB, so such writes happen.
\<close>

lemma PadWrite_length_wraps:
  assumes "length p = 65536 + k" and "k < 65536"
    and "ps_burstDone ps" and "ps_maxPad ps = 0" and "ps_minPad ps = 0"
  shows "fst (PadWrite p rnd ps \<lparr>sk_out = [], sk_err = None\<rparr>) = Inr (length p) \<and>
         read_frame \<lparr>rd_data = sk_out (snd (snd (PadWrite p rnd ps \<lparr>sk_out = [], sk_err = None\<rparr>))), rd_err = e\<rparr> =
           (Inr (if k = 0 then None else Some (take k p)), \<lparr>rd_data = drop k p, rd_err = e\<rparr>)"
proof -
  have pl: "pad_len ps r = 0" for r using assms(4,5) by (simp add: pad_len_def)
  have w: "PadWrite p rnd ps \<lparr>sk_out = [], sk_err = None\<rparr> =
      (Inr (length p), ps\<lparr>ps_burstDone := True\<rparr>, \<lparr>sk_out = enc_frame (FrameNone p), sk_err = None\<rparr>)"
    using PadWrite_frames [of ps rnd "\<lparr>sk_out = [], sk_err = None\<rparr>" p] pl assms(3)
    by (simp add: write_frames_def)
  have len: "unat (u16_len (length p)) = k" "k \<le> length p" using assms(1,2) by (simp_all add: unat_u16_len)
  then have "dec_block (put_u16 (u16_len (length p)) @ p) = Some (take k p, drop k p)"
    by (simp add: dec_block_def take_exact_def)
  then have "dec_frame (enc_frame (FrameNone p)) = Some (FrameNone (take k p), drop k p)" by simp
  from read_frame_dec [OF this, of e] show ?thesis
    unfolding w using assms(1) by (cases "k = 0") auto
qed

end
