(* ===== verification/Reliable_RTP.thy ===== *)
theory Reliable_RTP
  imports Go_Prelude "HOL-Library.Sublist"
begin

text \<open>
  The reliable layer over RTP of \<^verbatim>\<open>golib/webrtc/media_reliable.go\<close>: 16-bit sequence numbers,
  acknowledgements, retransmission with exponential back-off and a receive buffer of at most
  256 frames. Each operation is one function on the state; the goroutines become the steps
  of a relation that interleaves two ends over a network which may lose, duplicate and
  reorder packets. The lemmas show what is delivered in order, the bound on the buffer, and
  what happens when the buffer fills up.
\<close>

section \<open>Operations\<close>

definition reliableFlagData :: byte where "reliableFlagData = 0"
definition reliableFlagAck :: byte where "reliableFlagAck = 1"
definition reliableFlagRetransmit :: byte where "reliableFlagRetransmit = 2"

lemmas reliable_flag_defs = reliableFlagData_def reliableFlagAck_def reliableFlagRetransmit_def

definition reliableHeaderSize :: nat where "reliableHeaderSize = 3"
definition reliableMaxRetries :: nat where "reliableMaxRetries = 10"
definition reliableWindowSize :: nat where "reliableWindowSize = 256"

text \<open>Durations are in nanoseconds; this is 100 ms.\<close>

definition reliableRTOInit :: duration where "reliableRTOInit = 100000000"

record reliable_frame =
  fr_data :: bytes
  fr_sentAt :: instant
  fr_retries :: nat

record reliable_rtp =
  rr_writeSeq :: u16
  rr_unacked :: "u16 \<Rightarrow> reliable_frame option"
  rr_readSeq :: u16
  rr_readBuf :: "u16 \<Rightarrow> bytes option"
  rr_readPending :: bytes
  rr_done :: bool

definition newReliableRTP :: reliable_rtp where
  "newReliableRTP =
     \<lparr>rr_writeSeq = 0, rr_unacked = Map.empty, rr_readSeq = 0, rr_readBuf = Map.empty,
      rr_readPending = [], rr_done = False\<rparr>"

definition rel_packet :: "u16 \<Rightarrow> byte \<Rightarrow> bytes \<Rightarrow> bytes" where
  "rel_packet seq flags p = put_u16 seq @ [flags] @ p"

text \<open>
  \<^verbatim>\<open>Write\<close>: the result, the state after it and the frame handed to the inner stream, whose
  answer is the argument \<open>werr\<close>. The frame is recorded as unacknowledged before it is sent.
\<close>

definition rel_write ::
    "bytes \<Rightarrow> instant \<Rightarrow> io_error option \<Rightarrow> reliable_rtp \<Rightarrow> (io_error + nat) \<times> reliable_rtp \<times> bytes" where
  "rel_write p now werr r =
     (let seq = rr_writeSeq r;
          frame = rel_packet seq reliableFlagData p;
          r' = r\<lparr>rr_writeSeq := seq + 1,
                 rr_unacked := (rr_unacked r)(seq \<mapsto> \<lparr>fr_data = frame, fr_sentAt = now, fr_retries = 0\<rparr>)\<rparr>
      in (case werr of Some e \<Rightarrow> Inl e | None \<Rightarrow> Inr (length p), r', frame))"

text \<open>\<^verbatim>\<open>Read\<close> with a buffer of \<open>n\<close> bytes; \<open>None\<close> is waiting on the condition variable.\<close>

definition rel_read :: "nat \<Rightarrow> reliable_rtp \<Rightarrow> (io_error + bytes) option \<times> reliable_rtp" where
  "rel_read n r =
     (if 0 < length (rr_readPending r)
      then (Some (Inr (take n (rr_readPending r))), r\<lparr>rr_readPending := drop n (rr_readPending r)\<rparr>)
      else if rr_done r then (Some (Inl EOF), r)
      else case rr_readBuf r (rr_readSeq r) of
             None \<Rightarrow> (None, r)
           | Some data \<Rightarrow>
               let r' = r\<lparr>rr_readBuf := (rr_readBuf r)(rr_readSeq r := None), rr_readSeq := rr_readSeq r + 1\<rparr>
               in (Some (Inr (take n data)),
                   if n < length data then r'\<lparr>rr_readPending := drop n data\<rparr> else r'))"

definition rel_close :: "reliable_rtp \<Rightarrow> reliable_rtp" where
  "rel_close r = r\<lparr>rr_done := True\<rparr>"

definition sendAck :: "u16 \<Rightarrow> bytes" where
  "sendAck seq = rel_packet seq reliableFlagAck []"

text \<open>
  One packet in \<^verbatim>\<open>receiveLoop\<close>: the state after it and the acknowledgement sent, if any. The
  number of buffered frames is the size of the map's domain.
\<close>

definition rel_receive :: "bytes \<Rightarrow> reliable_rtp \<Rightarrow> reliable_rtp \<times> bytes option" where
  "rel_receive pkt r =
     (if rr_done r then (r, None)
      else if length pkt < reliableHeaderSize then (r, None)
      else let seq = be16 (take 2 pkt); flags = pkt ! 2
           in if flags = reliableFlagData \<or> flags = reliableFlagRetransmit then
                let payload = drop 3 pkt;
                    r' = (if card (dom (rr_readBuf r)) < reliableWindowSize
                          then r\<lparr>rr_readBuf := (rr_readBuf r)(seq \<mapsto> payload)\<rparr> else r)
                in (r', Some (sendAck seq))
              else if flags = reliableFlagAck then
                (r\<lparr>rr_unacked := (rr_unacked r)(seq := None)\<rparr>, None)
              else (r, None))"

text \<open>
  One tick of \<^verbatim>\<open>retransmitLoop\<close>. The loop treats every unacknowledged frame on its own, in no
  particular order: \<open>retransmit_frame\<close> is its body, giving the frame kept (if it is) and the
  packet sent again (if it is).
\<close>

definition retransmit_frame :: "instant \<Rightarrow> reliable_frame \<Rightarrow> reliable_frame option \<times> bytes option" where
  "retransmit_frame now fr =
     (if reliableRTOInit * 2 ^ fr_retries fr < now - fr_sentAt fr then
        if reliableMaxRetries \<le> fr_retries fr then (None, None)
        else (Some (fr\<lparr>fr_retries := fr_retries fr + 1, fr_sentAt := now\<rparr>),
              Some ((fr_data fr)[2 := reliableFlagRetransmit]))
      else (Some fr, None))"

definition rel_tick :: "instant \<Rightarrow> reliable_rtp \<Rightarrow> reliable_rtp" where
  "rel_tick now r =
     r\<lparr>rr_unacked := (\<lambda>seq. Option.bind (rr_unacked r seq) (\<lambda>fr. fst (retransmit_frame now fr)))\<rparr>"

definition rel_tick_sent :: "instant \<Rightarrow> reliable_rtp \<Rightarrow> bytes set" where
  "rel_tick_sent now r =
     {pkt. \<exists>seq fr. rr_unacked r seq = Some fr \<and> snd (retransmit_frame now fr) = Some pkt}"

section \<open>Two ends and a network\<close>

text \<open>
  One direction of a connection. The network keeps every packet handed to it: delivering one
  does not remove it, so it can be delivered again, late, or never. The last two fields
  record the writes made and the bytes returned by the reads.
\<close>

record rel_net =
  nt_snd :: reliable_rtp
  nt_rcv :: reliable_rtp
  nt_fwd :: "bytes set"
  nt_bwd :: "bytes set"
  nt_written :: "bytes list"
  nt_read :: bytes

definition rel_net0 :: rel_net where
  "rel_net0 =
     \<lparr>nt_snd = newReliableRTP, nt_rcv = newReliableRTP, nt_fwd = {}, nt_bwd = {}, nt_written = [], nt_read = []\<rparr>"

inductive rel_step :: "rel_net \<Rightarrow> rel_net \<Rightarrow> bool" where
  rs_write: "rel_write p now werr (nt_snd s) = (res, snd', frame) \<Longrightarrow>
    rel_step s (s\<lparr>nt_snd := snd', nt_fwd := insert frame (nt_fwd s), nt_written := nt_written s @ [p]\<rparr>)"
| rs_tick: "rel_step s (s\<lparr>nt_snd := rel_tick now (nt_snd s), nt_fwd := nt_fwd s \<union> rel_tick_sent now (nt_snd s)\<rparr>)"
| rs_deliver: "pkt \<in> nt_fwd s \<Longrightarrow> rel_receive pkt (nt_rcv s) = (rcv', ack) \<Longrightarrow>
    rel_step s (s\<lparr>nt_rcv := rcv', nt_bwd := nt_bwd s \<union> set_option ack\<rparr>)"
| rs_deliver_ack: "pkt \<in> nt_bwd s \<Longrightarrow> rel_receive pkt (nt_snd s) = (snd', ack) \<Longrightarrow>
    rel_step s (s\<lparr>nt_snd := snd'\<rparr>)"
| rs_read: "rel_read n (nt_rcv s) = (Some (Inr b), rcv') \<Longrightarrow>
    rel_step s (s\<lparr>nt_rcv := rcv', nt_read := nt_read s @ b\<rparr>)"
| rs_close: "rel_step s (s\<lparr>nt_rcv := rel_close (nt_rcv s)\<rparr>)"

inductive rel_reachable :: "rel_net \<Rightarrow> bool" where
  rr_init: "rel_reachable rel_net0"
| rr_step: "rel_reachable s \<Longrightarrow> rel_step s s' \<Longrightarrow> rel_reachable s'"

section \<open>Invariants\<close>

lemma rel_packet_simps [simp]:
  "take 2 (rel_packet seq f p) = put_u16 seq" "rel_packet seq f p ! 2 = f" "drop 3 (rel_packet seq f p) = p"
  "length (rel_packet seq f p) = 3 + length p" "(rel_packet seq f p)[2 := g] = rel_packet seq g p"
  by (simp_all add: rel_packet_def nth_append list_update_append)

text \<open>The packets, the buffered frames and the frames kept for retransmission all carry a write.\<close>

definition carries :: "bytes list \<Rightarrow> u16 \<Rightarrow> bytes \<Rightarrow> bool" where
  "carries ws seq p \<longleftrightarrow> (\<exists>i < length ws. seq = of_nat i \<and> p = ws ! i)"

definition snd_inv :: "bytes list \<Rightarrow> bytes set \<Rightarrow> reliable_rtp \<Rightarrow> bool" where
  "snd_inv ws fwd r \<longleftrightarrow>
     rr_writeSeq r = of_nat (length ws) \<and>
     (\<forall>pkt \<in> fwd. \<exists>seq p f. pkt = rel_packet seq f p \<and> carries ws seq p) \<and>
     (\<forall>seq fr. rr_unacked r seq = Some fr \<longrightarrow> (\<exists>p f. fr_data fr = rel_packet seq f p \<and> carries ws seq p))"

definition rcv_inv :: "bytes list \<Rightarrow> bytes \<Rightarrow> reliable_rtp \<Rightarrow> bool" where
  "rcv_inv ws rd r \<longleftrightarrow>
     (\<forall>seq p. rr_readBuf r seq = Some p \<longrightarrow> carries ws seq p) \<and>
     (\<exists>k \<le> length ws. rr_readSeq r = of_nat k \<and> rd @ rr_readPending r = concat (take k ws))"

lemma carries_mono: "carries ws seq p \<Longrightarrow> carries (ws @ xs) seq p"
  unfolding carries_def by (metis nth_append length_append trans_less_add1)

lemma carries_last: "carries (ws @ [p]) (of_nat (length ws)) p"
  unfolding carries_def by (rule exI [of _ "length ws"]) simp

lemma u16_of_nat_inj: "i < 65536 \<Longrightarrow> k < 65536 \<Longrightarrow> (of_nat i :: u16) = of_nat k \<Longrightarrow> i = k"
  by (metis unat_u16_len_small u16_len_def)

lemma carries_unique: "length ws < 65536 \<Longrightarrow> k \<le> length ws \<Longrightarrow> carries ws (of_nat k) p \<Longrightarrow> k < length ws \<and> p = ws ! k"
  by (auto simp: carries_def dest!: u16_of_nat_inj [rotated 2])

lemma snd_inv_write:
  assumes "snd_inv ws fwd r" and "rel_write p now werr r = (res, r', frame)"
  shows "snd_inv (ws @ [p]) (insert frame fwd) r'"
proof -
  have fr: "frame = rel_packet (of_nat (length ws)) reliableFlagData p"
    and r': "rr_writeSeq r' = of_nat (length (ws @ [p]))"
      "rr_unacked r' = (rr_unacked r)(of_nat (length ws) \<mapsto> \<lparr>fr_data = frame, fr_sentAt = now, fr_retries = 0\<rparr>)"
    using assms by (auto simp: snd_inv_def rel_write_def Let_def)
  have old: "\<exists>p' f. fr_data fr = rel_packet seq f p' \<and> carries (ws @ [p]) seq p'" if "rr_unacked r seq = Some fr" for seq fr
    using assms(1) that by (meson snd_inv_def carries_mono)
  have fwd: "\<exists>seq p' f. pkt = rel_packet seq f p' \<and> carries (ws @ [p]) seq p'" if "pkt \<in> fwd" for pkt
    using assms(1) that by (meson snd_inv_def carries_mono)
  show ?thesis
    unfolding snd_inv_def r' using old fwd carries_last [of ws p] fr by auto
qed

lemma retransmit_frame_cases:
  "fst (retransmit_frame now fr) = Some fr' \<Longrightarrow> fr_data fr' = fr_data fr"
  "snd (retransmit_frame now fr) = Some pkt \<Longrightarrow> pkt = (fr_data fr)[2 := reliableFlagRetransmit]"
  by (auto simp: retransmit_frame_def split: if_splits)

lemma snd_inv_tick:
  assumes "snd_inv ws fwd r"
  shows "snd_inv ws (fwd \<union> rel_tick_sent now r) (rel_tick now r)"
proof -
  have un: "\<exists>p f. fr_data fr = rel_packet seq f p \<and> carries ws seq p" if "rr_unacked r seq = Some fr" for seq fr
    using assms that by (simp add: snd_inv_def)
  have "\<exists>seq p f. pkt = rel_packet seq f p \<and> carries ws seq p" if sent: "pkt \<in> rel_tick_sent now r" for pkt
  proof -
    obtain seq fr where fr: "rr_unacked r seq = Some fr" and "snd (retransmit_frame now fr) = Some pkt"
      using sent by (auto simp: rel_tick_sent_def)
    then have "pkt = (fr_data fr)[2 := reliableFlagRetransmit]" by (simp add: retransmit_frame_cases(2))
    with un [OF fr] show ?thesis by (metis rel_packet_simps(5))
  qed
  moreover have "\<exists>p f. fr_data fr = rel_packet seq f p \<and> carries ws seq p"
    if "rr_unacked (rel_tick now r) seq = Some fr" for seq fr
    using that un by (auto simp: rel_tick_def bind_eq_Some_conv retransmit_frame_cases(1))
  ultimately show ?thesis
    using assms unfolding snd_inv_def rel_tick_def by auto
qed

lemma snd_inv_receive: "snd_inv ws fwd r \<Longrightarrow> snd_inv ws fwd (fst (rel_receive pkt r))"
  by (auto simp: snd_inv_def rel_receive_def Let_def)

lemma rcv_inv_mono: "rcv_inv ws rd r \<Longrightarrow> rcv_inv (ws @ [p]) rd r"
proof -
  assume inv: "rcv_inv ws rd r"
  then obtain k where "k \<le> length ws" "rr_readSeq r = of_nat k" "rd @ rr_readPending r = concat (take k ws)"
    by (auto simp: rcv_inv_def)
  with inv show ?thesis
    unfolding rcv_inv_def by (auto intro: carries_mono intro!: exI [of _ k])
qed

lemma rcv_inv_receive:
  "rcv_inv ws rd r \<Longrightarrow> carries ws seq p \<Longrightarrow> rcv_inv ws rd (fst (rel_receive (rel_packet seq f p) r))"
  by (auto simp: rcv_inv_def rel_receive_def Let_def)

lemma rcv_inv_read:
  assumes inv: "rcv_inv ws rd r" and len: "length ws < 65536" and rd: "rel_read n r = (Some (Inr b), r')"
  shows "rcv_inv ws (rd @ b) r'"
proof (cases "rr_readPending r = []")
  case False
  with inv rd show ?thesis by (auto simp: rcv_inv_def rel_read_def)
next
  case True
  obtain k where k: "k \<le> length ws" "rr_readSeq r = of_nat k" "rd = concat (take k ws)"
    using inv True by (auto simp: rcv_inv_def)
  obtain data where data: "rr_readBuf r (of_nat k) = Some data" and b: "b = take n data"
    and r': "r' = r\<lparr>rr_readBuf := (rr_readBuf r)(of_nat k := None), rr_readSeq := of_nat k + 1, rr_readPending := drop n data\<rparr>"
    using rd True k(2) by (auto simp: rel_read_def Let_def split: option.splits if_splits)
  have "carries ws (of_nat k) data" using inv data by (simp add: rcv_inv_def)
  from carries_unique [OF len k(1) this] have k': "k < length ws" "data = ws ! k" by simp_all
  have "rd @ b @ drop n data = concat (take (Suc k) ws)"
    using k' by (simp add: k(3) b take_Suc_conv_app_nth)
  moreover have "carries ws seq p" if "((rr_readBuf r)(of_nat k := None)) seq = Some p" for seq p
    using inv that by (auto simp: rcv_inv_def split: if_splits)
  ultimately show ?thesis
    unfolding rcv_inv_def r' using k'(1) by (auto intro!: exI [of _ "Suc k"] simp: add.commute split: if_splits)
qed

lemma rel_reachable_inv:
  assumes "rel_reachable s" and "length (nt_written s) < 65536"
  shows "snd_inv (nt_written s) (nt_fwd s) (nt_snd s) \<and> rcv_inv (nt_written s) (nt_read s) (nt_rcv s)"
  using assms
proof (induction rule: rel_reachable.induct)
  case rr_init
  then show ?case by (simp add: rel_net0_def newReliableRTP_def snd_inv_def rcv_inv_def)
next
  case (rr_step s s')
  from rr_step.hyps(2) rr_step.prems have len: "length (nt_written s) < 65536"
    by (cases rule: rel_step.cases) simp_all
  note inv = rr_step.IH [OF len]
  from rr_step.hyps(2) show ?case
  proof (cases rule: rel_step.cases)
    case (rs_write p now werr res snd' frame)
    then show ?thesis using inv snd_inv_write rcv_inv_mono by auto
  next
    case (rs_tick now)
    then show ?thesis using inv snd_inv_tick by auto
  next
    case (rs_deliver pkt rcv' ack)
    moreover obtain seq p f where "pkt = rel_packet seq f p" "carries (nt_written s) seq p"
      using inv rs_deliver(2) by (meson snd_inv_def)
    ultimately show ?thesis
      using inv rcv_inv_receive [of "nt_written s" "nt_read s" "nt_rcv s" seq p f] by simp
  next
    case (rs_deliver_ack pkt snd' ack)
    then show ?thesis using inv snd_inv_receive [of "nt_written s" "nt_fwd s" "nt_snd s" pkt] by simp
  next
    case (rs_read n b rcv')
    then show ?thesis using inv rcv_inv_read [OF _ len] by auto
  next
    case rs_close
    then show ?thesis using inv by (simp add: rcv_inv_def rel_close_def)
  qed
qed

section \<open>The receive window\<close>

lemma finite_dom_u16 [simp]: "finite (dom (m :: u16 \<Rightarrow> 'a option))"
  by (rule finite_subset [of _ UNIV]) simp_all

lemma card_dom_upd_le: "card (dom (m(k \<mapsto> v))) \<le> Suc (card (dom (m :: u16 \<Rightarrow> 'a option)))"
  by (simp add: card_insert_if)

lemma card_dom_del_le: "card (dom (m(k := None))) \<le> card (dom (m :: u16 \<Rightarrow> 'a option))"
  by (simp add: card_Diff1_le)

lemma window_receive:
  "card (dom (rr_readBuf r)) \<le> 256 \<Longrightarrow> card (dom (rr_readBuf (fst (rel_receive pkt r)))) \<le> 256"
  using card_dom_upd_le [of "rr_readBuf r" "be16 (take 2 pkt)" "drop 3 pkt"]
  by (simp add: rel_receive_def Let_def reliableWindowSize_def del: dom_fun_upd)

lemma window_read:
  "card (dom (rr_readBuf (snd (rel_read n r)))) \<le> card (dom (rr_readBuf r))"
  using card_dom_del_le [of "rr_readBuf r" "rr_readSeq r"]
  by (auto simp: rel_read_def Let_def simp del: dom_fun_upd split: option.splits)

text \<open>With the window full, nothing that arrives changes what the reader sees.\<close>

lemma full_receive:
  assumes "256 \<le> card (dom (rr_readBuf r))"
  shows "rr_readBuf (fst (rel_receive pkt r)) = rr_readBuf r"
    and "rr_readSeq (fst (rel_receive pkt r)) = rr_readSeq r"
    and "rr_readPending (fst (rel_receive pkt r)) = rr_readPending r"
    and "rr_done (fst (rel_receive pkt r)) = rr_done r"
  using assms by (auto simp: rel_receive_def Let_def reliableWindowSize_def)

definition receive_all :: "bytes list \<Rightarrow> reliable_rtp \<Rightarrow> reliable_rtp" where
  "receive_all pkts r = fold (\<lambda>pkt r. fst (rel_receive pkt r)) pkts r"

lemma full_receive_all:
  assumes "256 \<le> card (dom (rr_readBuf r))"
  shows "rr_readBuf (receive_all pkts r) = rr_readBuf r \<and> rr_readSeq (receive_all pkts r) = rr_readSeq r \<and>
         rr_readPending (receive_all pkts r) = rr_readPending r \<and> rr_done (receive_all pkts r) = rr_done r"
  using assms
proof (induction pkts arbitrary: r)
  case (Cons pkt pkts)
  from Cons.IH [of "fst (rel_receive pkt r)"] Cons.prems show ?case
    by (simp add: receive_all_def full_receive)
qed (simp add: receive_all_def)

text \<open>The frames 1 to \<open>m\<close> arrive while frame 0 is missing.\<close>

definition gap_frames :: "nat \<Rightarrow> (nat \<Rightarrow> bytes) \<Rightarrow> bytes list" where
  "gap_frames m ps = map (\<lambda>i. rel_packet (of_nat i) reliableFlagData (ps i)) [1..<Suc m]"

lemma card_u16_range: "m < 65536 \<Longrightarrow> card {seq :: u16. 1 \<le> unat seq \<and> unat seq \<le> m} = m"
proof -
  assume m: "m < 65536"
  have "{seq :: u16. 1 \<le> unat seq \<and> unat seq \<le> m} = of_nat ` {1..m}"
  proof (intro set_eqI iffI)
    fix seq :: u16
    assume "seq \<in> {seq. 1 \<le> unat seq \<and> unat seq \<le> m}"
    then show "seq \<in> of_nat ` {1..m}" by (intro image_eqI [of _ _ "unat seq"]) auto
  next
    fix seq :: u16
    assume "seq \<in> of_nat ` {1..m}"
    then show "seq \<in> {seq. 1 \<le> unat seq \<and> unat seq \<le> m}" using m by (auto simp: unat_of_nat)
  qed
  moreover have "inj_on (of_nat :: nat \<Rightarrow> u16) {1..m}"
    using m by (intro inj_onI) (auto intro: u16_of_nat_inj)
  ultimately show ?thesis by (simp add: card_image)
qed

lemma receive_gap:
  assumes "m \<le> 256"
  shows "receive_all (gap_frames m ps) newReliableRTP =
           newReliableRTP\<lparr>rr_readBuf := (\<lambda>seq. if 1 \<le> unat seq \<and> unat seq \<le> m then Some (ps (unat seq)) else None)\<rparr>"
  using assms
proof (induction m)
  case 0
  show ?case by (auto simp: receive_all_def gap_frames_def newReliableRTP_def fun_eq_iff)
next
  case (Suc m)
  let ?buf = "\<lambda>m seq. if 1 \<le> unat (seq :: u16) \<and> unat seq \<le> m then Some (ps (unat seq)) else None"
  have eq: "receive_all (gap_frames (Suc m) ps) newReliableRTP =
      fst (rel_receive (rel_packet (of_nat (Suc m)) reliableFlagData (ps (Suc m))) (receive_all (gap_frames m ps) newReliableRTP))"
    by (simp add: receive_all_def gap_frames_def)
  have "dom (?buf m) = {seq. 1 \<le> unat seq \<and> unat seq \<le> m}" by (auto split: if_splits)
  then have card: "card (dom (?buf m)) = m" using Suc.prems card_u16_range [of m] by simp
  have upd: "(?buf m)(of_nat (Suc m) \<mapsto> ps (Suc m)) = ?buf (Suc m)"
  proof
    fix seq :: u16
    have u: "unat (of_nat (Suc m) :: u16) = Suc m" using Suc.prems by (simp add: unat_of_nat del: of_nat_Suc)
    then have "seq = of_nat (Suc m) \<longleftrightarrow> unat seq = Suc m" by (metis word_unat_eq_iff)
    then show "((?buf m)(of_nat (Suc m) \<mapsto> ps (Suc m))) seq = ?buf (Suc m) seq" using u by auto
  qed
  have IH: "receive_all (gap_frames m ps) newReliableRTP = newReliableRTP\<lparr>rr_readBuf := ?buf m\<rparr>"
    using Suc by simp
  show ?case
    unfolding eq IH using Suc.prems card upd
    by (simp add: rel_receive_def newReliableRTP_def reliableHeaderSize_def reliableWindowSize_def Let_def
        del: of_nat_Suc One_nat_def)
qed

section \<open>Properties\<close>

text \<open>
  C6: over a network that loses, duplicates and reorders packets at will, with retransmissions
  and acknowledgements at any time, as long as fewer than 65536 frames have been written the
  bytes read are a prefix of the bytes written: nothing is reordered, repeated or corrupted.
\<close>

theorem reliable_in_order:
  assumes "rel_reachable s" and "length (nt_written s) < 65536"
  shows "prefix (nt_read s) (concat (nt_written s))"
proof -
  from rel_reachable_inv [OF assms] obtain k where
    "nt_read s @ rr_readPending (nt_rcv s) = concat (take k (nt_written s))"
    by (auto simp: rcv_inv_def)
  moreover have "concat (nt_written s) = concat (take k (nt_written s)) @ concat (drop k (nt_written s))"
    by (metis append_take_drop_id concat_append)
  ultimately show ?thesis unfolding prefix_def by (metis append.assoc)
qed

text \<open>A run in which one frame is written and delivered.\<close>

definition demo_pkt :: "nat \<Rightarrow> bytes \<Rightarrow> bytes" where
  "demo_pkt i p = rel_packet (of_nat i) reliableFlagData p"

lemma step_deliver:
  "rel_reachable s \<Longrightarrow> pkt \<in> nt_fwd s \<Longrightarrow>
     rel_reachable (s\<lparr>nt_rcv := fst (rel_receive pkt (nt_rcv s)),
                      nt_bwd := nt_bwd s \<union> set_option (snd (rel_receive pkt (nt_rcv s)))\<rparr>)"
  by (rule rr_step) (auto intro!: rs_deliver)

lemma step_write:
  "rel_reachable s \<Longrightarrow>
     rel_reachable (s\<lparr>nt_snd := fst (snd (rel_write p 0 None (nt_snd s))),
                      nt_fwd := insert (snd (snd (rel_write p 0 None (nt_snd s)))) (nt_fwd s),
                      nt_written := nt_written s @ [p]\<rparr>)"
  using rs_write [of p 0 None s "fst (rel_write p 0 None (nt_snd s))"
      "fst (snd (rel_write p 0 None (nt_snd s)))" "snd (snd (rel_write p 0 None (nt_snd s)))"]
  by (simp add: rr_step)

lemma step_read:
  "rel_reachable s \<Longrightarrow> rel_read n (nt_rcv s) = (Some (Inr b), r') \<Longrightarrow>
     rel_reachable (s\<lparr>nt_rcv := r', nt_read := nt_read s @ b\<rparr>)"
  by (rule rr_step) (auto intro!: rs_read)

definition demo1 :: rel_net where
  "demo1 = (let s = rel_net0;
                s = s\<lparr>nt_snd := fst (snd (rel_write [1, 2] 0 None (nt_snd s))),
                      nt_fwd := insert (snd (snd (rel_write [1, 2] 0 None (nt_snd s)))) (nt_fwd s),
                      nt_written := nt_written s @ [[1, 2]]\<rparr>
            in s\<lparr>nt_rcv := fst (rel_receive (demo_pkt 0 [1, 2]) (nt_rcv s)),
                 nt_bwd := nt_bwd s \<union> set_option (snd (rel_receive (demo_pkt 0 [1, 2]) (nt_rcv s)))\<rparr>)"

lemma demo1_reachable: "rel_reachable demo1"
  unfolding demo1_def Let_def
  by (intro step_deliver step_write rr_init)
    (simp add: rel_net0_def newReliableRTP_def rel_write_def demo_pkt_def Let_def)

theorem reliable_in_order_witness:
  "\<exists>s. rel_reachable s \<and> length (nt_written s) < 65536 \<and> nt_read s = [1] \<and> nt_written s = [[1, 2]] \<and>
       prefix (nt_read s) (concat (nt_written s))"
proof -
  obtain r' where rd: "rel_read 1 (nt_rcv demo1) = (Some (Inr [1]), r')"
    by (simp add: demo1_def rel_net0_def newReliableRTP_def rel_receive_def rel_read_def demo_pkt_def
        reliableHeaderSize_def reliableWindowSize_def Let_def)
  let ?s = "demo1\<lparr>nt_rcv := r', nt_read := nt_read demo1 @ [1]\<rparr>"
  have r: "rel_reachable ?s" using step_read [OF demo1_reachable rd] .
  have w: "nt_written ?s = [[1, 2]]" "nt_read ?s = [1]"
    by (simp_all add: demo1_def rel_net0_def Let_def)
  then show ?thesis using reliable_in_order [OF r] r by (intro exI [of _ ?s]) simp
qed

text \<open>
  the receive buffer never holds more than 256 frames, whatever packets arrive and
  however reads are interleaved with them.
\<close>

lemma reliable_window_bound:
  assumes "rel_reachable s"
  shows "card (dom (rr_readBuf (nt_rcv s))) \<le> 256"
  using assms
proof (induction rule: rel_reachable.induct)
  case (rr_step s s')
  from rr_step.hyps(2) rr_step.IH show ?case
  proof (cases rule: rel_step.cases)
    case (rs_deliver pkt rcv' ack)
    then show ?thesis using window_receive [OF rr_step.IH, of pkt] by simp
  next
    case (rs_read n b rcv')
    then show ?thesis using window_read [of n "nt_rcv s"] rr_step.IH by simp
  qed (simp_all add: rel_close_def)
qed (simp add: rel_net0_def newReliableRTP_def)

text \<open>
  C39: the layer can stop for good. When the first frame is lost and the next 256 arrive, the
  window is full; the first frame is then refused when it is retransmitted but still
  acknowledged, the acknowledgement makes the sender forget it, and whatever packets arrive
  afterwards, a read waits for ever.
\<close>

theorem reliable_window_deadlock:
  "fst (rel_read n (receive_all (gap_frames 256 ps @ pkts) newReliableRTP)) = None \<and>
   snd (rel_receive (rel_packet 0 reliableFlagRetransmit p) (receive_all (gap_frames 256 ps @ pkts) newReliableRTP)) =
     Some (sendAck 0) \<and>
   rr_unacked (fst (rel_receive (sendAck 0) (snd0\<lparr>rr_done := False\<rparr>))) 0 = None"
proof -
  let ?buf = "\<lambda>seq :: u16. if 1 \<le> unat seq \<and> unat seq \<le> 256 then Some (ps (unat seq)) else None"
  let ?r = "receive_all (gap_frames 256 ps) newReliableRTP"
  have r: "?r = newReliableRTP\<lparr>rr_readBuf := ?buf\<rparr>" by (rule receive_gap) simp
  have "dom ?buf = {seq. 1 \<le> unat seq \<and> unat seq \<le> 256}" by (auto split: if_splits)
  then have "256 \<le> card (dom (rr_readBuf ?r))" using card_u16_range [of 256] by (simp add: r)
  from full_receive_all [OF this, of pkts]
  have "rr_readBuf (receive_all pkts ?r) = ?buf" "rr_readSeq (receive_all pkts ?r) = 0"
    "rr_readPending (receive_all pkts ?r) = []" "\<not> rr_done (receive_all pkts ?r)"
    unfolding r by (simp_all add: newReliableRTP_def)
  moreover have "receive_all (gap_frames 256 ps @ pkts) newReliableRTP = receive_all pkts ?r"
    by (simp add: receive_all_def)
  ultimately show ?thesis
    by (simp add: rel_read_def rel_receive_def reliableHeaderSize_def sendAck_def reliable_flag_defs Let_def
        del: One_nat_def)
qed

end
