(* ===== verification/Obfs.thy ===== *)
theory Obfs
  imports Replay_Filter
begin

text \<open>
  The encrypting packet connection of \<^verbatim>\<open>golib/webrtc/obfs.go\<close>: AES-256-GCM with one key per
  direction and a nonce of a random prefix and a counter. The cipher and the key derivation
  are arguments (a record of functions); what is proved of the packets relies only on their
  documented behaviour, stated as \<open>aead_ok\<close>. The reader's loop skips what it cannot use, and
  consults the replay filter when one is set.
\<close>

section \<open>The connection\<close>

definition nonceSize :: nat where "nonceSize = 12"
definition gcmTagSize :: nat where "gcmTagSize = 16"

text \<open>The cryptography: sealing, opening, and the 32 bytes read from HKDF for an info string.\<close>

record crypto =
  cr_seal :: "bytes \<Rightarrow> bytes \<Rightarrow> bytes \<Rightarrow> bytes"
  cr_open :: "bytes \<Rightarrow> bytes \<Rightarrow> bytes \<Rightarrow> bytes option"
  cr_hkdf :: "bytes \<Rightarrow> string \<Rightarrow> io_error + bytes"

datatype obfs_error =
    KeyLength nat
  | DeriveClientKey io_error
  | DeriveServerKey io_error
  | CreateClientAEAD
  | CreateServerAEAD
  | NoncePrefix io_error

text \<open>
  The keys stand for the two AEAD objects; the four random bytes of the nonce prefix are a
  32-bit number.
\<close>

record obfs_conn =
  oc_sendKey :: bytes
  oc_recvKey :: bytes
  oc_nonceCounter :: u64
  oc_noncePrefix :: u32
  oc_recvFilter :: "replay_filter option"
  oc_pktsSent :: u64
  oc_pktsRecv :: u64
  oc_decryptErrors :: u64
  oc_replayRejects :: u64
  oc_tooShort :: u64
  oc_isServer :: bool
  oc_done :: bool

text \<open>\<^verbatim>\<open>newGCM\<close> fails exactly when \<^verbatim>\<open>aes.NewCipher\<close> does, on the length of the key.\<close>

definition newGCM :: "bytes \<Rightarrow> bytes option" where
  "newGCM key = (if length key \<in> {16, 24, 32} then Some key else None)"

definition NewObfuscatedPacketConn ::
    "crypto \<Rightarrow> bytes \<Rightarrow> bool \<Rightarrow> io_error + u32 \<Rightarrow> obfs_error + obfs_conn" where
  "NewObfuscatedPacketConn cr key isServer prefix =
     (if length key \<noteq> 32 then Inl (KeyLength (length key))
      else case cr_hkdf cr key ''natproxy-client-to-server'' of
        Inl e \<Rightarrow> Inl (DeriveClientKey e)
      | Inr clientKey \<Rightarrow>
      (case cr_hkdf cr key ''natproxy-server-to-client'' of
        Inl e \<Rightarrow> Inl (DeriveServerKey e)
      | Inr serverKey \<Rightarrow>
      (case newGCM clientKey of
        None \<Rightarrow> Inl CreateClientAEAD
      | Some clientAEAD \<Rightarrow>
      (case newGCM serverKey of
        None \<Rightarrow> Inl CreateServerAEAD
      | Some serverAEAD \<Rightarrow>
      (case prefix of
        Inl e \<Rightarrow> Inl (NoncePrefix e)
      | Inr pfx \<Rightarrow>
          Inr \<lparr>oc_sendKey = (if isServer then serverAEAD else clientAEAD),
               oc_recvKey = (if isServer then clientAEAD else serverAEAD),
               oc_nonceCounter = 0, oc_noncePrefix = pfx, oc_recvFilter = None,
               oc_pktsSent = 0, oc_pktsRecv = 0, oc_decryptErrors = 0, oc_replayRejects = 0,
               oc_tooShort = 0, oc_isServer = isServer, oc_done = False\<rparr>)))))"

definition obfs_close :: "obfs_conn \<Rightarrow> obfs_conn" where
  "obfs_close c = c\<lparr>oc_done := True\<rparr>"

text \<open>
  \<^verbatim>\<open>WriteTo\<close>: the datagram handed to the inner connection, the result (\<open>werr\<close> is the inner
  connection's answer) and the connection after it.
\<close>

definition build_nonce :: "u32 \<Rightarrow> u64 \<Rightarrow> bytes" where
  "build_nonce pfx counter = put_u32 pfx @ put_u64 counter"

definition writeToGCM ::
    "crypto \<Rightarrow> bytes \<Rightarrow> io_error option \<Rightarrow> obfs_conn \<Rightarrow> bytes \<times> (io_error + nat) \<times> obfs_conn" where
  "writeToGCM cr p werr c =
     (let counter = oc_nonceCounter c + 1;
          nonce = build_nonce (oc_noncePrefix c) counter;
          buf = nonce @ cr_seal cr (oc_sendKey c) nonce p;
          c' = c\<lparr>oc_nonceCounter := counter, oc_pktsSent := oc_pktsSent c + 1\<rparr>
      in (buf, case werr of Some e \<Rightarrow> Inl e | None \<Rightarrow> Inr (length p), c'))"

text \<open>
  One turn of the read loop on a datagram already cut to the buffer: the plaintext when the
  packet is accepted.
\<close>

definition recv_packet :: "crypto \<Rightarrow> bytes \<Rightarrow> obfs_conn \<Rightarrow> bytes option \<times> obfs_conn" where
  "recv_packet cr pkt c =
     (if length pkt < nonceSize + gcmTagSize then (None, c\<lparr>oc_tooShort := oc_tooShort c + 1\<rparr>)
      else let nonce = take nonceSize pkt; ciphertext = drop nonceSize pkt
           in case cr_open cr (oc_recvKey c) nonce ciphertext of
                None \<Rightarrow> (None, c\<lparr>oc_decryptErrors := oc_decryptErrors c + 1\<rparr>)
              | Some plaintext \<Rightarrow>
                  (case oc_recvFilter c of
                     None \<Rightarrow> (Some plaintext, c\<lparr>oc_pktsRecv := oc_pktsRecv c + 1\<rparr>)
                   | Some rf \<Rightarrow>
                       (case Check (be64 (drop 4 nonce)) rf of
                          (True, rf') \<Rightarrow>
                            (Some plaintext, c\<lparr>oc_recvFilter := Some rf', oc_pktsRecv := oc_pktsRecv c + 1\<rparr>)
                        | (False, rf') \<Rightarrow>
                            (None, c\<lparr>oc_recvFilter := Some rf', oc_replayRejects := oc_replayRejects c + 1\<rparr>))))"

text \<open>
  \<^verbatim>\<open>ReadFrom\<close> with a buffer of \<open>n\<close> bytes over the datagrams to come; when they are used up the
  inner connection returns its error. The inner read cuts a datagram to the buffer it gets.
\<close>

fun readFromGCM ::
    "crypto \<Rightarrow> nat \<Rightarrow> bytes list \<Rightarrow> io_error \<Rightarrow> obfs_conn \<Rightarrow> (io_error + bytes) \<times> bytes list \<times> obfs_conn" where
  "readFromGCM cr n [] err c = (Inl err, [], c)"
| "readFromGCM cr n (pkt # pkts) err c =
     (case recv_packet cr (take (nonceSize + n + gcmTagSize) pkt) c of
        (Some plaintext, c') \<Rightarrow> (Inr plaintext, pkts, c')
      | (None, c') \<Rightarrow> readFromGCM cr n pkts err c')"

text \<open>Calling \<^verbatim>\<open>ReadFrom\<close> until it fails: every plaintext delivered.\<close>

fun read_all_packets :: "crypto \<Rightarrow> nat \<Rightarrow> bytes list \<Rightarrow> obfs_conn \<Rightarrow> bytes list \<times> obfs_conn" where
  "read_all_packets cr n [] c = ([], c)"
| "read_all_packets cr n (pkt # pkts) c =
     (case recv_packet cr (take (nonceSize + n + gcmTagSize) pkt) c of
        (Some plaintext, c') \<Rightarrow> (case read_all_packets cr n pkts c' of (ps, c'') \<Rightarrow> (plaintext # ps, c''))
      | (None, c') \<Rightarrow> read_all_packets cr n pkts c')"

section \<open>Documented behaviour of the cipher\<close>

definition aead_ok :: "crypto \<Rightarrow> bool" where
  "aead_ok cr \<longleftrightarrow>
     (\<forall>k n p. length (cr_seal cr k n p) = length p + 16 \<and> cr_open cr k n (cr_seal cr k n p) = Some p)"

text \<open>Key derivation gives two 32-byte keys for a 32-byte secret.\<close>

definition hkdf_ok :: "crypto \<Rightarrow> bool" where
  "hkdf_ok cr \<longleftrightarrow> (\<forall>key info. length key = 32 \<longrightarrow> (\<exists>k. cr_hkdf cr key info = Inr k \<and> length k = 32))"

text \<open>A concrete instance: the tag is the first 16 bytes of the padded key.\<close>

definition toy_tag :: "bytes \<Rightarrow> bytes" where
  "toy_tag k = take 16 (k @ replicate 16 0)"

definition toy_crypto :: crypto where
  "toy_crypto =
     \<lparr>cr_seal = (\<lambda>k n p. p @ toy_tag k),
      cr_open = (\<lambda>k n c. if 16 \<le> length c \<and> drop (length c - 16) c = toy_tag k
                         then Some (take (length c - 16) c) else None),
      cr_hkdf = (\<lambda>key info. if length key = 32 then Inr (map (\<lambda>b. b + of_nat (length info)) key) else Inl EOF)\<rparr>"

lemma length_toy_tag [simp]: "length (toy_tag k) = 16"
  by (simp add: toy_tag_def min_def)

lemma toy_ok: "aead_ok toy_crypto" "hkdf_ok toy_crypto"
  by (simp_all add: aead_ok_def hkdf_ok_def toy_crypto_def)

section \<open>Packets\<close>

lemma length_build_nonce [simp]: "length (build_nonce pfx ctr) = 12"
  by (simp add: build_nonce_def)

lemma build_nonce_counter [simp]: "be64 (drop 4 (build_nonce pfx ctr)) = ctr"
  by (simp add: build_nonce_def)

lemma build_nonce_inj: "build_nonce pfx a = build_nonce pfx b \<Longrightarrow> a = b"
  by (metis build_nonce_counter)

lemma length_writeToGCM: "aead_ok cr \<Longrightarrow> length (fst (writeToGCM cr p w c)) = length p + 28"
  by (simp add: writeToGCM_def Let_def aead_ok_def)

text \<open>What the peer makes of a datagram that was written with its receiving key.\<close>

lemma recv_written:
  assumes "aead_ok cr" and "oc_recvKey d = oc_sendKey c" and "length p \<le> n"
  shows "recv_packet cr (take (nonceSize + n + gcmTagSize) (fst (writeToGCM cr p w c))) d =
    (case oc_recvFilter d of
       None \<Rightarrow> (Some p, d\<lparr>oc_pktsRecv := oc_pktsRecv d + 1\<rparr>)
     | Some rf \<Rightarrow>
         (case Check (oc_nonceCounter c + 1) rf of
            (True, rf') \<Rightarrow> (Some p, d\<lparr>oc_recvFilter := Some rf', oc_pktsRecv := oc_pktsRecv d + 1\<rparr>)
          | (False, rf') \<Rightarrow> (None, d\<lparr>oc_recvFilter := Some rf', oc_replayRejects := oc_replayRejects d + 1\<rparr>)))"
proof -
  have t: "take (nonceSize + n + gcmTagSize) (fst (writeToGCM cr p w c)) = fst (writeToGCM cr p w c)"
    using assms(3) length_writeToGCM [OF assms(1), of p w c] by (simp add: nonceSize_def gcmTagSize_def)
  have "nonceSize + gcmTagSize \<le> length (fst (writeToGCM cr p w c))"
    using length_writeToGCM [OF assms(1), of p w c] by (simp add: nonceSize_def gcmTagSize_def)
  then show ?thesis
    unfolding t using assms(1,2)
    by (cases "oc_recvFilter d") (simp_all add: recv_packet_def writeToGCM_def Let_def aead_ok_def nonceSize_def not_less)
qed

text \<open>The traffic a receiver sees: datagrams of the peer and datagrams it cannot open.\<close>

definition junk :: "crypto \<Rightarrow> nat \<Rightarrow> obfs_conn \<Rightarrow> bytes \<Rightarrow> bool" where
  "junk cr n d pkt \<longleftrightarrow>
     (let b = take (nonceSize + n + gcmTagSize) pkt
      in length b < nonceSize + gcmTagSize \<or> cr_open cr (oc_recvKey d) (take nonceSize b) (drop nonceSize b) = None)"

datatype traffic = Peer bytes | Junk bytes

fun wire :: "crypto \<Rightarrow> traffic list \<Rightarrow> obfs_conn \<Rightarrow> bytes list" where
  "wire cr [] c = []"
| "wire cr (Peer p # ts) c = fst (writeToGCM cr p None c) # wire cr ts (snd (snd (writeToGCM cr p None c)))"
| "wire cr (Junk pkt # ts) c = pkt # wire cr ts c"

fun peer_data :: "traffic list \<Rightarrow> bytes list" where
  "peer_data [] = []"
| "peer_data (Peer p # ts) = p # peer_data ts"
| "peer_data (Junk _ # ts) = peer_data ts"

definition traffic_ok :: "crypto \<Rightarrow> nat \<Rightarrow> obfs_conn \<Rightarrow> traffic \<Rightarrow> bool" where
  "traffic_ok cr n d t = (case t of Peer p \<Rightarrow> length p \<le> n | Junk pkt \<Rightarrow> junk cr n d pkt)"

lemma recv_packet_short:
  "length b < nonceSize + gcmTagSize \<Longrightarrow> recv_packet cr b d = (None, d\<lparr>oc_tooShort := oc_tooShort d + 1\<rparr>)"
  by (simp add: recv_packet_def)

lemma recv_packet_closed:
  "\<not> length b < nonceSize + gcmTagSize \<Longrightarrow>
     cr_open cr (oc_recvKey d) (take nonceSize b) (drop nonceSize b) = None \<Longrightarrow>
     recv_packet cr b d = (None, d\<lparr>oc_decryptErrors := oc_decryptErrors d + 1\<rparr>)"
  by (simp add: recv_packet_def Let_def)

lemma recv_junk:
  assumes "junk cr n d pkt"
  obtains d' where "recv_packet cr (take (nonceSize + n + gcmTagSize) pkt) d = (None, d')"
    "oc_recvKey d' = oc_recvKey d" "oc_recvFilter d' = oc_recvFilter d"
proof (cases "length (take (nonceSize + n + gcmTagSize) pkt) < nonceSize + gcmTagSize")
  case True
  then show thesis by (intro that [OF recv_packet_short]) simp_all
next
  case False
  with assms have "cr_open cr (oc_recvKey d) (take nonceSize (take (nonceSize + n + gcmTagSize) pkt))
      (drop nonceSize (take (nonceSize + n + gcmTagSize) pkt)) = None"
    unfolding junk_def Let_def by blast
  with False show thesis by (intro that [OF recv_packet_closed]) simp_all
qed

lemma traffic_ok_key: "oc_recvKey d' = oc_recvKey d \<Longrightarrow> traffic_ok cr n d' = traffic_ok cr n d"
  by (simp add: traffic_ok_def junk_def fun_eq_iff split: traffic.splits)

lemma read_wire:
  assumes "aead_ok cr" and "oc_recvKey d = oc_sendKey c" and "oc_recvFilter d = None"
    and "list_all (traffic_ok cr n d) ts"
  shows "fst (read_all_packets cr n (wire cr ts c) d) = peer_data ts"
  using assms(2-4)
proof (induction ts arbitrary: c d)
  case (Cons t ts)
  show ?case
  proof (cases t)
    case (Peer p)
    let ?c = "snd (snd (writeToGCM cr p None c))" and ?d = "d\<lparr>oc_pktsRecv := oc_pktsRecv d + 1\<rparr>"
    have "length p \<le> n" using Cons.prems(3) Peer by (simp add: traffic_ok_def)
    from recv_written [OF assms(1) Cons.prems(1) this, of None]
    have rp: "recv_packet cr (take (nonceSize + n + gcmTagSize) (fst (writeToGCM cr p None c))) d = (Some p, ?d)"
      using Cons.prems(2) by simp
    have "oc_recvKey ?d = oc_sendKey ?c" "oc_recvFilter ?d = None" "list_all (traffic_ok cr n ?d) ts"
      using Cons.prems traffic_ok_key [of ?d d] by (simp_all add: writeToGCM_def Let_def)
    from Cons.IH [OF this] show ?thesis by (simp add: Peer rp case_prod_unfold)
  next
    case (Junk pkt)
    then have "junk cr n d pkt" using Cons.prems(3) by (simp add: traffic_ok_def)
    then obtain d' where rp: "recv_packet cr (take (nonceSize + n + gcmTagSize) pkt) d = (None, d')"
      and d': "oc_recvKey d' = oc_recvKey d" "oc_recvFilter d' = oc_recvFilter d"
      by (rule recv_junk)
    have "oc_recvKey d' = oc_sendKey c" "oc_recvFilter d' = None" "list_all (traffic_ok cr n d') ts"
      using Cons.prems traffic_ok_key [OF d'(1)] d' by simp_all
    from Cons.IH [OF this] show ?thesis by (simp add: Junk rp)
  qed
qed simp

text \<open>The nonces of a run of writes count up from the counter.\<close>

lemma wire_nonces:
  "map (take 12) (wire cr (map Peer ps) c) =
     map (\<lambda>i. build_nonce (oc_noncePrefix c) (oc_nonceCounter c + of_nat (Suc i))) [0..<length ps]"
proof (induction ps arbitrary: c)
  case (Cons p ps)
  have up: "[0..<length (p # ps)] = 0 # map Suc [0..<length ps]"
    by (simp add: upt_conv_Cons map_Suc_upt del: upt_Suc)
  let ?c = "snd (snd (writeToGCM cr p None c))"
  have c: "oc_noncePrefix ?c = oc_noncePrefix c" "oc_nonceCounter ?c = oc_nonceCounter c + 1"
    "take 12 (fst (writeToGCM cr p None c)) = build_nonce (oc_noncePrefix c) (oc_nonceCounter c + 1)"
    by (simp_all add: writeToGCM_def Let_def)
  show ?case
    unfolding up using Cons.IH [of ?c] by (simp add: c comp_def add.assoc)
qed simp

text \<open>The counters of the datagrams that are accepted, with a filter in place.\<close>

fun accepted_counters :: "crypto \<Rightarrow> nat \<Rightarrow> bytes list \<Rightarrow> obfs_conn \<Rightarrow> u64 list" where
  "accepted_counters cr n [] c = []"
| "accepted_counters cr n (pkt # pkts) c =
     (case recv_packet cr (take (nonceSize + n + gcmTagSize) pkt) c of
        (Some _, c') \<Rightarrow> be64 (drop 4 (take nonceSize pkt)) # accepted_counters cr n pkts c'
      | (None, c') \<Rightarrow> accepted_counters cr n pkts c')"

lemma recv_packet_filter:
  assumes "oc_recvFilter c = Some rf"
  shows "(\<exists>c'. recv_packet cr b c = (None, c') \<and> oc_recvFilter c' = Some rf) \<or>
    (\<exists>pl ok rf' c'. Check (be64 (drop 4 (take nonceSize b))) rf = (ok, rf') \<and> oc_recvFilter c' = Some rf' \<and>
       recv_packet cr b c = (if ok then Some pl else None, c'))"
proof (cases "length b < nonceSize + gcmTagSize")
  case True
  then show ?thesis using assms recv_packet_short [of b cr c] by simp
next
  case False
  show ?thesis
  proof (cases "cr_open cr (oc_recvKey c) (take nonceSize b) (drop nonceSize b)")
    case None
    then show ?thesis using False assms recv_packet_closed [of b cr c] by simp
  next
    case (Some pl)
    obtain ok rf' where chk: "Check (be64 (drop 4 (take nonceSize b))) rf = (ok, rf')" by fastforce
    with False Some assms show ?thesis
      by (intro disjI2 exI [of _ pl] exI [of _ ok] exI [of _ rf'] exI [of _ "snd (recv_packet cr b c)"])
        (cases ok; simp add: recv_packet_def Let_def)
  qed
qed

lemma take_nonce_cut: "take nonceSize (take (nonceSize + n + gcmTagSize) pkt) = take nonceSize pkt"
  by (simp add: min_def)

lemma accepted_counters_run:
  "oc_recvFilter c = Some rf \<Longrightarrow> \<exists>qs. accepted_counters cr n pkts c = fst (accepts qs rf)"
proof (induction pkts arbitrary: c rf)
  case Nil
  show ?case by (rule exI [of _ "[]"]) simp
next
  case (Cons pkt pkts)
  from recv_packet_filter [OF Cons.prems, of cr "take (nonceSize + n + gcmTagSize) pkt", unfolded take_nonce_cut] show ?case
  proof (elim disjE exE conjE)
    fix c'
    assume "recv_packet cr (take (nonceSize + n + gcmTagSize) pkt) c = (None, c')" "oc_recvFilter c' = Some rf"
    then show ?thesis using Cons.IH [of c' rf] by simp
  next
    fix pl ok rf' c'
    assume chk: "Check (be64 (drop 4 (take nonceSize pkt))) rf = (ok, rf')" and c': "oc_recvFilter c' = Some rf'"
      and rp: "recv_packet cr (take (nonceSize + n + gcmTagSize) pkt) c = (if ok then Some pl else None, c')"
    obtain qs where qs: "accepted_counters cr n pkts c' = fst (accepts qs rf')" using Cons.IH [OF c'] by blast
    show ?thesis
      by (rule exI [of _ "be64 (drop 4 (take nonceSize pkt)) # qs"]) (simp add: rp chk qs split: prod.splits)
  qed
qed

section \<open>Properties\<close>

text \<open>
  C14: for two ends created with the same 32-byte secret in opposite roles, every packet one
  end writes is delivered to the other unchanged and in the order of arrival, however many
  packets that do not authenticate arrive in between: those are skipped, never returned as
  errors.
\<close>

theorem obfs_roundtrip:
  assumes "aead_ok cr"
    and "NewObfuscatedPacketConn cr key srv pfx1 = Inr c" and "NewObfuscatedPacketConn cr key (\<not> srv) pfx2 = Inr d"
    and "list_all (traffic_ok cr n d) ts"
  shows "fst (read_all_packets cr n (wire cr ts c) d) = peer_data ts"
proof (rule read_wire [OF assms(1) _ _ assms(4)])
  show "oc_recvKey d = oc_sendKey c" "oc_recvFilter d = None"
    using assms(2,3) by (auto simp: NewObfuscatedPacketConn_def split: if_splits sum.splits option.splits)
qed

definition demo_conn :: "bool \<Rightarrow> obfs_conn" where
  "demo_conn srv = projr (NewObfuscatedPacketConn toy_crypto (replicate 32 7) srv (Inr 9))"

lemma demo_conn: "NewObfuscatedPacketConn toy_crypto (replicate 32 7) srv (Inr 9) = Inr (demo_conn srv)"
  by (simp add: demo_conn_def NewObfuscatedPacketConn_def toy_crypto_def newGCM_def)

theorem obfs_roundtrip_witness:
  "aead_ok toy_crypto \<and>
   fst (read_all_packets toy_crypto 100
          (wire toy_crypto [Junk [1, 2, 3], Peer [10, 20], Junk [], Peer []] (demo_conn True)) (demo_conn False)) =
     [[10, 20], []]"
  using obfs_roundtrip [OF toy_ok(1) demo_conn [of True], of "Inr 9" "demo_conn False" 100
      "[Junk [1, 2, 3], Peer [10, 20], Junk [], Peer []]"] toy_ok(1)
  by (simp add: demo_conn traffic_ok_def junk_def nonceSize_def gcmTagSize_def)

text \<open>
  C15: no nonce is used twice with a key: the nonces of fewer than \<open>2 ^ 64\<close> packets written by
  a connection, from any point of its life, are pairwise different.
\<close>

theorem obfs_nonces_distinct:
  assumes "length ps < 2 ^ 64"
  shows "distinct (map (take 12) (wire cr (map Peer ps) c))"
proof -
  have "inj_on (\<lambda>i. build_nonce (oc_noncePrefix c) (oc_nonceCounter c + of_nat (Suc i))) (set [0..<length ps])"
  proof (rule inj_onI)
    fix i j
    assume i: "i \<in> set [0..<length ps]" and j: "j \<in> set [0..<length ps]"
      and "build_nonce (oc_noncePrefix c) (oc_nonceCounter c + of_nat (Suc i)) =
           build_nonce (oc_noncePrefix c) (oc_nonceCounter c + of_nat (Suc j))"
    then have "(of_nat i :: u64) = of_nat j" by (auto dest: build_nonce_inj)
    then have "unat (of_nat i :: u64) = unat (of_nat j :: u64)" by simp
    with i j assms show "i = j" by (simp add: unat_of_nat)
  qed
  then show ?thesis by (simp add: wire_nonces distinct_map del: of_nat_Suc)
qed

theorem obfs_nonces_distinct_witness:
  "distinct (map (take 12) (wire toy_crypto (map Peer [[1], [1], [1]]) (demo_conn True)))"
  using obfs_nonces_distinct [of "[[1], [1], [1]]" toy_crypto "demo_conn True"] by simp

text \<open>
  with a replay filter set, no counter is accepted twice, whatever datagrams arrive: a
  captured packet sent again is not delivered again.
\<close>

lemma obfs_filter_no_replay:
  assumes "oc_recvFilter c = Some newReplayFilter"
  shows "distinct (accepted_counters cr n pkts c)"
  using accepted_counters_run [OF assms, of cr n pkts] rf.run_distinct [OF rf_ok_new] by auto

text \<open>
  the constructor leaves the filter unset, so a captured datagram that arrives again is
  delivered again, as often as it is sent.
\<close>

lemma obfs_replay_delivered:
  assumes "aead_ok cr"
    and "NewObfuscatedPacketConn cr key srv pfx1 = Inr c" and "NewObfuscatedPacketConn cr key (\<not> srv) pfx2 = Inr d"
    and "length p \<le> n"
  shows "fst (read_all_packets cr n (replicate k (fst (writeToGCM cr p None c))) d) = replicate k p"
proof -
  have "oc_recvKey d = oc_sendKey c" "oc_recvFilter d = None"
    using assms(2,3) by (auto simp: NewObfuscatedPacketConn_def split: if_splits sum.splits option.splits)
  then show ?thesis
  proof (induction k arbitrary: d)
    case (Suc k)
    with recv_written [OF assms(1) Suc.prems(1) assms(4), of None]
      Suc.IH [of "d\<lparr>oc_pktsRecv := oc_pktsRecv d + 1\<rparr>"]
    show ?case by (simp add: case_prod_unfold)
  qed simp
qed

end
