(* ===== verification/Socks5.thy ===== *)
theory Socks5
  imports Go_Prelude
begin

text \<open>
  The SOCKS5 front end (\<^verbatim>\<open>golib/webrtc/socks5.go\<close>) and the header that carries the target of
  a stream to the other side (\<^verbatim>\<open>readTargetAddr\<close> and its copy in \<^verbatim>\<open>media_reliable.go\<close>). The
  handler reads the request from the connection, field by field with every early return, and
  the result records what it wrote to the client, the header it wrote to the stream, and the
  input left for the relay.
\<close>

section \<open>The target header\<close>

definition DNSChannelTarget :: bytes where
  "DNSChannelTarget = ascii ''__dns__''"

definition target_header :: "bytes \<Rightarrow> bytes" where
  "target_header addr = put_u16 (u16_len (length addr)) @ addr"

datatype target_error = ReadAddrLength io_error | InvalidAddrLength u16 | ReadAddr io_error

definition readTargetAddr :: "reader \<Rightarrow> (target_error + bytes) \<times> reader" where
  "readTargetAddr r =
     (case read_full 2 r of
        (Inl e, r') \<Rightarrow> (Inl (ReadAddrLength e), r')
      | (Inr lenBuf, r') \<Rightarrow>
          let addrLen = be16 lenBuf
          in if addrLen = 0 \<or> 512 < addrLen then (Inl (InvalidAddrLength addrLen), r')
             else (case read_full (unat addrLen) r' of
                     (Inl e, r'') \<Rightarrow> (Inl (ReadAddr e), r'')
                   | (Inr addrBuf, r'') \<Rightarrow> (Inr addrBuf, r'')))"

definition readTargetAddrReliable :: "reader \<Rightarrow> (target_error + bytes) \<times> reader" where
  "readTargetAddrReliable r =
     (case read_full 2 r of
        (Inl e, r') \<Rightarrow> (Inl (ReadAddrLength e), r')
      | (Inr lenBuf, r') \<Rightarrow>
          let addrLen = be16 lenBuf
          in if addrLen = 0 \<or> 512 < addrLen then (Inl (InvalidAddrLength addrLen), r')
             else (case read_full (unat addrLen) r' of
                     (Inl e, r'') \<Rightarrow> (Inl (ReadAddr e), r'')
                   | (Inr addrBuf, r'') \<Rightarrow> (Inr addrBuf, r'')))"

section \<open>The handler\<close>

definition reply_method :: bytes where "reply_method = [5, 0]"

definition reply :: "byte \<Rightarrow> bytes" where
  "reply code = [5, code, 0, 1, 0, 0, 0, 0, 0, 0]"

text \<open>The version and method negotiation; \<open>None\<close> is the early return.\<close>

definition negotiate :: "reader \<Rightarrow> reader option" where
  "negotiate r =
     (case read_full 2 r of
        (Inl _, _) \<Rightarrow> None
      | (Inr b, r1) \<Rightarrow>
          if b ! 0 \<noteq> 5 then None
          else (case read_full (unat (b ! 1)) r1 of (Inl _, _) \<Rightarrow> None | (Inr _, r2) \<Rightarrow> Some r2))"

text \<open>The destination address by its type; \<open>Inl\<close> carries what is replied before returning.\<close>

definition read_host :: "byte \<Rightarrow> reader \<Rightarrow> bytes + bytes \<times> reader" where
  "read_host atyp r =
     (if atyp = 1 then
        (case read_full 4 r of (Inl _, _) \<Rightarrow> Inl [] | (Inr b, r') \<Rightarrow> Inr (ip_string b, r'))
      else if atyp = 3 then
        (case read_full 1 r of
           (Inl _, _) \<Rightarrow> Inl []
         | (Inr b, r') \<Rightarrow>
             (case read_full (unat (b ! 0)) r' of
                (Inl _, _) \<Rightarrow> Inl [] | (Inr d, r'') \<Rightarrow> Inr (d, r'')))
      else if atyp = 4 then
        (case read_full 16 r of (Inl _, _) \<Rightarrow> Inl [] | (Inr b, r') \<Rightarrow> Inr (ip_string b, r'))
      else Inl (reply 8))"

text \<open>The CONNECT request: the target and the input after it.\<close>

definition read_request :: "reader \<Rightarrow> bytes + bytes \<times> reader" where
  "read_request r =
     (case read_full 4 r of
        (Inl _, _) \<Rightarrow> Inl []
      | (Inr b, r1) \<Rightarrow>
          if b ! 1 \<noteq> 1 then Inl (reply 7)
          else (case read_host (b ! 3) r1 of
                  Inl out \<Rightarrow> Inl out
                | Inr (host, r2) \<Rightarrow>
                    (case read_full 2 r2 of
                       (Inl _, _) \<Rightarrow> Inl []
                     | (Inr pb, r3) \<Rightarrow> Inr (join_host_port host (itoa (unat (be16 pb))), r3))))"

record socks_out =
  so_client :: bytes
  so_header :: "bytes option"
  so_relay :: "reader option"

text \<open>
  \<^verbatim>\<open>handleSocks5Conn\<close>: \<open>oerr\<close> is the error of \<^verbatim>\<open>openStream\<close>, \<open>werr\<close> the error of writing the
  header, if any.
\<close>

definition handleSocks5Conn :: "reader \<Rightarrow> io_error option \<Rightarrow> io_error option \<Rightarrow> socks_out" where
  "handleSocks5Conn r oerr werr =
     (case negotiate r of
        None \<Rightarrow> \<lparr>so_client = [], so_header = None, so_relay = None\<rparr>
      | Some r1 \<Rightarrow>
          (case read_request r1 of
             Inl out \<Rightarrow> \<lparr>so_client = reply_method @ out, so_header = None, so_relay = None\<rparr>
           | Inr (target, r2) \<Rightarrow>
               if oerr \<noteq> None then \<lparr>so_client = reply_method @ reply 1, so_header = None, so_relay = None\<rparr>
               else if werr \<noteq> None then
                 \<lparr>so_client = reply_method @ reply 1, so_header = Some (target_header target), so_relay = None\<rparr>
               else
                 \<lparr>so_client = reply_method @ reply 0, so_header = Some (target_header target), so_relay = Some r2\<rparr>))"

text \<open>
  \<^verbatim>\<open>handleGroupSocks5Conn\<close>: the same dialogue, with the group's \<^verbatim>\<open>DialStream\<close> opening the stream
  and writing the header; \<open>dial\<close> maps the target to the header written, or fails.
\<close>

definition handleGroupSocks5Conn :: "reader \<Rightarrow> (bytes \<Rightarrow> io_error + bytes) \<Rightarrow> socks_out" where
  "handleGroupSocks5Conn r dial =
     (case negotiate r of
        None \<Rightarrow> \<lparr>so_client = [], so_header = None, so_relay = None\<rparr>
      | Some r1 \<Rightarrow>
          (case read_request r1 of
             Inl out \<Rightarrow> \<lparr>so_client = reply_method @ out, so_header = None, so_relay = None\<rparr>
           | Inr (target, r2) \<Rightarrow>
               (case dial target of
                  Inl _ \<Rightarrow> \<lparr>so_client = reply_method @ reply 1, so_header = None, so_relay = None\<rparr>
                | Inr hdr \<Rightarrow> \<lparr>so_client = reply_method @ reply 0, so_header = Some hdr, so_relay = Some r2\<rparr>)))"

section \<open>Requests\<close>

text \<open>What a client sends, and the host the request names.\<close>

datatype socks_addr = V4 bytes | Domain bytes | V6 bytes

fun enc_addr :: "socks_addr \<Rightarrow> bytes" where
  "enc_addr (V4 b) = 1 # b"
| "enc_addr (Domain d) = 3 # of_nat (length d) # d"
| "enc_addr (V6 b) = 4 # b"

fun addr_ok :: "socks_addr \<Rightarrow> bool" where
  "addr_ok (V4 b) \<longleftrightarrow> length b = 4"
| "addr_ok (Domain d) \<longleftrightarrow> length d < 256"
| "addr_ok (V6 b) \<longleftrightarrow> length b = 16"

fun addr_host :: "socks_addr \<Rightarrow> bytes" where
  "addr_host (V4 b) = ip_string b"
| "addr_host (Domain d) = d"
| "addr_host (V6 b) = ip_string b"

definition socks_target :: "socks_addr \<Rightarrow> u16 \<Rightarrow> bytes" where
  "socks_target a port = join_host_port (addr_host a) (itoa (unat port))"

text \<open>The whole request; the version and reserved bytes of its second part are not looked at.\<close>

definition socks_request :: "bytes \<Rightarrow> byte \<Rightarrow> byte \<Rightarrow> socks_addr \<Rightarrow> u16 \<Rightarrow> bytes" where
  "socks_request methods ver rsv a port =
     [5, of_nat (length methods)] @ methods @ [ver, 1, rsv] @ enc_addr a @ put_u16 port"

lemma unat_byte_len [simp]: "n < 256 \<Longrightarrow> unat (of_nat n :: byte) = n"
  by (simp add: unat_of_nat)

lemma read_host_enc:
  assumes "addr_ok a"
  shows "read_host (hd (enc_addr a)) \<lparr>rd_data = tl (enc_addr a) @ rest, rd_err = e\<rparr> =
           Inr (addr_host a, \<lparr>rd_data = rest, rd_err = e\<rparr>)"
  using assms by (cases a) (simp_all add: read_host_def)

lemma enc_addr_cons: "enc_addr a = hd (enc_addr a) # tl (enc_addr a)"
  by (cases a) simp_all

lemma read_full_4: "read_full 4 \<lparr>rd_data = w # x # y # z # r, rd_err = e\<rparr> = (Inr [w, x, y, z], \<lparr>rd_data = r, rd_err = e\<rparr>)"
  using read_full_append [of "[w, x, y, z]" 4 r e] by simp

lemma read_full_2: "read_full 2 \<lparr>rd_data = w # x # r, rd_err = e\<rparr> = (Inr [w, x], \<lparr>rd_data = r, rd_err = e\<rparr>)"
  using read_full_append [of "[w, x]" 2 r e] by simp

lemma read_request_enc:
  assumes "addr_ok a"
  shows "read_request \<lparr>rd_data = [ver, 1, rsv] @ enc_addr a @ put_u16 port @ rest, rd_err = e\<rparr> =
           Inr (socks_target a port, \<lparr>rd_data = rest, rd_err = e\<rparr>)"
  using read_host_enc [OF assms, of "put_u16 port @ rest" e]
  by (subst enc_addr_cons) (simp add: read_request_def read_full_4 socks_target_def)

lemma negotiate_enc:
  "length methods < 256 \<Longrightarrow>
     negotiate \<lparr>rd_data = [5, of_nat (length methods)] @ methods @ rest, rd_err = e\<rparr> = Some \<lparr>rd_data = rest, rd_err = e\<rparr>"
  by (simp add: negotiate_def read_full_2)

lemma length_socks_target: "addr_ok a \<Longrightarrow> length (socks_target a port) \<le> 512 \<and> socks_target a port \<noteq> []"
proof -
  assume ok: "addr_ok a"
  have "length (itoa (unat port)) \<le> 5" using unat_u16_lt [of port] by (intro length_itoa_pow) auto
  moreover have "length (addr_host a) \<le> 255" using ok length_ip_string by (cases a) force+
  ultimately show ?thesis
    using length_join_host_port [of "addr_host a" "itoa (unat port)"]
      join_host_port_colon [of "addr_host a" "itoa (unat port)"]
    by (auto simp: socks_target_def)
qed

text \<open>Conversely, input that gets through is a request.\<close>

lemma negotiate_SomeD:
  assumes "negotiate r = Some r1"
  shows "\<exists>methods. length methods < 256 \<and> rd_data r = [5, of_nat (length methods)] @ methods @ rd_data r1"
proof -
  obtain b r' m where b: "read_full 2 r = (Inr b, r')" and ver: "b ! 0 = 5"
    and m: "read_full (unat (b ! 1)) r' = (Inr m, r1)"
    using assms by (auto simp: negotiate_def split: prod.splits sum.splits if_splits)
  have len: "length b = 2" "length m = unat (b ! 1)" using read_full_InrD(1) b m by auto
  then have "b = [5, b ! 1]" using ver by (cases b rule: groups16.cases) (auto simp: numeral_2_eq_2)
  moreover have "of_nat (length m) = b ! 1" using len(2) by simp
  moreover have "length m < 256" using len(2) unat_byte_lt [of "b ! 1"] by simp
  ultimately show ?thesis using read_full_InrD(2) [OF b] read_full_InrD(2) [OF m] by (intro exI [of _ m]) auto
qed

lemma read_host_InrD:
  assumes "read_host atyp r = Inr (host, r')"
  shows "\<exists>a. addr_ok a \<and> enc_addr a = atyp # tl (enc_addr a) \<and> host = addr_host a \<and> rd_data r = tl (enc_addr a) @ rd_data r'"
proof -
  consider b where "atyp = 1" "read_full 4 r = (Inr b, r')" "host = ip_string b"
    | b r1 where "atyp = 3" "read_full 1 r = (Inr b, r1)" "read_full (unat (b ! 0)) r1 = (Inr host, r')"
    | b where "atyp = 4" "read_full 16 r = (Inr b, r')" "host = ip_string b"
    using assms by (auto simp: read_host_def split: if_splits prod.splits sum.splits)
  then show ?thesis
  proof cases
    case 1
    then show ?thesis using read_full_InrD [OF 1(2)] by (intro exI [of _ "V4 b"]) simp
  next
    case 2
    have "length b = 1" "rd_data r = b @ rd_data r1" using read_full_InrD [OF 2(2)] by simp_all
    moreover have "length host = unat (b ! 0)" "rd_data r1 = host @ rd_data r'" using read_full_InrD [OF 2(3)] by simp_all
    ultimately show ?thesis using 2(1) unat_byte_lt [of "b ! 0"]
      by (intro exI [of _ "Domain host"]) (cases b; simp)
  next
    case 3
    then show ?thesis using read_full_InrD [OF 3(2)] by (intro exI [of _ "V6 b"]) simp
  qed
qed

lemma list_length4: "length b = 4 \<Longrightarrow> b = [b ! 0, b ! 1, b ! 2, b ! 3]"
  by (auto simp: eval_nat_numeral length_Suc_conv)

lemma read_request_InrD:
  assumes "read_request r = Inr (target, r')"
  shows "\<exists>ver rsv a port. addr_ok a \<and> target = socks_target a port \<and>
           rd_data r = [ver, 1, rsv] @ enc_addr a @ put_u16 port @ rd_data r'"
proof -
  obtain b r1 host r2 pb where b: "read_full 4 r = (Inr b, r1)" and cmd: "b ! 1 = 1"
    and h: "read_host (b ! 3) r1 = Inr (host, r2)" and pb: "read_full 2 r2 = (Inr pb, r')"
    and t: "target = join_host_port host (itoa (unat (be16 pb)))"
    using assms by (auto simp: read_request_def split: if_splits prod.splits sum.splits)
  obtain a where a: "addr_ok a" "enc_addr a = b ! 3 # tl (enc_addr a)" "host = addr_host a"
    "rd_data r1 = tl (enc_addr a) @ rd_data r2"
    using read_host_InrD [OF h] by blast
  have "b = [b ! 0, 1, b ! 2, b ! 3]" using list_length4 [OF read_full_InrD(1) [OF b]] cmd by simp
  then have "rd_data r = [b ! 0, 1, b ! 2] @ enc_addr a @ rd_data r2"
    using read_full_InrD(2) [OF b] a(2,4) by (metis append_Cons append_Nil)
  moreover have "rd_data r2 = put_u16 (be16 pb) @ rd_data r'"
    using read_full_InrD(1,2) [OF pb] by (simp add: put_u16_be16)
  ultimately show ?thesis
    using a(1,3) t unfolding socks_target_def
    by (intro exI [of _ "b ! 0"] exI [of _ "b ! 2"] exI [of _ a] exI [of _ "be16 pb"]) simp
qed

section \<open>The header codec\<close>

definition dec_target :: "bytes \<Rightarrow> (bytes \<times> bytes) option" where
  "dec_target bs =
     (case readTargetAddr \<lparr>rd_data = bs, rd_err = EOF\<rparr> of
        (Inr a, r) \<Rightarrow> Some (a, rd_data r) | (Inl _, _) \<Rightarrow> None)"

definition target_ok :: "bytes \<Rightarrow> bool" where
  "target_ok a \<longleftrightarrow> a \<noteq> [] \<and> length a \<le> 512"

lemma u16_len_bounds: "0 < n \<Longrightarrow> n \<le> 512 \<Longrightarrow> u16_len n \<noteq> 0 \<and> \<not> 512 < u16_len n"
  by (simp add: word_less_nat_alt flip: unat_eq_zero)

lemma readTargetAddr_header:
  "target_ok a \<Longrightarrow> readTargetAddr \<lparr>rd_data = target_header a @ rest, rd_err = e\<rparr> = (Inr a, \<lparr>rd_data = rest, rd_err = e\<rparr>)"
  using u16_len_bounds [of "length a"]
  by (simp add: target_ok_def readTargetAddr_def target_header_def Let_def)

interpretation target: frame_codec target_header dec_target target_ok
proof
  show "dec_target (target_header a @ r) = Some (a, r)" if "target_ok a" for a r
    using that by (simp add: dec_target_def readTargetAddr_header)
  show "target_header a \<noteq> []" for a by (simp add: target_header_def put_u16_def)
qed

section \<open>Properties\<close>

text \<open>
  C17: a well-formed CONNECT request, with any methods offered, any address type and data
  already sent behind it, is answered with success; the header written to the stream is read
  back by the other side as exactly the host and port asked for, and the relay starts with
  the first byte after the request.
\<close>

theorem socks_connect:
  assumes "addr_ok a" and "length methods < 256"
  shows "\<exists>hdr. handleSocks5Conn \<lparr>rd_data = socks_request methods ver rsv a port @ rest, rd_err = e\<rparr> None None =
           \<lparr>so_client = reply_method @ reply 0, so_header = Some hdr, so_relay = Some \<lparr>rd_data = rest, rd_err = e\<rparr>\<rparr> \<and>
         readTargetAddr \<lparr>rd_data = hdr @ nxt, rd_err = e'\<rparr> = (Inr (socks_target a port), \<lparr>rd_data = nxt, rd_err = e'\<rparr>)"
proof (intro exI conjI)
  show "handleSocks5Conn \<lparr>rd_data = socks_request methods ver rsv a port @ rest, rd_err = e\<rparr> None None =
      \<lparr>so_client = reply_method @ reply 0, so_header = Some (target_header (socks_target a port)),
       so_relay = Some \<lparr>rd_data = rest, rd_err = e\<rparr>\<rparr>"
    using negotiate_enc [OF assms(2), of "[ver, 1, rsv] @ enc_addr a @ put_u16 port @ rest" e]
      read_request_enc [OF assms(1), of ver rsv port rest e]
    by (simp add: handleSocks5Conn_def socks_request_def)
  show "readTargetAddr \<lparr>rd_data = target_header (socks_target a port) @ nxt, rd_err = e'\<rparr> =
      (Inr (socks_target a port), \<lparr>rd_data = nxt, rd_err = e'\<rparr>)"
    using length_socks_target [OF assms(1), of port] by (intro readTargetAddr_header) (simp add: target_ok_def)
qed

theorem socks_connect_witness:
  "\<exists>hdr. handleSocks5Conn \<lparr>rd_data = socks_request [0] 5 0 (Domain (ascii ''a.io'')) 80 @ [71], rd_err = EOF\<rparr> None None =
           \<lparr>so_client = reply_method @ reply 0, so_header = Some hdr, so_relay = Some \<lparr>rd_data = [71], rd_err = EOF\<rparr>\<rparr> \<and>
         readTargetAddr \<lparr>rd_data = hdr @ [], rd_err = EOF\<rparr> =
           (Inr (socks_target (Domain (ascii ''a.io'')) 80), \<lparr>rd_data = [], rd_err = EOF\<rparr>)"
  by (rule socks_connect) simp_all

text \<open>
  a stream is opened and a header written only for a complete CONNECT request: whatever
  bytes a client sends, if a header is written then the input starts with such a request, the
  header is the one of its target, and the relay gets exactly what follows the request.
\<close>

lemma socks_header_only_for_request:
  assumes "so_header (handleSocks5Conn r oerr werr) = Some hdr"
  shows "\<exists>methods ver rsv a port rest. addr_ok a \<and> length methods < 256 \<and>
           rd_data r = socks_request methods ver rsv a port @ rest \<and> hdr = target_header (socks_target a port) \<and>
           (\<forall>r'. so_relay (handleSocks5Conn r oerr werr) = Some r' \<longrightarrow> rd_data r' = rest)"
proof -
  obtain r1 target r2 where n: "negotiate r = Some r1" and q: "read_request r1 = Inr (target, r2)"
    and h: "hdr = target_header target"
    and rl: "\<And>r'. so_relay (handleSocks5Conn r oerr werr) = Some r' \<Longrightarrow> r' = r2"
    using assms by (auto simp: handleSocks5Conn_def split: option.splits sum.splits if_splits prod.splits)
  obtain methods where "length methods < 256" "rd_data r = [5, of_nat (length methods)] @ methods @ rd_data r1"
    using negotiate_SomeD [OF n] by blast
  moreover obtain ver rsv a port where "addr_ok a" "target = socks_target a port"
    "rd_data r1 = [ver, 1, rsv] @ enc_addr a @ put_u16 port @ rd_data r2"
    using read_request_InrD [OF q] by blast
  ultimately show ?thesis using h rl
    by (intro exI [of _ methods] exI [of _ ver] exI [of _ rsv] exI [of _ a] exI [of _ port] exI [of _ "rd_data r2"])
      (auto simp: socks_request_def)
qed

text \<open>
  no SOCKS client can reach the reserved DNS channel: the target of a request always has
  a port, so it is never the reserved name, whatever host name the client sends.
\<close>

lemma socks_never_dns_channel: "socks_target a port \<noteq> DNSChannelTarget"
  using join_host_port_colon [of "addr_host a" "itoa (unat port)"]
  by (auto simp: socks_target_def DNSChannelTarget_def ascii_def)

text \<open>The reliable transport's copy of the header reader behaves as the original.\<close>

lemma readTargetAddrReliable_same: "readTargetAddrReliable r = readTargetAddr r"
  by (simp add: readTargetAddrReliable_def readTargetAddr_def)

end
