(* ===== verification/Dc_Conn.thy ===== *)
theory Dc_Conn
  imports Go_Prelude
begin

text \<open>
  The two message transports turned into byte streams: the data channel wrapper of
  \<^verbatim>\<open>golib/webrtc/dcconn.go\<close>, whose pending bytes alias its read buffer, and the media
  transport of \<^verbatim>\<open>golib/webrtc/media_transport.go\<close> with the codec choice of
  \<^verbatim>\<open>media_codec.go\<close>. Both are buffered readers; the lemmas show that no byte is lost,
  repeated or overwritten, that a blocked writer only proceeds below the high-water mark, and
  how RTP sequence numbers and timestamps advance.
\<close>

section \<open>Data channel streams\<close>

text \<open>
  The buffer is an array of 65536 bytes; the pending part is the slice from \<open>dc_lo\<close> to
  \<open>dc_hi\<close> of it, as the source shares the memory.
\<close>

record dc_conn =
  dc_flow :: bool
  dc_readBuf :: bytes
  dc_lo :: nat
  dc_hi :: nat
  dc_done :: bool
  dc_maxBuffered :: u64
  dc_lowMark :: u64

definition newDCStreamConn :: "bool \<Rightarrow> int \<Rightarrow> int \<Rightarrow> dc_conn" where
  "newDCStreamConn hasDC maxBuffered lowMark =
     \<lparr>dc_flow = hasDC, dc_readBuf = replicate 65536 0, dc_lo = 0, dc_hi = 0, dc_done = False,
      dc_maxBuffered = of_int (if maxBuffered \<le> 0 then 512 * 1024 else maxBuffered),
      dc_lowMark = of_int (if lowMark \<le> 0 then 128 * 1024 else lowMark)\<rparr>"

definition dc_pending :: "dc_conn \<Rightarrow> bytes" where
  "dc_pending c = take (dc_hi c - dc_lo c) (drop (dc_lo c) (dc_readBuf c))"

text \<open>
  \<^verbatim>\<open>Read\<close>; the inner connection's answers are a list, each an error or the message put into
  the buffer. \<open>None\<close>: the inner read has nothing yet and blocks.
\<close>

definition dc_read ::
    "nat \<Rightarrow> dc_conn \<Rightarrow> (io_error + bytes) list \<Rightarrow> ((io_error + bytes) \<times> dc_conn \<times> (io_error + bytes) list) option" where
  "dc_read n c inner =
     (if 0 < length (dc_pending c) then
        let m = min n (length (dc_pending c))
        in Some (Inr (take m (dc_pending c)), c\<lparr>dc_lo := dc_lo c + m\<rparr>, inner)
      else case inner of
        [] \<Rightarrow> None
      | Inl e # inner' \<Rightarrow> Some (Inl e, c, inner')
      | Inr msg # inner' \<Rightarrow>
          let k = length msg;
              c1 = c\<lparr>dc_readBuf := msg @ drop k (dc_readBuf c)\<rparr>;
              m = min n k
          in Some (Inr (take m (take k (dc_readBuf c1))),
                   if m < k then c1\<lparr>dc_lo := m, dc_hi := k\<rparr> else c1,
                   inner'))"

text \<open>
  \<^verbatim>\<open>Write\<close>: the loop looks at the channel's buffered amount, and while that is above the mark
  waits for a wake-up. Each element is an amount seen and the wake-up that followed.
\<close>

datatype wake = BufferedAmountLow | Done

fun dc_wait :: "dc_conn \<Rightarrow> (u64 \<times> wake) list \<Rightarrow> (io_error + u64) option" where
  "dc_wait c [] = None"
| "dc_wait c ((amount, w) # obs) =
     (if dc_maxBuffered c < amount
      then (case w of BufferedAmountLow \<Rightarrow> dc_wait c obs | Done \<Rightarrow> Some (Inl ErrClosedPipe))
      else Some (Inr amount))"

definition dc_write :: "dc_conn \<Rightarrow> (u64 \<times> wake) list \<Rightarrow> bytes \<Rightarrow> io_error + nat \<Rightarrow> (io_error + nat) option \<times> bytes option" where
  "dc_write c obs p answer =
     (if dc_flow c then
        (case dc_wait c obs of
           None \<Rightarrow> (None, None)
         | Some (Inl e) \<Rightarrow> (Some (Inl e), None)
         | Some (Inr _) \<Rightarrow> (Some answer, Some p))
      else (Some answer, Some p))"

definition dc_close :: "dc_conn \<Rightarrow> dc_conn" where
  "dc_close c = c\<lparr>dc_done := True\<rparr>"

section \<open>Media streams\<close>

record media_codec_info =
  mc_Name :: string
  mc_PayloadType :: byte
  mc_ClockRate :: u32

definition mediaCodecs :: "media_codec_info list" where
  "mediaCodecs =
     [\<lparr>mc_Name = ''H264'', mc_PayloadType = 96, mc_ClockRate = 90000\<rparr>,
      \<lparr>mc_Name = ''VP8'', mc_PayloadType = 97, mc_ClockRate = 90000\<rparr>,
      \<lparr>mc_Name = ''VP9'', mc_PayloadType = 98, mc_ClockRate = 90000\<rparr>,
      \<lparr>mc_Name = ''AV1'', mc_PayloadType = 35, mc_ClockRate = 90000\<rparr>]"

definition frameRates :: "nat list" where
  "frameRates = [25, 30, 60]"

text \<open>
  \<^verbatim>\<open>int(x)\<close> of a \<^verbatim>\<open>uint32\<close> on a platform whose \<^verbatim>\<open>int\<close> has \<open>w\<close> bits (32 or 64), and Go's
  remainder, which has the sign of the dividend. Indexing with a negative number panics,
  \<open>None\<close> here.
\<close>

definition go_int :: "nat \<Rightarrow> u32 \<Rightarrow> int" where
  "go_int w x = (if w = 32 then sint x else uint x)"

definition go_rem :: "int \<Rightarrow> int \<Rightarrow> int" where
  "go_rem a b = (if a < 0 then - ((- a) mod b) else a mod b)"

definition go_index :: "'a list \<Rightarrow> int \<Rightarrow> 'a option" where
  "go_index xs i = (if 0 \<le> i \<and> i < int (length xs) then Some (xs ! nat i) else None)"

definition selectCodec :: "nat \<Rightarrow> bytes \<Rightarrow> media_codec_info option" where
  "selectCodec w seed =
     (if length seed < 4 then go_index mediaCodecs 0
      else go_index mediaCodecs (go_rem (go_int w (be32 (take 4 seed))) (int (length mediaCodecs))))"

definition selectFrameRate :: "nat \<Rightarrow> bytes \<Rightarrow> nat option" where
  "selectFrameRate w seed =
     (if length seed < 8 then Some 30
      else go_index frameRates (go_rem (go_int w (be32 (take 4 (drop 4 seed)))) (int (length frameRates))))"

record rtp_packet =
  rp_Marker :: bool
  rp_PayloadType :: byte
  rp_SequenceNumber :: u16
  rp_Timestamp :: u32
  rp_SSRC :: u32
  rp_Payload :: bytes

record media_transport =
  mt_codec :: media_codec_info
  mt_clockRate :: u32
  mt_frameRate :: nat
  mt_ssrc :: u32
  mt_seqNum :: u16
  mt_timestamp :: u32
  mt_readCh :: "bytes list"
  mt_readBuf :: bytes
  mt_rtcpDone :: bool
  mt_done :: bool

text \<open>The SSRC comes from the seed when it is long enough, else from the draw \<open>rnd\<close>.\<close>

definition seed_ssrc :: "bytes \<Rightarrow> u32 \<Rightarrow> u32" where
  "seed_ssrc seed rnd = (if 12 \<le> length seed then be32 (take 4 (drop 8 seed)) else rnd)"

definition NewMediaStreamTransport ::
    "media_codec_info \<Rightarrow> nat \<Rightarrow> u32 \<Rightarrow> nat \<Rightarrow> u32 \<Rightarrow> media_transport" where
  "NewMediaStreamTransport codec frameRate ssrc seqDraw tsDraw =
     \<lparr>mt_codec = codec, mt_clockRate = mc_ClockRate codec, mt_frameRate = frameRate, mt_ssrc = ssrc,
      mt_seqNum = of_nat (seqDraw mod 65536), mt_timestamp = tsDraw, mt_readCh = [], mt_readBuf = [],
      mt_rtcpDone = False, mt_done = False\<rparr>"

definition writeRTP :: "bytes \<Rightarrow> media_transport \<Rightarrow> rtp_packet \<times> media_transport" where
  "writeRTP payload mt =
     (let mt1 = mt\<lparr>mt_seqNum := mt_seqNum mt + 1,
                   mt_timestamp := mt_timestamp mt + mt_clockRate mt div of_nat (mt_frameRate mt)\<rparr>
      in (\<lparr>rp_Marker = True, rp_PayloadType = mc_PayloadType (mt_codec mt), rp_SequenceNumber = mt_seqNum mt1,
           rp_Timestamp = mt_timestamp mt1, rp_SSRC = mt_ssrc mt, rp_Payload = payload\<rparr>, mt1))"

definition mt_write :: "bytes \<Rightarrow> io_error option \<Rightarrow> media_transport \<Rightarrow> (io_error + nat) \<times> rtp_packet option \<times> media_transport" where
  "mt_write p werr mt =
     (if mt_done mt then (Inl ErrClosedPipe, None, mt)
      else case writeRTP p mt of (pkt, mt') \<Rightarrow>
        (case werr of Some e \<Rightarrow> Inl e | None \<Rightarrow> Inr (length p), Some pkt, mt'))"

text \<open>
  One packet in \<^verbatim>\<open>readTrackLoop\<close>. The channel holds 4096 payloads; when it is full the loop
  waits, \<open>None\<close>.
\<close>

definition mt_track_packet :: "bytes \<Rightarrow> media_transport \<Rightarrow> media_transport option" where
  "mt_track_packet payload mt =
     (if mt_done mt then Some mt
      else if payload = [] then Some mt
      else if length (mt_readCh mt) < 4096 then Some (mt\<lparr>mt_readCh := mt_readCh mt @ [payload]\<rparr>)
      else None)"

text \<open>
  \<^verbatim>\<open>Read\<close>: when a payload is waiting and the transport is closed as well, the select may take
  either branch; \<open>pick\<close> says whether it takes the payload. \<open>None\<close>: it blocks.
\<close>

definition mt_read :: "nat \<Rightarrow> bool \<Rightarrow> media_transport \<Rightarrow> ((io_error + bytes) \<times> media_transport) option" where
  "mt_read n pick mt =
     (if 0 < length (mt_readBuf mt)
      then Some (Inr (take n (mt_readBuf mt)), mt\<lparr>mt_readBuf := drop n (mt_readBuf mt)\<rparr>)
      else case mt_readCh mt of
        [] \<Rightarrow> if mt_done mt then Some (Inl EOF, mt) else None
      | data # ch \<Rightarrow>
          if mt_done mt \<and> \<not> pick then Some (Inl EOF, mt)
          else let mt' = mt\<lparr>mt_readCh := ch\<rparr>
               in Some (Inr (take n data), if n < length data then mt'\<lparr>mt_readBuf := drop n data\<rparr> else mt'))"

definition mt_close :: "media_transport \<Rightarrow> media_transport" where
  "mt_close mt = (if mt_done mt then mt else mt\<lparr>mt_done := True, mt_rtcpDone := True\<rparr>)"

section \<open>Both are buffered readers\<close>

type_synonym dc_state = "dc_conn \<times> bytes list"

definition dc_inv :: "dc_state \<Rightarrow> bool" where
  "dc_inv s \<longleftrightarrow> length (dc_readBuf (fst s)) = 65536 \<and> dc_lo (fst s) \<le> dc_hi (fst s) \<and> dc_hi (fst s) \<le> 65536 \<and>
     list_all (\<lambda>m. m \<noteq> [] \<and> length m \<le> 65536) (snd s)"

definition dc_rest :: "dc_state \<Rightarrow> bytes" where
  "dc_rest s = dc_pending (fst s) @ concat (snd s)"

definition dc_rd :: "nat \<Rightarrow> dc_state \<Rightarrow> (bytes \<times> dc_state) option" where
  "dc_rd n s =
     (case dc_read n (fst s) (map Inr (snd s)) of
        Some (Inr b, c', inner) \<Rightarrow> Some (b, c', map projr inner)
      | _ \<Rightarrow> None)"

lemma projr_Inr [simp]: "map (projr \<circ> Inr) xs = xs"
  by (simp add: comp_def)

lemma dc_rd_pending:
  assumes "dc_inv (c, ms)" and "dc_pending c \<noteq> []"
  shows "dc_rd n (c, ms) = Some (take n (dc_pending c), c\<lparr>dc_lo := dc_lo c + min n (length (dc_pending c))\<rparr>, ms)"
    and "dc_pending (c\<lparr>dc_lo := dc_lo c + min n (length (dc_pending c))\<rparr>) = drop n (dc_pending c)"
    and "dc_inv (c\<lparr>dc_lo := dc_lo c + min n (length (dc_pending c))\<rparr>, ms)"
  using assms
  by (auto simp: dc_rd_def dc_read_def dc_inv_def dc_pending_def Let_def take_drop drop_drop min_def add.commute)

lemma dc_rd_none: "dc_pending c = [] \<Longrightarrow> dc_rd n (c, []) = None"
  by (simp add: dc_rd_def dc_read_def)

lemma dc_rd_message:
  assumes "dc_inv (c, m # ms)" and "dc_pending c = []"
  shows "\<exists>c'. dc_rd n (c, m # ms) = Some (take n m, c', ms) \<and> dc_pending c' = drop n m \<and> dc_inv (c', ms)"
proof -
  have "dc_lo c = dc_hi c" using assms by (auto simp: dc_inv_def dc_pending_def)
  then show ?thesis
    using assms
    by (cases "n < length m") (auto simp: dc_rd_def dc_read_def dc_inv_def dc_pending_def Let_def min_def)
qed

interpretation dc: buffered_reader dc_rd dc_rest dc_inv
proof
  fix s n b s'
  assume inv: "dc_inv s" and rd: "dc_rd n s = Some (b, s')"
  obtain c ms where s: "s = (c, ms)" by (cases s)
  have "dc_rest s = b @ dc_rest s' \<and> dc_inv s' \<and> length b \<le> n"
  proof (cases "dc_pending c = []")
    case False
    from dc_rd_pending [OF inv [unfolded s] False, of n] rd show ?thesis by (auto simp: s dc_rest_def)
  next
    case True
    show ?thesis
    proof (cases ms)
      case Nil
      with dc_rd_none [OF True] rd show ?thesis by (simp add: s)
    next
      case (Cons m ms')
      with dc_rd_message [of c m ms' n] inv rd True show ?thesis by (auto simp: s dc_rest_def)
    qed
  qed
  then show "dc_rest s = b @ dc_rest s'" "dc_inv s'" "length b \<le> n" by simp_all
next
  fix s and n :: nat
  assume inv: "dc_inv s" and ne: "dc_rest s \<noteq> []" and n: "0 < n"
  obtain c ms where s: "s = (c, ms)" by (cases s)
  show "\<exists>b s'. dc_rd n s = Some (b, s') \<and> b \<noteq> []"
  proof (cases "dc_pending c = []")
    case False
    from dc_rd_pending(1) [OF inv [unfolded s] False, of n] n False show ?thesis by (simp add: s)
  next
    case True
    with ne obtain m ms' where ms: "ms = m # ms'" by (cases ms) (auto simp: s dc_rest_def)
    then have m: "dc_inv (c, m # ms')" "m \<noteq> []" using inv by (auto simp: s dc_inv_def)
    from dc_rd_message [OF m(1) True, of n] show ?thesis using m(2) n by (auto simp: s ms)
  qed
qed

definition mt_inv :: "media_transport \<Rightarrow> bool" where
  "mt_inv mt \<longleftrightarrow> list_all (\<lambda>m. m \<noteq> []) (mt_readCh mt)"

definition mt_rest :: "media_transport \<Rightarrow> bytes" where
  "mt_rest mt = mt_readBuf mt @ concat (mt_readCh mt)"

definition mt_rd :: "nat \<Rightarrow> media_transport \<Rightarrow> (bytes \<times> media_transport) option" where
  "mt_rd n mt = (case mt_read n True mt of Some (Inr b, mt') \<Rightarrow> Some (b, mt') | _ \<Rightarrow> None)"

interpretation mt: buffered_reader mt_rd mt_rest mt_inv
  by unfold_locales
    (auto simp: mt_rd_def mt_read_def mt_rest_def mt_inv_def Let_def split: list.splits if_splits option.splits sum.splits)

section \<open>Lemmas\<close>

lemma dc_new_inv: "list_all (\<lambda>m. m \<noteq> [] \<and> length m \<le> 65536) ms \<Longrightarrow> dc_inv (newDCStreamConn f mx lw, ms)"
  by (simp add: dc_inv_def newDCStreamConn_def)

lemma dc_new_rest: "dc_rest (newDCStreamConn f mx lw, ms) = concat ms"
  by (simp add: dc_rest_def dc_pending_def newDCStreamConn_def)

text \<open>A blocked writer goes on only at or below the high-water mark.\<close>

lemma dc_wait_below: "dc_wait c obs = Some (Inr a) \<Longrightarrow> a \<le> dc_maxBuffered c"
  by (induction c obs rule: dc_wait.induct) (auto split: if_splits wake.splits)

lemma go_index_rem: "0 \<le> a \<Longrightarrow> 0 < length xs \<Longrightarrow> go_index xs (go_rem a (int (length xs))) = Some (xs ! nat (a mod int (length xs)))"
  by (simp add: go_index_def go_rem_def)

lemma go_index_rem_neg:
  assumes "a < 0" and "0 < length xs"
  shows "go_index xs (go_rem a (int (length xs))) = None \<longleftrightarrow> a mod int (length xs) \<noteq> 0"
proof -
  have "(- a) mod int (length xs) = 0 \<longleftrightarrow> a mod int (length xs) = 0"
    by (simp add: mod_eq_0_iff_dvd)
  moreover obtain r where "(- a) mod int (length xs) = r" "0 \<le> r" using assms(2) by simp
  ultimately show ?thesis using assms by (auto simp: go_index_def go_rem_def)
qed

text \<open>A run of RTP writes.\<close>

fun write_rtp_all :: "bytes list \<Rightarrow> media_transport \<Rightarrow> rtp_packet list \<times> media_transport" where
  "write_rtp_all [] mt = ([], mt)"
| "write_rtp_all (p # ps) mt =
     (case writeRTP p mt of (pkt, mt1) \<Rightarrow> (case write_rtp_all ps mt1 of (pkts, mt2) \<Rightarrow> (pkt # pkts, mt2)))"

section \<open>Properties\<close>

text \<open>
  C30: the stream over a data channel returns exactly the bytes of the messages, in order:
  reading in full the first \<open>n\<close> bytes of any run of messages gives those bytes, whatever the
  message boundaries, although the bytes kept back share the buffer that the next message is
  read into.
\<close>

theorem dc_stream_exact:
  assumes "list_all (\<lambda>m. m \<noteq> [] \<and> length m \<le> 65536) ms" and "n \<le> length (concat ms)"
  shows "\<exists>s. full_loop dc_rd n n (newDCStreamConn f mx lw, ms) = Some (take n (concat ms), s) \<and>
             dc_rest s = drop n (concat ms)"
  using dc.full_loop_reads [OF dc_new_inv [OF assms(1)], of n f mx lw n] assms(2) by (auto simp: dc_new_rest)

theorem dc_stream_exact_witness:
  "\<exists>s. full_loop dc_rd 3 3 (newDCStreamConn True 0 0, [[1, 2], [3, 4, 5]]) = Some (take 3 (concat [[1, 2], [3, 4, 5]]), s) \<and>
       dc_rest s = drop 3 (concat [[1, 2], [3, 4, 5]])"
  by (rule dc_stream_exact) simp_all

text \<open>
  the codec choice never fails where \<^verbatim>\<open>int\<close> has 64 bits; where it has 32 bits it panics on
  exactly those seeds whose first word is negative as a signed number and not a multiple of
  4 (three eighths of all seeds).
\<close>

lemma selectCodec_total_iff:
  "(\<exists>c \<in> set mediaCodecs. selectCodec 64 seed = Some c) \<and>
   (selectCodec 32 seed = None \<longleftrightarrow>
      4 \<le> length seed \<and> sint (be32 (take 4 seed)) < 0 \<and> sint (be32 (take 4 seed)) mod 4 \<noteq> 0)"
proof -
  have len: "length mediaCodecs = 4" by (simp add: mediaCodecs_def)
  have "selectCodec 64 seed = Some (mediaCodecs ! nat (uint (be32 (take 4 seed)) mod 4))" if "\<not> length seed < 4"
    using go_index_rem [of "uint (be32 (take 4 seed))" mediaCodecs] that by (simp add: selectCodec_def go_int_def len)
  moreover have "nat (uint (be32 (take 4 seed)) mod 4) < length mediaCodecs" by (simp add: len nat_less_iff)
  moreover have "selectCodec w seed = Some (mediaCodecs ! 0)" if "length seed < 4" for w
    using that by (simp add: selectCodec_def go_index_def len)
  ultimately have "\<exists>c \<in> set mediaCodecs. selectCodec 64 seed = Some c"
    by (cases "length seed < 4") (auto simp: len)
  moreover have "selectCodec 32 seed = None \<longleftrightarrow>
      4 \<le> length seed \<and> sint (be32 (take 4 seed)) < 0 \<and> sint (be32 (take 4 seed)) mod 4 \<noteq> 0"
    using go_index_rem_neg [of "sint (be32 (take 4 seed))" mediaCodecs]
      go_index_rem [of "sint (be32 (take 4 seed))" mediaCodecs]
    by (cases "length seed < 4"; cases "sint (be32 (take 4 seed)) < 0")
      (auto simp: selectCodec_def go_int_def len go_index_def)
  ultimately show ?thesis by blast
qed

text \<open>
  the packets of a run of writes have consecutive 16-bit sequence numbers and timestamps
  that advance by one frame period each, both modulo their width, and carry the payloads in
  order.
\<close>

lemma rtp_headers_advance:
  assumes "i < length ps"
  shows "fst (write_rtp_all ps mt) ! i =
           \<lparr>rp_Marker = True, rp_PayloadType = mc_PayloadType (mt_codec mt),
            rp_SequenceNumber = mt_seqNum mt + of_nat (Suc i),
            rp_Timestamp = mt_timestamp mt + of_nat (Suc i) * (mt_clockRate mt div of_nat (mt_frameRate mt)),
            rp_SSRC = mt_ssrc mt, rp_Payload = ps ! i\<rparr>"
  using assms
proof (induction ps arbitrary: mt i)
  case (Cons p ps)
  show ?case
  proof (cases i)
    case 0
    then show ?thesis by (simp add: writeRTP_def Let_def case_prod_unfold)
  next
    case (Suc j)
    then have "j < length ps" using Cons.prems by simp
    from Cons.IH [OF this, of "snd (writeRTP p mt)"] show ?thesis
      by (simp add: Suc writeRTP_def Let_def case_prod_unfold algebra_simps)
  qed
qed simp

end
