(* ===== verification/Peer_Session.thy ===== *)
theory Peer_Session
  imports Socks5 Padding
begin

text \<open>
  One peer connection, server side (\<^verbatim>\<open>golib/webrtc/server.go\<close>) and client side
  (\<^verbatim>\<open>golib/webrtc/client.go\<close>): the ICE and connection state handlers, the channel counters
  that signal readiness, the choice of the multiplexer session for a new stream, dialling a
  target, teardown, stream admission and the accounting of bytes; and the connection wrappers
  of \<^verbatim>\<open>throttle.go\<close> and \<^verbatim>\<open>activity.go\<close>. What smux and pion answer at a call are arguments.
\<close>

section \<open>State\<close>

text \<open>A multiplexer session as a call sees it: closed, its streams, and what \<^verbatim>\<open>OpenStream\<close> answers.\<close>

record smux_session =
  ss_closed :: bool
  ss_streams :: nat
  ss_open :: "io_error option"

datatype transport_mode = TransportDataChannels | TransportMediaStream

datatype ice_state =
    ICENew | ICEChecking | ICEConnected | ICECompleted | ICEDisconnected | ICEFailed | ICEClosed

datatype pc_state = PCNew | PCConnecting | PCConnected | PCDisconnected | PCFailed | PCClosed

text \<open>The channels \<^verbatim>\<open>connected\<close>, \<^verbatim>\<open>failed\<close> and \<^verbatim>\<open>done\<close> are booleans: closed or not.\<close>

record peer =
  pe_numChannels :: nat
  pe_sessions :: "smux_session list"
  pe_alive :: bool
  pe_connected :: bool
  pe_failed :: bool
  pe_done :: bool
  pe_mode :: transport_mode
  pe_mediaStarted :: bool
  pe_reconnects :: nat
  pe_hasReconnect :: bool
  pe_nextSession :: u32
  pe_padding :: bool
  pe_paddingMax :: int

definition closeSessions :: "peer \<Rightarrow> peer" where
  "closeSessions p = p\<lparr>pe_sessions := []\<rparr>"

section \<open>State handlers\<close>

definition server_ice :: "ice_state \<Rightarrow> peer \<Rightarrow> peer" where
  "server_ice st s =
     (case st of
        ICEConnected \<Rightarrow> s\<lparr>pe_alive := True\<rparr>
      | ICECompleted \<Rightarrow> s\<lparr>pe_alive := True\<rparr>
      | ICEDisconnected \<Rightarrow> s\<lparr>pe_alive := False\<rparr>
      | ICEFailed \<Rightarrow> closeSessions (s\<lparr>pe_alive := False, pe_failed := True\<rparr>)
      | ICEClosed \<Rightarrow> closeSessions (s\<lparr>pe_alive := False, pe_failed := True\<rparr>)
      | _ \<Rightarrow> s)"

text \<open>The media set-up runs once and appends the session it creates, \<open>Some\<close> one if it succeeds.\<close>

definition setupMedia :: "smux_session option \<Rightarrow> peer \<Rightarrow> peer" where
  "setupMedia new s =
     (if pe_mode s = TransportMediaStream \<and> \<not> pe_mediaStarted s
      then (let s' = s\<lparr>pe_mediaStarted := True\<rparr>
            in case new of None \<Rightarrow> s' | Some sess \<Rightarrow> s'\<lparr>pe_sessions := pe_sessions s' @ [sess], pe_connected := True\<rparr>)
      else s)"

definition server_pc :: "pc_state \<Rightarrow> smux_session option \<Rightarrow> peer \<Rightarrow> peer" where
  "server_pc st new s =
     (case st of
        PCConnected \<Rightarrow> setupMedia new s
      | PCFailed \<Rightarrow> closeSessions (s\<lparr>pe_alive := False, pe_failed := True\<rparr>)
      | PCClosed \<Rightarrow> closeSessions (s\<lparr>pe_alive := False, pe_failed := True\<rparr>)
      | _ \<Rightarrow> s)"

definition client_ice :: "ice_state \<Rightarrow> peer \<Rightarrow> peer" where
  "client_ice st c =
     (case st of
        ICEConnected \<Rightarrow> c\<lparr>pe_alive := True\<rparr>
      | ICECompleted \<Rightarrow> c\<lparr>pe_alive := True\<rparr>
      | ICEFailed \<Rightarrow>
          (let c' = c\<lparr>pe_alive := False, pe_failed := True\<rparr>
           in if pe_hasReconnect c' then c'\<lparr>pe_reconnects := pe_reconnects c' + 1\<rparr> else closeSessions c')
      | ICEClosed \<Rightarrow> closeSessions (c\<lparr>pe_alive := False, pe_failed := True\<rparr>)
      | _ \<Rightarrow> c)"

definition client_pc :: "pc_state \<Rightarrow> smux_session option \<Rightarrow> peer \<Rightarrow> peer" where
  "client_pc st new c =
     (case st of
        PCConnected \<Rightarrow> setupMedia new c
      | PCFailed \<Rightarrow> c\<lparr>pe_failed := True\<rparr>
      | PCClosed \<Rightarrow> c\<lparr>pe_failed := True\<rparr>
      | _ \<Rightarrow> c)"

section \<open>Streams\<close>

datatype dial_error = NoSessions | OpenFailed io_error | HeaderFailed pad_error | NoClients

definition maxInt :: nat where
  "maxInt = 2 ^ 63 - 1"

text \<open>The scan for the open session with the fewest streams, with its running best.\<close>

fun best_session :: "smux_session list \<Rightarrow> nat \<Rightarrow> smux_session option \<Rightarrow> smux_session option" where
  "best_session [] bestCount best = best"
| "best_session (s # ss) bestCount best =
     (if ss_closed s then best_session ss bestCount best
      else if ss_streams s < bestCount then best_session ss (ss_streams s) (Some s)
      else best_session ss bestCount best)"

definition open_on :: "smux_session \<Rightarrow> dial_error + smux_session" where
  "open_on s = (case ss_open s of Some e \<Rightarrow> Inl (OpenFailed e) | None \<Rightarrow> Inr s)"

definition openStream :: "peer \<Rightarrow> (dial_error + smux_session) \<times> peer" where
  "openStream c =
     (let sessions = pe_sessions c
      in if length sessions = 0 then (Inl NoSessions, c)
         else if length sessions = 1 then (open_on (sessions ! 0), c)
         else case best_session sessions maxInt None of
                None \<Rightarrow>
                  let n = pe_nextSession c + 1
                  in (open_on (sessions ! unat (n mod of_nat (length sessions))), c\<lparr>pe_nextSession := n\<rparr>)
              | Some best \<Rightarrow> (open_on best, c))"

text \<open>
  \<^verbatim>\<open>DialStream\<close>: the header goes through the padded stream when padding is on; the result is
  what was written to the multiplexer stream, whose sink starts empty and may fail.
\<close>

definition DialStream :: "bytes \<Rightarrow> pad_rand \<Rightarrow> io_error option \<Rightarrow> peer \<Rightarrow> (dial_error + sink) \<times> peer" where
  "DialStream target rnd werr c =
     (case openStream c of
        (Inl e, c') \<Rightarrow> (Inl e, c')
      | (Inr _, c') \<Rightarrow>
          let paddingMax = (if pe_paddingMax c = 0 \<and> pe_padding c then 256 else pe_paddingMax c);
              sk = \<lparr>sk_out = [], sk_err = werr\<rparr>
          in if pe_padding c then
               (case PadWrite (target_header target) rnd (newPaddedStream 0 paddingMax) sk of
                  (Inl e, _, _) \<Rightarrow> (Inl (HeaderFailed e), c')
                | (Inr _, _, sk') \<Rightarrow> (Inr sk', c'))
             else
               (case sink_write (target_header target) sk of
                  (Inl e, _) \<Rightarrow> (Inl (HeaderFailed e), c')
                | (Inr _, sk') \<Rightarrow> (Inr sk', c')))"

definition GetStreamCount :: "peer \<Rightarrow> nat" where
  "GetStreamCount c = fold (\<lambda>s total. total + ss_streams s) (pe_sessions c) 0"

section \<open>Readiness\<close>

text \<open>
  Every data channel reports in its own goroutine: it adds to one of two atomic counters and
  then runs \<^verbatim>\<open>checkAllChannelsReady\<close>, which loads the counters one at a time. A goroutine's
  place in that code, with what it has loaded so far:
\<close>

datatype check_pc = Starting | Counted | LoadedReady nat | LoadedTotal nat | Finished

record readiness =
  rs_pc :: "nat \<Rightarrow> check_pc"
  rs_ready :: nat
  rs_failed :: nat
  rs_connected :: bool

definition readiness0 :: readiness where
  "readiness0 = \<lparr>rs_pc = (\<lambda>_. Starting), rs_ready = 0, rs_failed = 0, rs_connected = False\<rparr>"

text \<open>One step of the goroutine of channel \<open>i\<close>; \<open>ok i\<close> says whether its session was created.\<close>

definition check_step :: "nat \<Rightarrow> (nat \<Rightarrow> bool) \<Rightarrow> nat \<Rightarrow> readiness \<Rightarrow> readiness" where
  "check_step numChannels ok i s =
     (case rs_pc s i of
        Starting \<Rightarrow>
          (if ok i then s\<lparr>rs_ready := rs_ready s + 1, rs_pc := (rs_pc s)(i := Counted)\<rparr>
           else s\<lparr>rs_failed := rs_failed s + 1, rs_pc := (rs_pc s)(i := Counted)\<rparr>)
      | Counted \<Rightarrow> s\<lparr>rs_pc := (rs_pc s)(i := LoadedReady (rs_ready s))\<rparr>
      | LoadedReady r \<Rightarrow> s\<lparr>rs_pc := (rs_pc s)(i := LoadedTotal (r + rs_failed s))\<rparr>
      | LoadedTotal t \<Rightarrow>
          s\<lparr>rs_connected := rs_connected s \<or> (t = numChannels \<and> 0 < rs_ready s),
            rs_pc := (rs_pc s)(i := Finished)\<rparr>
      | Finished \<Rightarrow> s)"

inductive check_reachable :: "nat \<Rightarrow> (nat \<Rightarrow> bool) \<Rightarrow> readiness \<Rightarrow> bool" for n ok where
  cr_init: "check_reachable n ok readiness0"
| cr_step: "check_reachable n ok s \<Longrightarrow> i < n \<Longrightarrow> check_reachable n ok (check_step n ok i s)"

section \<open>Stopping\<close>

text \<open>
  \<^verbatim>\<open>Server.Stop\<close> looks whether \<^verbatim>\<open>done\<close> is closed and then closes it, in two steps; closing it
  again panics. \<^verbatim>\<open>Client.Stop\<close> does both inside a \<^verbatim>\<open>sync.Once\<close>, one step.
\<close>

datatype stop_pc = StopEntered | StopChecked | StopReturned | StopPanicked

definition server_stop_step :: "nat \<Rightarrow> bool \<times> (nat \<Rightarrow> stop_pc) \<Rightarrow> bool \<times> (nat \<Rightarrow> stop_pc)" where
  "server_stop_step i s = (case s of (dn, pc) \<Rightarrow>
     (case pc i of
        StopEntered \<Rightarrow> (dn, pc(i := if dn then StopReturned else StopChecked))
      | StopChecked \<Rightarrow> (True, pc(i := if dn then StopPanicked else StopReturned))
      | _ \<Rightarrow> (dn, pc)))"

definition client_stop_step :: "nat \<Rightarrow> bool \<times> (nat \<Rightarrow> stop_pc) \<Rightarrow> bool \<times> (nat \<Rightarrow> stop_pc)" where
  "client_stop_step i s = (case s of (dn, pc) \<Rightarrow>
     (case pc i of StopEntered \<Rightarrow> (True, pc(i := StopReturned)) | _ \<Rightarrow> (dn, pc)))"

section \<open>Admission and accounting\<close>

text \<open>
  \<^verbatim>\<open>makeSemaphore\<close> and \<^verbatim>\<open>acceptLoop\<close>: with a limit, a stream takes a token before it is counted
  active, and gives it back after it is counted inactive again. \<open>ad_taken\<close>, \<open>ad_running\<close> and
  \<open>ad_ending\<close> are the streams that hold a token before, while and after being active.
\<close>

definition makeSemaphore :: "int \<Rightarrow> nat option" where
  "makeSemaphore n = (if n \<le> 0 then None else Some (nat n))"

record admission =
  ad_cap :: "nat option"
  ad_tokens :: nat
  ad_active :: nat
  ad_taken :: nat
  ad_running :: nat
  ad_ending :: nat

definition admission0 :: "int \<Rightarrow> admission" where
  "admission0 n = \<lparr>ad_cap = makeSemaphore n, ad_tokens = 0, ad_active = 0, ad_taken = 0, ad_running = 0, ad_ending = 0\<rparr>"

inductive ad_step :: "admission \<Rightarrow> admission \<Rightarrow> bool" where
  acquire: "(case ad_cap a of None \<Rightarrow> True | Some c \<Rightarrow> ad_tokens a < c) \<Longrightarrow>
    ad_step a (a\<lparr>ad_tokens := ad_tokens a + 1, ad_taken := ad_taken a + 1\<rparr>)"
| activate: "0 < ad_taken a \<Longrightarrow>
    ad_step a (a\<lparr>ad_active := ad_active a + 1, ad_taken := ad_taken a - 1, ad_running := ad_running a + 1\<rparr>)"
| deactivate: "0 < ad_running a \<Longrightarrow>
    ad_step a (a\<lparr>ad_active := ad_active a - 1, ad_running := ad_running a - 1, ad_ending := ad_ending a + 1\<rparr>)"
| release: "0 < ad_ending a \<Longrightarrow>
    ad_step a (a\<lparr>ad_tokens := ad_tokens a - 1, ad_ending := ad_ending a - 1\<rparr>)"

inductive ad_reachable :: "int \<Rightarrow> admission \<Rightarrow> bool" for n where
  ad_init: "ad_reachable n (admission0 n)"
| ad_next: "ad_reachable n a \<Longrightarrow> ad_step a a' \<Longrightarrow> ad_reachable n a'"

text \<open>
  The byte counters of the server and of its streams. \<open>count_add\<close> is the guard of
  \<^verbatim>\<open>countingRWC\<close>; the end of a stream sorts its download into a category by port and size.
\<close>

record srv_stats =
  sv_bytesUp :: int
  sv_bytesDown :: int
  sv_web :: int
  sv_video :: int
  sv_other :: int
  sv_streamDown :: "nat \<Rightarrow> int"
  sv_ended :: "nat \<Rightarrow> bool"

definition srv_stats0 :: srv_stats where
  "srv_stats0 = \<lparr>sv_bytesUp = 0, sv_bytesDown = 0, sv_web = 0, sv_video = 0, sv_other = 0,
                 sv_streamDown = (\<lambda>_. 0), sv_ended = (\<lambda>_. False)\<rparr>"

definition count_add :: "int \<Rightarrow> int \<Rightarrow> int" where
  "count_add acc n = (if 0 < n then acc + n else acc)"

definition videoThreshold :: int where
  "videoThreshold = 10 * 1024 * 1024"

definition classify_down :: "int \<Rightarrow> int \<Rightarrow> srv_stats \<Rightarrow> srv_stats" where
  "classify_down port down s =
     (if down \<le> 0 then s
      else if port = 443 \<and> videoThreshold \<le> down then s\<lparr>sv_video := sv_video s + down\<rparr>
      else if port = 80 \<or> port = 443 then s\<lparr>sv_web := sv_web s + down\<rparr>
      else s\<lparr>sv_other := sv_other s + down\<rparr>)"

datatype stream_event = StreamRead nat int | StreamWrite nat int | StreamEnd nat int

fun stream_step :: "stream_event \<Rightarrow> srv_stats \<Rightarrow> srv_stats" where
  "stream_step (StreamRead i n) s = s\<lparr>sv_bytesUp := count_add (sv_bytesUp s) n\<rparr>"
| "stream_step (StreamWrite i n) s =
     s\<lparr>sv_bytesDown := count_add (sv_bytesDown s) n,
       sv_streamDown := (sv_streamDown s)(i := count_add (sv_streamDown s i) n)\<rparr>"
| "stream_step (StreamEnd i port) s =
     (classify_down port (sv_streamDown s i) s)\<lparr>sv_ended := (sv_ended s)(i := True)\<rparr>"

section \<open>Connection wrappers\<close>

text \<open>
  \<^verbatim>\<open>throttledConn\<close>: a direction with a positive limit waits for tokens first. The limiter is an
  argument: what \<^verbatim>\<open>WaitN\<close> answers for a burst size and a number of bytes.
\<close>

definition throttled_write ::
    "(int \<Rightarrow> nat \<Rightarrow> io_error option) \<Rightarrow> int \<Rightarrow> bytes \<Rightarrow> io_error + nat \<Rightarrow> (io_error + nat) \<times> bytes option" where
  "throttled_write waitN up p answer =
     (if 0 < up then
        (case waitN up (length p) of Some e \<Rightarrow> (Inl e, None) | None \<Rightarrow> (answer, Some p))
      else (answer, Some p))"

definition throttled_read ::
    "(int \<Rightarrow> nat \<Rightarrow> io_error option) \<Rightarrow> int \<Rightarrow> bytes \<times> io_error option \<Rightarrow> bytes \<times> io_error option" where
  "throttled_read waitN down r =
     (case r of (b, err) \<Rightarrow>
        if b \<noteq> [] \<and> 0 < down then (case waitN down (length b) of Some e \<Rightarrow> (b, Some e) | None \<Rightarrow> (b, err))
        else (b, err))"

text \<open>The limiter's documentation: a request above the burst size fails.\<close>

definition limiter_doc :: "(int \<Rightarrow> nat \<Rightarrow> io_error option) \<Rightarrow> bool" where
  "limiter_doc waitN \<longleftrightarrow> (\<forall>burst n. burst < int n \<longrightarrow> waitN burst n \<noteq> None)"

text \<open>\<^verbatim>\<open>activityConn\<close>: the time of the last I/O and the time the timer is set for.\<close>

record activity_conn =
  ac_timeout :: duration
  ac_last :: instant
  ac_timer :: instant
  ac_closed :: bool

definition newActivityConn :: "duration \<Rightarrow> instant \<Rightarrow> activity_conn" where
  "newActivityConn timeout now =
     \<lparr>ac_timeout = timeout, ac_last = now, ac_timer = now + timeout, ac_closed = False\<rparr>"

definition checkInactivity :: "instant \<Rightarrow> activity_conn \<Rightarrow> activity_conn" where
  "checkInactivity now ac =
     (let elapsed = now - ac_last ac
      in if ac_timeout ac \<le> elapsed then ac\<lparr>ac_closed := True\<rparr>
         else ac\<lparr>ac_timer := now + (ac_timeout ac - elapsed)\<rparr>)"

definition ac_io :: "instant \<Rightarrow> nat \<Rightarrow> activity_conn \<Rightarrow> activity_conn" where
  "ac_io now n ac = (if 0 < n then ac\<lparr>ac_last := now\<rparr> else ac)"

text \<open>Time passes: the timer fires whenever it is due, at the time it was set for.\<close>

definition fire_due :: "instant \<Rightarrow> activity_conn \<Rightarrow> activity_conn" where
  "fire_due now ac = (if \<not> ac_closed ac \<and> ac_timer ac \<le> now then checkInactivity (ac_timer ac) ac else ac)"

fun ac_run :: "(instant \<times> nat) list \<Rightarrow> activity_conn \<Rightarrow> activity_conn" where
  "ac_run [] ac = ac"
| "ac_run ((t, n) # es) ac = ac_run es (ac_io t n (fire_due t (fire_due t ac)))"

section \<open>Invariants\<close>

definition reported :: "nat \<Rightarrow> readiness \<Rightarrow> nat set" where
  "reported n s = {i. i < n \<and> rs_pc s i \<noteq> Starting}"

definition counters_inv :: "nat \<Rightarrow> (nat \<Rightarrow> bool) \<Rightarrow> readiness \<Rightarrow> bool" where
  "counters_inv n ok s \<longleftrightarrow>
     rs_ready s = card (reported n s \<inter> Collect ok) \<and> rs_failed s = card (reported n s - Collect ok) \<and>
     (\<forall>i r. rs_pc s i = LoadedReady r \<longrightarrow> r \<le> rs_ready s) \<and>
     (\<forall>i t. rs_pc s i = LoadedTotal t \<longrightarrow> t \<le> rs_ready s + rs_failed s)"

definition signal_inv :: "nat \<Rightarrow> readiness \<Rightarrow> bool" where
  "signal_inv n s \<longleftrightarrow>
     (rs_connected s \<longrightarrow> reported n s = {..<n} \<and> 0 < rs_ready s) \<and>
     (reported n s = {..<n} \<and> 0 < rs_ready s \<longrightarrow>
        rs_connected s \<or>
        (\<exists>i < n. rs_pc s i = Counted \<or> rs_pc s i = LoadedReady (rs_ready s) \<or> rs_pc s i = LoadedTotal n))"

lemma reported_finite [simp]: "finite (reported n s)"
  by (simp add: reported_def)

lemma card_split: "finite A \<Longrightarrow> card (A \<inter> B) + card (A - B) = card A"
  by (metis card_Int_Diff)

lemma reported_all_iff: "reported n s = {..<n} \<longleftrightarrow> card (reported n s) = n"
proof
  assume "card (reported n s) = n"
  moreover have "reported n s \<subseteq> {..<n}" by (auto simp: reported_def)
  ultimately show "reported n s = {..<n}" by (intro card_subset_eq) auto
qed simp

lemma counters_total: "counters_inv n ok s \<Longrightarrow> rs_ready s + rs_failed s = card (reported n s)"
  by (simp add: counters_inv_def card_split)

lemma reported_step:
  "i < n \<Longrightarrow> reported n (s\<lparr>rs_pc := (rs_pc s)(i := x)\<rparr>) = (if x = Starting then reported n s - {i} else insert i (reported n s))"
  by (auto simp: reported_def)

text \<open>The counting step.\<close>

lemma count_inv:
  assumes "counters_inv n ok s" and "signal_inv n s" and "i < n" and "rs_pc s i = Starting"
  shows "counters_inv n ok (check_step n ok i s) \<and> signal_inv n (check_step n ok i s)"
proof -
  let ?s = "check_step n ok i s"
  have ni: "i \<notin> reported n s" using assms(4) by (simp add: reported_def)
  have rep: "reported n ?s = insert i (reported n s)"
    using assms(3,4) by (auto simp: check_step_def reported_def)
  have "rs_ready ?s = card (reported n ?s \<inter> Collect ok)" "rs_failed ?s = card (reported n ?s - Collect ok)"
    unfolding rep using assms ni by (auto simp: check_step_def counters_inv_def insert_Diff_if)
  moreover have "rs_pc ?s j = LoadedReady r \<Longrightarrow> r \<le> rs_ready ?s" "rs_pc ?s j = LoadedTotal t \<Longrightarrow> t \<le> rs_ready ?s + rs_failed ?s" for j r t
    using assms by (auto simp: check_step_def counters_inv_def split: if_splits intro: le_SucI)
  ultimately have "counters_inv n ok ?s" by (simp add: counters_inv_def)
  moreover have "\<not> rs_connected ?s"
    using assms ni by (auto simp: signal_inv_def check_step_def)
  moreover have "rs_pc ?s i = Counted" using assms(4) by (simp add: check_step_def)
  ultimately show ?thesis using assms(3) by (auto simp: signal_inv_def)
qed

text \<open>The loads and the final test leave the counters alone.\<close>

lemma load_inv:
  assumes inv: "counters_inv n ok s" "signal_inv n s" and i: "i < n" "rs_pc s i \<noteq> Starting"
  shows "counters_inv n ok (check_step n ok i s) \<and> signal_inv n (check_step n ok i s)"
proof -
  let ?s = "check_step n ok i s"
  have same: "rs_ready ?s = rs_ready s" "rs_failed ?s = rs_failed s" "reported n ?s = reported n s"
    using i by (auto simp: check_step_def reported_def split: check_pc.splits)
  have other: "rs_pc ?s j = rs_pc s j" if "j \<noteq> i" for j
    using that by (auto simp: check_step_def split: check_pc.splits)
  have tot: "rs_ready s + rs_failed s = card (reported n s)" using inv(1) by (rule counters_total)
  have c: "counters_inv n ok ?s"
    using inv(1) unfolding counters_inv_def same
    by (auto simp: check_step_def split: check_pc.splits if_splits)
  have conn: "rs_connected ?s \<longleftrightarrow> rs_connected s \<or> (rs_pc s i = LoadedTotal n \<and> 0 < rs_ready s)"
    by (auto simp: check_step_def split: check_pc.splits)
  have all: "reported n s = {..<n}" if "rs_pc s i = LoadedTotal n"
  proof -
    have "n \<le> card (reported n s)" using inv(1) that tot by (auto simp: counters_inv_def)
    moreover have "card (reported n s) \<le> card {..<n}" by (rule card_mono) (auto simp: reported_def)
    ultimately show ?thesis by (simp add: reported_all_iff)
  qed
  have "rs_connected ?s \<or> (\<exists>j < n. rs_pc ?s j = Counted \<or> rs_pc ?s j = LoadedReady (rs_ready s) \<or> rs_pc ?s j = LoadedTotal n)"
    if full: "reported n s = {..<n}" "0 < rs_ready s"
  proof -
    have n: "rs_ready s + rs_failed s = n" using tot full(1) by simp
    from inv(2) full consider "rs_connected s"
      | j where "j < n" "rs_pc s j = Counted \<or> rs_pc s j = LoadedReady (rs_ready s) \<or> rs_pc s j = LoadedTotal n"
      unfolding signal_inv_def by blast
    then show ?thesis
    proof cases
      case 1
      then show ?thesis by (simp add: conn)
    next
      case 2
      show ?thesis
      proof (cases "j = i")
        case False
        with 2 other [OF False] show ?thesis by auto
      next
        case True
        with 2 full(2) n i(1) show ?thesis by (auto simp: check_step_def)
      qed
    qed
  qed
  then have "signal_inv n ?s"
    using inv(2) all unfolding signal_inv_def same conn by blast
  with c show ?thesis by blast
qed

lemma check_inv: "check_reachable n ok s \<Longrightarrow> counters_inv n ok s \<and> signal_inv n s"
proof (induction rule: check_reachable.induct)
  case cr_init
  show ?case by (auto simp: counters_inv_def signal_inv_def readiness0_def reported_def)
next
  case (cr_step s i)
  then show ?case using count_inv load_inv by (cases "rs_pc s i = Starting") blast+
qed

lemma ad_inv:
  "ad_reachable n a \<Longrightarrow>
     ad_cap a = makeSemaphore n \<and> ad_tokens a = ad_taken a + ad_running a + ad_ending a \<and>
     ad_active a = ad_running a \<and> (\<forall>c. ad_cap a = Some c \<longrightarrow> ad_tokens a \<le> c)"
proof (induction rule: ad_reachable.induct)
  case ad_init
  show ?case by (simp add: admission0_def)
next
  case (ad_next a a')
  from ad_next.hyps(2) ad_next.IH show ?case by (cases rule: ad_step.cases) auto
qed

text \<open>Bytes already sorted and bytes of the streams still open make up the total.\<close>

definition open_down :: "srv_stats \<Rightarrow> nat \<Rightarrow> int" where
  "open_down s i = (if sv_ended s i then 0 else sv_streamDown s i)"

definition stats_inv :: "nat \<Rightarrow> srv_stats \<Rightarrow> bool" where
  "stats_inv n s \<longleftrightarrow>
     sv_bytesDown s = sv_web s + sv_video s + sv_other s + sum (open_down s) {..<n} \<and>
     (\<forall>i. 0 \<le> sv_streamDown s i)"

fun event_stream :: "stream_event \<Rightarrow> nat" where
  "event_stream (StreamRead i _) = i"
| "event_stream (StreamWrite i _) = i"
| "event_stream (StreamEnd i _) = i"

text \<open>No event of a stream comes after its end.\<close>

fun events_ok :: "nat \<Rightarrow> stream_event list \<Rightarrow> srv_stats \<Rightarrow> bool" where
  "events_ok n [] s \<longleftrightarrow> True"
| "events_ok n (e # es) s \<longleftrightarrow> event_stream e < n \<and> \<not> sv_ended s (event_stream e) \<and> events_ok n es (stream_step e s)"

lemma sum_upd: "i < n \<Longrightarrow> sum (f(i := x)) {..<n} = sum f {..<n} - f i + (x :: int)" for i n :: nat
proof -
  assume i: "i < n"
  have "sum (f(i := x)) {..<n} = x + sum (f(i := x)) ({..<n} - {i})"
    using i by (subst sum.remove [of _ i]) auto
  also have "sum (f(i := x)) ({..<n} - {i}) = sum f ({..<n} - {i})" by (rule sum.cong) auto
  also have "\<dots> = sum f {..<n} - f i" using i by (subst sum.remove [of "{..<n}" i]) auto
  finally show ?thesis by simp
qed

lemma open_down_step:
  "open_down (stream_step (StreamRead i m) s) = open_down s"
  "\<not> sv_ended s i \<Longrightarrow> open_down (stream_step (StreamWrite i m) s) = (open_down s)(i := count_add (sv_streamDown s i) m)"
  "open_down (stream_step (StreamEnd i p) s) = (open_down s)(i := 0)"
  by (auto simp: open_down_def classify_down_def fun_eq_iff)

lemma stats_step:
  assumes "stats_inv n s" and i: "event_stream e < n" "\<not> sv_ended s (event_stream e)"
  shows "stats_inv n (stream_step e s)"
proof (cases e)
  case (StreamRead j m)
  then show ?thesis using assms open_down_step(1) [of j m s] by (simp add: stats_inv_def)
next
  case (StreamWrite j m)
  then show ?thesis
    using assms sum_upd [of j n "open_down s" "count_add (sv_streamDown s j) m"] open_down_step(2) [of s j m]
    by (simp add: stats_inv_def) (auto simp: count_add_def open_down_def)
next
  case (StreamEnd j port)
  then show ?thesis
    using assms sum_upd [of j n "open_down s" 0] open_down_step(3) [of j port s]
    by (simp add: stats_inv_def) (auto simp: classify_down_def open_down_def order.antisym)
qed

lemma stats_run: "stats_inv n s \<Longrightarrow> events_ok n es s \<Longrightarrow> stats_inv n (fold stream_step es s)"
  by (induction es arbitrary: s) (auto simp: stats_step)

text \<open>The timer is exact.\<close>

lemma fire_twice:
  assumes "ac_timer ac \<le> ac_last ac + ac_timeout ac" and "\<not> ac_closed ac"
  shows "ac_closed (fire_due now (fire_due now ac)) \<longleftrightarrow> ac_last ac + ac_timeout ac \<le> now"
    and "ac_timer (fire_due now (fire_due now ac)) \<le> ac_last ac + ac_timeout ac"
    and "ac_last (fire_due now (fire_due now ac)) = ac_last ac" "ac_timeout (fire_due now (fire_due now ac)) = ac_timeout ac"
  using assms by (auto simp: fire_due_def checkInactivity_def Let_def)

lemma closed_stays: "ac_closed ac \<Longrightarrow> ac_closed (ac_run es ac)"
proof (induction es arbitrary: ac)
  case (Cons e es)
  then show ?case by (cases e) (simp add: fire_due_def ac_io_def)
qed simp

fun idle_gap :: "duration \<Rightarrow> instant \<Rightarrow> (instant \<times> nat) list \<Rightarrow> bool" where
  "idle_gap timeout t0 [] \<longleftrightarrow> False"
| "idle_gap timeout t0 ((t, n) # es) \<longleftrightarrow>
     t0 + timeout \<le> t \<or> idle_gap timeout (if 0 < n then t else t0) es"

lemma ac_run_gap:
  assumes "\<not> ac_closed ac" and "ac_timer ac \<le> ac_last ac + ac_timeout ac" and "sorted (ac_last ac # map fst es)"
  shows "ac_closed (ac_run es ac) \<longleftrightarrow> idle_gap (ac_timeout ac) (ac_last ac) es"
  using assms
proof (induction es arbitrary: ac)
  case (Cons e es)
  obtain t n where e: "e = (t, n)" by (cases e)
  let ?ac = "fire_due t (fire_due t ac)"
  note f = fire_twice [OF Cons.prems(2,1), of t]
  show ?case
  proof (cases "ac_last ac + ac_timeout ac \<le> t")
    case True
    then have "ac_closed (ac_io t n ?ac)" using f(1) by (simp add: ac_io_def)
    with True show ?thesis by (simp add: e closed_stays)
  next
    case False
    have srt: "sorted (ac_last (ac_io t n ?ac) # map fst es)" "ac_last ac \<le> t"
      using Cons.prems(3) f(3) by (auto simp: e ac_io_def)
    have "\<not> ac_closed (ac_io t n ?ac)" "ac_timer (ac_io t n ?ac) \<le> ac_last (ac_io t n ?ac) + ac_timeout (ac_io t n ?ac)"
      using False f srt(2) by (auto simp: ac_io_def)
    from Cons.IH [OF this srt(1)] show ?thesis
      using False f(3,4) by (simp add: e ac_io_def)
  qed
qed simp

text \<open>The scan returns an open session with the fewest streams.\<close>

lemma best_session_some:
  "best_session ss k b = Some s \<Longrightarrow>
     b = Some s \<and> (\<forall>t \<in> set ss. \<not> ss_closed t \<longrightarrow> k \<le> ss_streams t) \<or>
     s \<in> set ss \<and> \<not> ss_closed s \<and> ss_streams s < k \<and> (\<forall>t \<in> set ss. \<not> ss_closed t \<longrightarrow> ss_streams s \<le> ss_streams t)"
proof (induction ss arbitrary: k b)
  case (Cons s' ss)
  consider "ss_closed s'" | "\<not> ss_closed s'" "ss_streams s' < k" | "\<not> ss_closed s'" "k \<le> ss_streams s'" by linarith
  then show ?case
  proof cases
    case 1
    with Cons.prems Cons.IH [of k b] show ?thesis by auto
  next
    case 2
    then have "best_session ss (ss_streams s') (Some s') = Some s" using Cons.prems by simp
    from Cons.IH [OF this] 2 show ?thesis by auto
  next
    case 3
    then have "best_session ss k b = Some s" using Cons.prems by simp
    from Cons.IH [OF this] 3 show ?thesis by auto
  qed
qed simp

lemma best_session_keeps: "best_session ss k (Some b) \<noteq> None"
  by (induction ss arbitrary: k b) auto

lemma best_session_none:
  "best_session ss k None = None \<longleftrightarrow> (\<forall>t \<in> set ss. \<not> ss_closed t \<longrightarrow> k \<le> ss_streams t)"
  by (induction ss) (auto simp: best_session_keeps)

section \<open>Properties\<close>

text \<open>
  C33: however the goroutines of the channels interleave, with the two counters loaded one
  after the other: once every channel has reported and run its check, the connection is
  signalled if and only if at least one channel is ready; and it is never signalled before
  every channel has reported.
\<close>

theorem channels_ready_signal:
  assumes "check_reachable n ok s"
  shows "(rs_connected s \<longrightarrow> (\<forall>i < n. rs_pc s i \<noteq> Starting)) \<and>
         ((\<forall>i < n. rs_pc s i = Finished) \<longrightarrow> (rs_connected s \<longleftrightarrow> (\<exists>i < n. ok i)))"
proof (intro conjI impI)
  note inv = check_inv [OF assms]
  show "\<forall>i < n. rs_pc s i \<noteq> Starting" if "rs_connected s"
    using inv that by (auto simp: signal_inv_def reported_def)
  assume fin: "\<forall>i < n. rs_pc s i = Finished"
  then have rep: "reported n s = {..<n}" by (auto simp: reported_def)
  have "0 < rs_ready s \<longleftrightarrow> {..<n} \<inter> Collect ok \<noteq> {}"
    using inv by (simp add: counters_inv_def rep card_gt_0_iff)
  moreover have "rs_connected s \<longleftrightarrow> 0 < rs_ready s"
    using inv rep fin unfolding signal_inv_def by (metis check_pc.distinct(13,17,19))
  ultimately show "rs_connected s \<longleftrightarrow> (\<exists>i < n. ok i)" by auto
qed

lemma check_run: "list_all (\<lambda>i. i < n) is \<Longrightarrow> check_reachable n ok s \<Longrightarrow> check_reachable n ok (fold (check_step n ok) is s)"
  by (induction "is" arbitrary: s) (auto intro: cr_step)

theorem channels_ready_signal_witness:
  "rs_connected (fold (check_step 2 (\<lambda>i. i = 1)) [0, 1, 0, 1, 1, 0, 0, 1] readiness0)"
proof -
  let ?s = "fold (check_step 2 (\<lambda>i. i = 1)) [0, 1, 0, 1, 1, 0, 0, 1] readiness0"
  have r: "check_reachable 2 (\<lambda>i. i = 1) ?s" by (rule check_run) (simp_all add: cr_init)
  have "\<forall>i < 2. rs_pc ?s i = Finished" by (simp add: check_step_def readiness0_def less_2_cases_iff)
  with channels_ready_signal [OF r] show ?thesis by auto
qed

text \<open>
  a stream is opened on an open session with the fewest streams, whenever there are
  several sessions and one of them is open.
\<close>

lemma openStream_least_loaded:
  assumes "1 < length (pe_sessions c)" and "t \<in> set (pe_sessions c)" and "\<not> ss_closed t" and "ss_streams t < maxInt"
  shows "\<exists>s \<in> set (pe_sessions c). \<not> ss_closed s \<and> openStream c = (open_on s, c) \<and>
           (\<forall>u \<in> set (pe_sessions c). \<not> ss_closed u \<longrightarrow> ss_streams s \<le> ss_streams u)"
proof -
  have "best_session (pe_sessions c) maxInt None \<noteq> None"
    using assms by (auto simp: best_session_none)
  then obtain s where s: "best_session (pe_sessions c) maxInt None = Some s" by blast
  from best_session_some [OF s] s assms(1) show ?thesis
    by (intro bexI [of _ s]) (auto simp: openStream_def Let_def)
qed

text \<open>
  a connection wrapped for inactivity is closed if and only if some gap without
  successful I/O reached the timeout, for any sequence of reads and writes: activity always
  keeps it open and silence always closes it.
\<close>

lemma activity_exact:
  assumes "sorted (t0 # map fst es)"
  shows "ac_closed (ac_run es (newActivityConn timeout t0)) \<longleftrightarrow> idle_gap timeout t0 es"
  using ac_run_gap [of "newActivityConn timeout t0" es] assms by (simp add: newActivityConn_def)

text \<open>
  the number of active streams never exceeds the configured limit, at any moment of any
  interleaving of accepting and finishing streams.
\<close>

lemma active_streams_bounded:
  assumes "ad_reachable n a" and "0 < n"
  shows "int (ad_active a) \<le> n"
  using ad_inv [OF assms(1)] assms(2) by (auto simp: makeSemaphore_def)

text \<open>
  every byte of download is sorted into exactly one category: when all streams have
  ended, web, video and other bytes add up to the total, for any interleaving of the streams.
\<close>

lemma usage_adds_up:
  assumes "events_ok n es srv_stats0" and "\<forall>i < n. sv_ended (fold stream_step es srv_stats0) i"
  shows "sv_bytesDown (fold stream_step es srv_stats0) =
           sv_web (fold stream_step es srv_stats0) + sv_video (fold stream_step es srv_stats0) +
           sv_other (fold stream_step es srv_stats0)"
proof -
  have "stats_inv n srv_stats0" by (simp add: stats_inv_def srv_stats0_def open_down_def)
  from stats_run [OF this assms(1)] assms(2) show ?thesis by (simp add: stats_inv_def open_down_def)
qed

text \<open>
  a throttled connection fails every write longer than its rate, without writing
  anything: the limiter's burst is the rate, and it refuses more than the burst at once. The
  relay writes up to 128 KB at a time, so limits below that cut connections.
\<close>

lemma throttled_write_fails:
  assumes "limiter_doc waitN" and "0 < up" and "up < int (length p)"
  shows "\<exists>e. throttled_write waitN up p answer = (Inl e, None)"
  using assms by (auto simp: limiter_doc_def throttled_write_def split: option.splits)

text \<open>
  two concurrent calls of \<^verbatim>\<open>Server.Stop\<close> can close the same channel twice, which panics;
  no schedule of any number of concurrent calls of \<^verbatim>\<open>Client.Stop\<close> panics.
\<close>

lemma stop_race:
  "snd (fold server_stop_step [0, 1, 0, 1] (False, \<lambda>_. StopEntered)) 1 = StopPanicked \<and>
   snd (fold client_stop_step is (False, \<lambda>_. StopEntered)) i \<noteq> StopPanicked"
proof
  show "snd (fold server_stop_step [0, 1, 0, 1] (False, \<lambda>_. StopEntered)) 1 = StopPanicked"
    by (simp add: server_stop_step_def)
  have "(\<forall>i. snd s i \<noteq> StopPanicked) \<Longrightarrow> \<forall>i. snd (fold client_stop_step is s) i \<noteq> StopPanicked" for s
    by (induction "is" arbitrary: s) (auto simp: client_stop_step_def split: prod.splits stop_pc.splits)
  then show "snd (fold client_stop_step is (False, \<lambda>_. StopEntered)) i \<noteq> StopPanicked" by simp
qed

text \<open>
  a client still counts as alive after its ICE connection is disconnected, while a server
  does not.
\<close>

lemma client_alive_when_disconnected:
  "pe_alive (fold client_ice [ICEConnected, ICEDisconnected] c) \<and>
   \<not> pe_alive (fold server_ice [ICEConnected, ICEDisconnected] s)"
  by (simp add: client_ice_def server_ice_def)

end
