(* ===== verification/Peer_Group.thy ===== *)
theory Peer_Group
  imports Peer_Session "HOL-Library.Signed_Division"
begin

text \<open>
  Groups of peer connections (\<^verbatim>\<open>golib/webrtc/group.go\<close>) and the option defaults of
  \<^verbatim>\<open>golib/webrtc/defaults.go\<close>: splitting the channels over the connections, starting all of
  them or none, waiting for the first one, and choosing a connection for a new stream.
  Starting one connection is pion's work and an argument of the model.
\<close>

section \<open>Options and defaults\<close>

record peer_config =
  pcf_SCTPRecvBuffer :: int
  pcf_SCTPRTOMax :: int
  pcf_UDPReadBuffer :: int
  pcf_UDPWriteBuffer :: int
  pcf_ICEDisconnTimeout :: int
  pcf_ICEFailedTimeout :: int
  pcf_ICEKeepalive :: int
  pcf_DTLSRetransmit :: int
  pcf_DTLSSkipVerify :: "bool option"
  pcf_SCTPZeroChecksum :: "bool option"
  pcf_DisableCloseByDTLS :: "bool option"

definition or_default :: "int \<Rightarrow> int \<Rightarrow> int" where
  "or_default d v = (if v = 0 then d else v)"

definition or_true :: "bool option \<Rightarrow> bool option" where
  "or_true v = (case v of None \<Rightarrow> Some True | Some b \<Rightarrow> Some b)"

definition applyPeerDefaults :: "peer_config \<Rightarrow> peer_config" where
  "applyPeerDefaults cfg =
     \<lparr>pcf_SCTPRecvBuffer = or_default 8192 (pcf_SCTPRecvBuffer cfg),
      pcf_SCTPRTOMax = or_default 2500 (pcf_SCTPRTOMax cfg),
      pcf_UDPReadBuffer = or_default 8192 (pcf_UDPReadBuffer cfg),
      pcf_UDPWriteBuffer = or_default 8192 (pcf_UDPWriteBuffer cfg),
      pcf_ICEDisconnTimeout = or_default 15000 (pcf_ICEDisconnTimeout cfg),
      pcf_ICEFailedTimeout = or_default 25000 (pcf_ICEFailedTimeout cfg),
      pcf_ICEKeepalive = or_default 2000 (pcf_ICEKeepalive cfg),
      pcf_DTLSRetransmit = or_default 100 (pcf_DTLSRetransmit cfg),
      pcf_DTLSSkipVerify = or_true (pcf_DTLSSkipVerify cfg),
      pcf_SCTPZeroChecksum = or_true (pcf_SCTPZeroChecksum cfg),
      pcf_DisableCloseByDTLS = or_true (pcf_DisableCloseByDTLS cfg)\<rparr>"

text \<open>
  The tunable options, which servers and clients share; a server has the limits at the end in
  addition.
\<close>

record options =
  op_Padding :: bool
  op_PaddingMax :: int
  op_TransportMode :: transport_mode
  op_NumPeerConnections :: int
  op_NumChannels :: int
  op_SmuxStreamBuffer :: int
  op_SmuxSessionBuffer :: int
  op_SmuxFrameSize :: int
  op_SmuxKeepAlive :: int
  op_SmuxKeepAliveTimeout :: int
  op_DCMaxBuffered :: int
  op_DCLowMark :: int
  op_PeerConfig :: peer_config

record server_options = options +
  op_RateLimitUp :: int
  op_RateLimitDown :: int
  op_MaxTotalStreams :: int

definition applyClientDefaults :: "options \<Rightarrow> options" where
  "applyClientDefaults o' =
     o'\<lparr>op_NumChannels := or_default 6 (op_NumChannels o'),
        op_SmuxStreamBuffer := or_default 2048 (op_SmuxStreamBuffer o'),
        op_SmuxSessionBuffer := or_default 8192 (op_SmuxSessionBuffer o'),
        op_SmuxFrameSize := or_default 32768 (op_SmuxFrameSize o'),
        op_SmuxKeepAlive := or_default 10 (op_SmuxKeepAlive o'),
        op_SmuxKeepAliveTimeout := or_default 300 (op_SmuxKeepAliveTimeout o'),
        op_NumPeerConnections := or_default 6 (op_NumPeerConnections o'),
        op_DCMaxBuffered := or_default 2048 (op_DCMaxBuffered o'),
        op_DCLowMark := or_default 512 (op_DCLowMark o'),
        op_PaddingMax := (if op_PaddingMax o' = 0 \<and> op_Padding o' then 256 else op_PaddingMax o'),
        op_PeerConfig := applyPeerDefaults (op_PeerConfig o')\<rparr>"

definition applyServerDefaults :: "server_options \<Rightarrow> server_options" where
  "applyServerDefaults o' =
     o'\<lparr>op_NumChannels := or_default 6 (op_NumChannels o'),
        op_SmuxStreamBuffer := or_default 2048 (op_SmuxStreamBuffer o'),
        op_SmuxSessionBuffer := or_default 8192 (op_SmuxSessionBuffer o'),
        op_SmuxFrameSize := or_default 32768 (op_SmuxFrameSize o'),
        op_SmuxKeepAlive := or_default 10 (op_SmuxKeepAlive o'),
        op_SmuxKeepAliveTimeout := or_default 300 (op_SmuxKeepAliveTimeout o'),
        op_NumPeerConnections := or_default 6 (op_NumPeerConnections o'),
        op_DCMaxBuffered := or_default 2048 (op_DCMaxBuffered o'),
        op_DCLowMark := or_default 512 (op_DCLowMark o'),
        op_PaddingMax := (if op_PaddingMax o' = 0 \<and> op_Padding o' then 256 else op_PaddingMax o'),
        op_PeerConfig := applyPeerDefaults (op_PeerConfig o')\<rparr>"

section \<open>Starting a group\<close>

definition deriveSessionID :: "bytes \<Rightarrow> nat \<Rightarrow> bytes" where
  "deriveSessionID base index = (if index = 0 then base else base @ [45] @ itoa index)"

definition distributeChannels :: "int \<Rightarrow> int \<Rightarrow> int list" where
  "distributeChannels channels npc =
     (if npc \<le> 0 then []
      else let base = channels sdiv npc; extra = channels smod npc
           in map (\<lambda>i. if int i < extra then base + 1 else base) [0..<nat npc])"

definition maxPeerConnections :: int where
  "maxPeerConnections = 8"

definition clamp_npc :: "int \<Rightarrow> int" where
  "clamp_npc npc = (if npc \<le> 0 then 1 else if maxPeerConnections < npc then maxPeerConnections else npc)"

text \<open>
  The loop that starts the connections \<open>i, i + 1, \<dots>\<close>: \<open>start i sid opts\<close> is one
  start, giving the peer and its SDP or an error. On an error the peers started so far are
  stopped; \<open>gs_stopped\<close> lists them.
\<close>

datatype ('p, 'e) group_start =
    Started "('p \<times> bytes) list"
  | StartFailed nat 'e "'p list"

fun start_peers ::
    "(nat \<Rightarrow> bytes \<Rightarrow> 'o \<Rightarrow> 'e + 'p \<times> bytes) \<Rightarrow> bytes \<Rightarrow> (int \<Rightarrow> 'o) \<Rightarrow> nat \<Rightarrow> int list \<Rightarrow> ('p \<times> bytes) list \<Rightarrow>
     ('p, 'e) group_start" where
  "start_peers start base opts i [] acc = Started acc"
| "start_peers start base opts i (n # dist) acc =
     (case start i (deriveSessionID base i) (opts n) of
        Inl e \<Rightarrow> StartFailed i e (map fst acc)
      | Inr ps \<Rightarrow> start_peers start base opts (Suc i) dist (acc @ [ps]))"

definition StartServerGroup ::
    "(nat \<Rightarrow> bytes \<Rightarrow> server_options \<Rightarrow> 'e + 'p \<times> bytes) \<Rightarrow> int \<Rightarrow> bytes \<Rightarrow> server_options \<Rightarrow> ('p, 'e) group_start" where
  "StartServerGroup start npc base opts =
     (let npc' = clamp_npc npc;
          channels = or_default 6 (op_NumChannels opts);
          dist = distributeChannels channels npc'
      in start_peers start base (\<lambda>n. opts\<lparr>op_NumChannels := n\<rparr>) 0 dist [])"

text \<open>The client group gets one offer per connection; too many are cut when the number is capped.\<close>

definition StartClientGroup ::
    "(nat \<Rightarrow> bytes \<Rightarrow> options \<Rightarrow> 'e + 'p \<times> bytes) \<Rightarrow> int \<Rightarrow> bytes list \<Rightarrow> bytes \<Rightarrow> options \<Rightarrow> (nat \<times> nat) + ('p, 'e) group_start" where
  "StartClientGroup start npc offers base opts =
     (let npc' = clamp_npc npc;
          offers' = (if maxPeerConnections < npc then take (nat npc') offers else offers);
          channels = or_default 6 (op_NumChannels opts);
          dist = distributeChannels channels npc'
      in if length offers' \<noteq> nat npc' then Inl (nat npc', length offers')
         else Inr (start_peers start base (\<lambda>n. opts\<lparr>op_NumChannels := n\<rparr>) 0 dist []))"

text \<open>\<open>Inl None\<close>: wrong number of answers; \<open>Inl (Some (i, e))\<close>: the answer of connection \<open>i\<close> was refused.\<close>

definition accept_loop :: "('p \<Rightarrow> bytes \<Rightarrow> 'e option) \<Rightarrow> ('p \<times> bytes) list \<Rightarrow> (nat \<times> 'e) option" where
  "accept_loop accept pas =
     fold (\<lambda>(i, p, a) r. case r of Some e \<Rightarrow> Some e | None \<Rightarrow> map_option (Pair i) (accept p a))
       (zip [0..<length pas] pas) None"

definition AcceptAnswers :: "('p \<Rightarrow> bytes \<Rightarrow> 'e option) \<Rightarrow> 'p list \<Rightarrow> bytes list \<Rightarrow> ((nat \<times> 'e) option) + unit" where
  "AcceptAnswers accept servers answers =
     (if length answers \<noteq> length servers then Inl None
      else case accept_loop accept (zip servers answers) of Some e \<Rightarrow> Inl (Some e) | None \<Rightarrow> Inr ())"

section \<open>Waiting and dialling\<close>

text \<open>
  \<^verbatim>\<open>WaitConnected\<close> (and its variants): the results of the connections in the order they
  arrive; \<open>None\<close> is waiting for another one, \<open>Some None\<close> success.
\<close>

fun wait_connected :: "nat \<Rightarrow> nat \<Rightarrow> (nat \<times> 'e option) list \<Rightarrow> (nat \<times> 'e) option \<Rightarrow> (nat \<times> 'e) option option" where
  "wait_connected peers failed [] lastErr = (if failed < peers then None else Some lastErr)"
| "wait_connected peers failed ((idx, err) # rs) lastErr =
     (if failed < peers then
        (case err of
           Some e \<Rightarrow> wait_connected peers (failed + 1) rs (Some (idx, e))
         | None \<Rightarrow> Some None)
      else Some lastErr)"

fun best_client :: "peer list \<Rightarrow> nat \<Rightarrow> nat \<Rightarrow> nat option \<Rightarrow> nat option" where
  "best_client [] i bestCount best = best"
| "best_client (c # cs) i bestCount best =
     (if GetStreamCount c < bestCount then best_client cs (Suc i) (GetStreamCount c) (Some i)
      else best_client cs (Suc i) bestCount best)"

definition GroupDialStream :: "bytes \<Rightarrow> pad_rand \<Rightarrow> io_error option \<Rightarrow> peer list \<Rightarrow> (dial_error + sink) \<times> peer list" where
  "GroupDialStream target rnd werr clients =
     (if length clients = 0 then (Inl NoClients, clients)
      else let i = (if length clients = 1 then 0
                    else case best_client clients 0 maxInt None of Some b \<Rightarrow> b | None \<Rightarrow> 0);
               r = DialStream target rnd werr (clients ! i)
           in (fst r, clients[i := snd r]))"

definition GroupIsAlive :: "peer list \<Rightarrow> bool" where
  "GroupIsAlive ps \<longleftrightarrow> list_ex pe_alive ps"

definition GroupGetStreamCount :: "peer list \<Rightarrow> nat" where
  "GroupGetStreamCount ps = fold (\<lambda>c acc. acc + GetStreamCount c) ps 0"

definition GroupGetChannelCount :: "peer list \<Rightarrow> nat" where
  "GroupGetChannelCount ps = fold (\<lambda>c acc. acc + length (pe_sessions c)) ps 0"

text \<open>Protecting the sockets stops at the first one the platform refuses.\<close>

fun ProtectSockets :: "(int \<Rightarrow> bool) \<Rightarrow> nat \<Rightarrow> int list \<Rightarrow> (nat \<times> int) option" where
  "ProtectSockets protectFn i [] = None"
| "ProtectSockets protectFn i (fd # fds) =
     (if fd \<le> 0 then ProtectSockets protectFn (Suc i) fds
      else if \<not> protectFn fd then Some (i, fd)
      else ProtectSockets protectFn (Suc i) fds)"

section \<open>Lemmas\<close>

lemma sum_list_split:
  "0 \<le> e \<Longrightarrow> sum_list (map (\<lambda>i. if int i < e then b + 1 else b) [0..<n]) = int n * b + min e (int n)"
  by (induction n) (auto simp: algebra_simps min_def)

lemma sdiv_nonneg: "0 \<le> a \<Longrightarrow> 0 < b \<Longrightarrow> a sdiv b = a div b" for a b :: int
  by (simp add: signed_divide_int_def sgn_if)

lemma smod_nonneg: "0 \<le> a \<Longrightarrow> 0 < b \<Longrightarrow> a smod b = a mod b" for a b :: int
  by (auto simp: signed_modulo_int_def sdiv_nonneg minus_div_mult_eq_mod sgn_if)

lemma distribute_map:
  "0 \<le> channels \<Longrightarrow> 0 < npc \<Longrightarrow>
     distributeChannels channels npc =
       map (\<lambda>i. if int i < channels mod npc then channels div npc + 1 else channels div npc) [0..<nat npc]"
  by (simp add: distributeChannels_def Let_def sdiv_nonneg smod_nonneg)

lemma start_peers_spec:
  "case start_peers start base opts i dist acc of
     Started ps \<Rightarrow> \<exists>qs. ps = acc @ qs \<and> length qs = length dist \<and>
       (\<forall>j < length dist. start (i + j) (deriveSessionID base (i + j)) (opts (dist ! j)) = Inr (qs ! j))
   | StartFailed k e stopped \<Rightarrow> \<exists>qs. k = i + length qs \<and> length qs < length dist \<and> stopped = map fst (acc @ qs) \<and>
       (\<forall>j < length qs. start (i + j) (deriveSessionID base (i + j)) (opts (dist ! j)) = Inr (qs ! j)) \<and>
       start k (deriveSessionID base k) (opts (dist ! length qs)) = Inl e"
proof (induction dist arbitrary: i acc)
  case (Cons n dist)
  show ?case
  proof (cases "start i (deriveSessionID base i) (opts n)")
    case (Inl e)
    then show ?thesis by (auto intro!: exI [of _ "[]"])
  next
    case (Inr p)
    have shift: "(\<forall>j < Suc m. P (i + j) ((n # dist) ! j) ((p # qs) ! j)) \<longleftrightarrow>
        P i n p \<and> (\<forall>j < m. P (Suc i + j) (dist ! j) (qs ! j))" for P qs m
      by (auto simp: less_Suc_eq_0_disj)
    show ?thesis
    proof (cases "start_peers start base opts (Suc i) dist (acc @ [p])")
      case (Started ps)
      with Cons.IH [where i = "Suc i" and acc = "acc @ [p]"] obtain qs where "ps = acc @ p # qs" "length qs = length dist"
        "\<forall>j < length dist. start (Suc i + j) (deriveSessionID base (Suc i + j)) (opts (dist ! j)) = Inr (qs ! j)"
        by auto
      then show ?thesis
        using Inr Started shift [of "length dist" "\<lambda>k n q. start k (deriveSessionID base k) (opts n) = Inr q" qs]
        by (auto intro!: exI [of _ "p # qs"])
    next
      case (StartFailed k e st)
      with Cons.IH [where i = "Suc i" and acc = "acc @ [p]"] obtain qs where "k = Suc i + length qs" "length qs < length dist"
        "st = map fst (acc @ p # qs)"
        "\<forall>j < length qs. start (Suc i + j) (deriveSessionID base (Suc i + j)) (opts (dist ! j)) = Inr (qs ! j)"
        "start k (deriveSessionID base k) (opts (dist ! length qs)) = Inl e"
        by auto
      then show ?thesis
        using Inr StartFailed shift [of "length qs" "\<lambda>k n q. start k (deriveSessionID base k) (opts n) = Inr q" qs]
        by (auto intro!: exI [of _ "p # qs"])
    qed
  qed
qed simp

lemma wait_connected_result:
  assumes "length rs = peers - failed" and "failed \<le> peers"
  shows "wait_connected peers failed rs lastErr =
           (if \<exists>i. (i, None) \<in> set rs then Some None
            else Some (if rs = [] then lastErr else Some (fst (last rs), the (snd (last rs)))))"
  using assms
proof (induction rs arbitrary: failed lastErr)
  case (Cons r rs)
  obtain i err where r: "r = (i, err)" by (cases r)
  show ?case
  proof (cases err)
    case None
    then show ?thesis using Cons.prems by (auto simp: r)
  next
    case (Some e)
    then show ?thesis
      using Cons.prems Cons.IH [of "Suc failed" "Some (i, e)"] by (auto simp: r)
  qed
qed simp

lemma best_client_some:
  "best_client cs i k b = Some j \<Longrightarrow>
     b = Some j \<and> (\<forall>c \<in> set cs. k \<le> GetStreamCount c) \<or>
     (\<exists>m < length cs. j = i + m \<and> GetStreamCount (cs ! m) < k \<and> (\<forall>c \<in> set cs. GetStreamCount (cs ! m) \<le> GetStreamCount c))"
proof (induction cs arbitrary: i k b)
  case (Cons c cs)
  show ?case
  proof (cases "GetStreamCount c < k")
    case True
    then have "best_client cs (Suc i) (GetStreamCount c) (Some i) = Some j" using Cons.prems by simp
    from Cons.IH [OF this] show ?thesis
    proof (elim disjE exE conjE)
      assume "Some i = Some j" "\<forall>c' \<in> set cs. GetStreamCount c \<le> GetStreamCount c'"
      with True show ?thesis by (intro disjI2 exI [of _ 0]) auto
    next
      fix m
      assume "m < length cs" "j = Suc i + m" "GetStreamCount (cs ! m) < GetStreamCount c"
        "\<forall>c' \<in> set cs. GetStreamCount (cs ! m) \<le> GetStreamCount c'"
      with True show ?thesis by (intro disjI2 exI [of _ "Suc m"]) auto
    qed
  next
    case False
    then have "best_client cs (Suc i) k b = Some j" using Cons.prems by simp
    from Cons.IH [OF this] show ?thesis
    proof (elim disjE exE conjE)
      assume "b = Some j" "\<forall>c \<in> set cs. k \<le> GetStreamCount c"
      with False show ?thesis by auto
    next
      fix m
      assume "m < length cs" "j = Suc i + m" "GetStreamCount (cs ! m) < k"
        "\<forall>c' \<in> set cs. GetStreamCount (cs ! m) \<le> GetStreamCount c'"
      with False show ?thesis by (intro disjI2 exI [of _ "Suc m"]) auto
    qed
  qed
qed simp

lemma best_client_keeps: "best_client cs i k (Some b) \<noteq> None"
  by (induction cs arbitrary: i k b) auto

lemma best_client_none: "best_client cs i k None = None \<longleftrightarrow> (\<forall>c \<in> set cs. k \<le> GetStreamCount c)"
  by (induction cs arbitrary: i) (auto simp: best_client_keeps)

text \<open>The client the group dials has the fewest streams of all.\<close>

lemma group_choice:
  assumes "1 < length clients" and "c \<in> set clients" and "GetStreamCount c < maxInt"
  obtains m where "m < length clients" "\<And>c. c \<in> set clients \<Longrightarrow> GetStreamCount (clients ! m) \<le> GetStreamCount c"
    "fst (GroupDialStream target rnd werr clients) = fst (DialStream target rnd werr (clients ! m))"
proof -
  have "best_client clients 0 maxInt None \<noteq> None"
    using assms(2,3) unfolding best_client_none by (metis leD)
  then obtain j where j: "best_client clients 0 maxInt None = Some j" by blast
  from best_client_some [OF this] have "j < length clients"
    "\<forall>c \<in> set clients. GetStreamCount (clients ! j) \<le> GetStreamCount c" by auto
  then show thesis
    using assms(1) j by (intro that [of j]) (auto simp: GroupDialStream_def Let_def)
qed

section \<open>Properties\<close>

text \<open>
  the channels are split evenly: every connection gets the quotient or one more, and
  together they get exactly the number asked for.
\<close>

lemma distributeChannels_even:
  assumes "0 \<le> channels" and "0 < npc"
  shows "length (distributeChannels channels npc) = nat npc \<and> sum_list (distributeChannels channels npc) = channels \<and>
         set (distributeChannels channels npc) \<subseteq> {channels div npc, channels div npc + 1}"
proof -
  have "min (channels mod npc) (int (nat npc)) = channels mod npc"
    using assms(2) pos_mod_bound [of npc channels] by (simp add: min_def less_imp_le)
  then have "sum_list (distributeChannels channels npc) = channels"
    using assms sum_list_split [of "channels mod npc" "channels div npc" "nat npc"]
    by (simp add: distribute_map mult.commute)
  then show ?thesis using assms by (auto simp: distribute_map)
qed

text \<open>
  when there are more connections than channels, the connections that get no channel
  fall back to the default of six each, so the group opens more channels than asked for.
\<close>

lemma group_channels_exceed:
  assumes "0 \<le> channels" and "channels < npc"
  shows "sum_list (map (or_default 6) (distributeChannels channels npc)) = channels + 6 * (npc - channels)"
proof -
  have "map (or_default 6) (distributeChannels channels npc) = map (\<lambda>i. if int i < channels then 1 else 6) [0..<nat npc]"
    using assms by (simp add: distribute_map or_default_def)
  moreover have "sum_list (map (\<lambda>i. if int i < channels then 1 else (6 :: int)) [0..<n]) = 6 * int n - 5 * min channels (int n)" for n
    using assms(1) by (induction n) (auto simp: min_def)
  ultimately show ?thesis using assms by (simp add: min_def)
qed

text \<open>
  a server group starts completely or not at all: either there is one peer per
  connection, each started with its own session id and its share of the channels; or a start
  failed and exactly the peers started before it are stopped.
\<close>

lemma StartServerGroup_all_or_nothing:
  "case StartServerGroup start npc base opts of
     Started ps \<Rightarrow>
       length ps = length (distributeChannels (or_default 6 (op_NumChannels opts)) (clamp_npc npc)) \<and>
       (\<forall>j < length ps. start j (deriveSessionID base j)
          (opts\<lparr>op_NumChannels := distributeChannels (or_default 6 (op_NumChannels opts)) (clamp_npc npc) ! j\<rparr>) = Inr (ps ! j))
   | StartFailed k e stopped \<Rightarrow>
       length stopped = k \<and> int k < clamp_npc npc \<and>
       (\<forall>j < k. \<exists>sdp. start j (deriveSessionID base j)
          (opts\<lparr>op_NumChannels := distributeChannels (or_default 6 (op_NumChannels opts)) (clamp_npc npc) ! j\<rparr>) =
            Inr (stopped ! j, sdp))"
proof -
  let ?dist = "distributeChannels (or_default 6 (op_NumChannels opts)) (clamp_npc npc)"
  have len: "int (length ?dist) = clamp_npc npc"
    by (simp add: distributeChannels_def clamp_npc_def maxPeerConnections_def Let_def)
  show ?thesis
    using start_peers_spec [where start = start and base = base and opts = "\<lambda>n. opts\<lparr>op_NumChannels := n\<rparr>"
        and i = 0 and dist = ?dist and acc = "[]"] len
    by (auto simp: StartServerGroup_def Let_def split: group_start.splits) (metis prod.collapse)
qed

definition demo_start :: "nat \<Rightarrow> bytes \<Rightarrow> server_options \<Rightarrow> io_error + nat \<times> bytes" where
  "demo_start i sid o' = (if i < 2 then Inr (i, sid) else Inl EOF)"

text \<open>
  waiting for a group succeeds exactly when some connection came up, whatever the order
  in which the results arrive, and fails only after all of them have failed.
\<close>

lemma group_wait_any:
  assumes "length rs = peers" and "0 < peers"
  shows "(wait_connected peers 0 rs None = Some None \<longleftrightarrow> (\<exists>i. (i, None) \<in> set rs)) \<and>
         wait_connected peers 0 rs None \<noteq> None"
  using wait_connected_result [of rs peers 0 None] assms by auto

text \<open>
  a connection without sessions (still connecting, or already closed) has no streams and
  so wins the choice: when every connection that has a session carries a stream, dialling
  through the group fails although open sessions are at hand.
\<close>

lemma group_dial_picks_dead_client:
  assumes "1 < length clients" and "d \<in> set clients" and "pe_sessions d = []"
    and "\<forall>c \<in> set clients. pe_sessions c \<noteq> [] \<longrightarrow> 0 < GetStreamCount c"
  shows "fst (GroupDialStream target rnd werr clients) = Inl NoSessions"
proof -
  have zero: "GetStreamCount d = 0" using assms(3) by (simp add: GetStreamCount_def)
  then have "GetStreamCount d < maxInt" by (simp add: maxInt_def)
  then obtain m where m: "m < length clients" and least: "\<And>c. c \<in> set clients \<Longrightarrow> GetStreamCount (clients ! m) \<le> GetStreamCount c"
    and dial: "fst (GroupDialStream target rnd werr clients) = fst (DialStream target rnd werr (clients ! m))"
    by (rule group_choice [OF assms(1,2)]) blast
  have "GetStreamCount (clients ! m) = 0" using least [OF assms(2)] zero by simp
  then have "pe_sessions (clients ! m) = []" using assms(4) m by (metis nth_mem less_irrefl)
  then show ?thesis by (simp add: dial DialStream_def openStream_def)
qed

definition demo_peer :: "smux_session list \<Rightarrow> peer" where
  "demo_peer ss = \<lparr>pe_numChannels = 1, pe_sessions = ss, pe_alive = True, pe_connected = True, pe_failed = False,
     pe_done = False, pe_mode = TransportDataChannels, pe_mediaStarted = False, pe_reconnects = 0,
     pe_hasReconnect = True, pe_nextSession = 0, pe_padding = False, pe_paddingMax = 0\<rparr>"

end
