(* ===== verification/Session_Hub.thy ===== *)
theory Session_Hub
  imports Go_Prelude
begin

text \<open>
  The offer/answer store of the signalling server (\<^verbatim>\<open>sessionHub\<close> in
  \<^verbatim>\<open>signalserver/cmd/signalserver/main.go\<close>): entries with an offer and an answer, the
  channels of the streams watching them, and the periodic collection. The operations are
  functions on the hub; the notification protocol between writers and a watching stream is a
  step relation, because the channel is written outside the lock.
\<close>

section \<open>Channels\<close>

text \<open>
  A notification channel has room for one element. A send that does not block fills it or
  does nothing; a send on a closed channel panics, as does closing it again.
\<close>

record chan =
  ch_full :: bool
  ch_closed :: bool

datatype chan_result = Ok chan | Panic

definition chan_new :: chan where
  "chan_new = \<lparr>ch_full = False, ch_closed = False\<rparr>"

definition try_send :: "chan \<Rightarrow> chan_result" where
  "try_send c = (if ch_closed c then Panic else Ok (c\<lparr>ch_full := True\<rparr>))"

definition chan_close :: "chan \<Rightarrow> chan_result" where
  "chan_close c = (if ch_closed c then Panic else Ok (c\<lparr>ch_closed := True\<rparr>))"

section \<open>The hub\<close>

record session_entry =
  se_Offer :: bytes
  se_Answer :: bytes
  se_UpdatedAt :: instant

text \<open>Watchers are sets of channel numbers; \<open>sh_chans\<close> holds the channels themselves.\<close>

record session_hub =
  sh_sessions :: "string \<Rightarrow> session_entry option"
  sh_watchO :: "string \<Rightarrow> nat set option"
  sh_watchA :: "string \<Rightarrow> nat set option"
  sh_chans :: "nat \<Rightarrow> chan"
  sh_next :: nat

definition newSessionHub :: session_hub where
  "newSessionHub = \<lparr>sh_sessions = Map.empty, sh_watchO = Map.empty, sh_watchA = Map.empty,
                    sh_chans = (\<lambda>_. chan_new), sh_next = 0\<rparr>"

definition hub_get :: "string \<Rightarrow> session_hub \<Rightarrow> session_entry option" where
  "hub_get sid h = sh_sessions h sid"

definition entry_or_new :: "string \<Rightarrow> session_hub \<Rightarrow> session_entry" where
  "entry_or_new sid h =
     (case sh_sessions h sid of Some e \<Rightarrow> e | None \<Rightarrow> \<lparr>se_Offer = [], se_Answer = [], se_UpdatedAt = 0\<rparr>)"

definition watchers_of :: "(string \<Rightarrow> nat set option) \<Rightarrow> string \<Rightarrow> nat set" where
  "watchers_of w sid = (case w sid of Some s \<Rightarrow> s | None \<Rightarrow> {})"

definition send_all :: "nat set \<Rightarrow> (nat \<Rightarrow> chan) \<Rightarrow> nat \<Rightarrow> chan" where
  "send_all ws chans = (\<lambda>i. if i \<in> ws then (case try_send (chans i) of Ok c \<Rightarrow> c | Panic \<Rightarrow> chans i) else chans i)"

text \<open>
  \<^verbatim>\<open>setOffer\<close> and \<^verbatim>\<open>setAnswer\<close> run alone: the store under the lock, then the notifications.
  \<open>None\<close>: one of the sends panicked.
\<close>

definition setOffer :: "string \<Rightarrow> bytes \<Rightarrow> instant \<Rightarrow> session_hub \<Rightarrow> session_hub option" where
  "setOffer sid body now h =
     (let e = entry_or_new sid h;
          h1 = h\<lparr>sh_sessions := (sh_sessions h)(sid \<mapsto> e\<lparr>se_Offer := body, se_UpdatedAt := now\<rparr>)\<rparr>;
          ws = watchers_of (sh_watchO h1) sid
      in if \<exists>i \<in> ws. try_send (sh_chans h1 i) = Panic then None
         else Some (h1\<lparr>sh_chans := send_all ws (sh_chans h1)\<rparr>))"

definition setAnswer :: "string \<Rightarrow> bytes \<Rightarrow> instant \<Rightarrow> session_hub \<Rightarrow> session_hub option" where
  "setAnswer sid body now h =
     (let e = entry_or_new sid h;
          h1 = h\<lparr>sh_sessions := (sh_sessions h)(sid \<mapsto> e\<lparr>se_Answer := body, se_UpdatedAt := now\<rparr>)\<rparr>;
          ws = watchers_of (sh_watchA h1) sid
      in if \<exists>i \<in> ws. try_send (sh_chans h1 i) = Panic then None
         else Some (h1\<lparr>sh_chans := send_all ws (sh_chans h1)\<rparr>))"

definition watchOffer :: "string \<Rightarrow> session_hub \<Rightarrow> nat \<times> session_hub" where
  "watchOffer sid h =
     (let ch = sh_next h
      in (ch, h\<lparr>sh_watchO := (sh_watchO h)(sid \<mapsto> insert ch (watchers_of (sh_watchO h) sid)),
                sh_chans := (sh_chans h)(ch := chan_new), sh_next := ch + 1\<rparr>))"

definition watchAnswer :: "string \<Rightarrow> session_hub \<Rightarrow> nat \<times> session_hub" where
  "watchAnswer sid h =
     (let ch = sh_next h
      in (ch, h\<lparr>sh_watchA := (sh_watchA h)(sid \<mapsto> insert ch (watchers_of (sh_watchA h) sid)),
                sh_chans := (sh_chans h)(ch := chan_new), sh_next := ch + 1\<rparr>))"

definition unwatch :: "(string \<Rightarrow> nat set option) \<Rightarrow> string \<Rightarrow> nat \<Rightarrow> string \<Rightarrow> nat set option" where
  "unwatch w sid ch =
     (case w sid of
        None \<Rightarrow> w
      | Some s \<Rightarrow> if s - {ch} = {} then w(sid := None) else w(sid \<mapsto> s - {ch}))"

definition stopOffer :: "string \<Rightarrow> nat \<Rightarrow> session_hub \<Rightarrow> session_hub option" where
  "stopOffer sid ch h =
     (let h1 = h\<lparr>sh_watchO := unwatch (sh_watchO h) sid ch\<rparr>
      in case chan_close (sh_chans h1 ch) of
           Panic \<Rightarrow> None
         | Ok c \<Rightarrow> Some (h1\<lparr>sh_chans := (sh_chans h1)(ch := c)\<rparr>))"

definition stopAnswer :: "string \<Rightarrow> nat \<Rightarrow> session_hub \<Rightarrow> session_hub option" where
  "stopAnswer sid ch h =
     (let h1 = h\<lparr>sh_watchA := unwatch (sh_watchA h) sid ch\<rparr>
      in case chan_close (sh_chans h1 ch) of
           Panic \<Rightarrow> None
         | Ok c \<Rightarrow> Some (h1\<lparr>sh_chans := (sh_chans h1)(ch := c)\<rparr>))"

text \<open>One tick of \<^verbatim>\<open>gcLoop\<close> at time \<open>now\<close>: it drops what was last updated before \<open>now - ttl\<close>.\<close>

definition hub_stale :: "instant \<Rightarrow> string \<Rightarrow> session_hub \<Rightarrow> bool" where
  "hub_stale cutoff sid h = (case sh_sessions h sid of None \<Rightarrow> False | Some e \<Rightarrow> se_UpdatedAt e < cutoff)"

definition hub_sweep :: "instant \<Rightarrow> session_hub \<Rightarrow> session_hub" where
  "hub_sweep cutoff h =
     h\<lparr>sh_sessions := (\<lambda>sid. if hub_stale cutoff sid h then None else sh_sessions h sid),
       sh_watchO := (\<lambda>sid. if hub_stale cutoff sid h then None else sh_watchO h sid),
       sh_watchA := (\<lambda>sid. if hub_stale cutoff sid h then None else sh_watchA h sid)\<rparr>"

definition hub_gc :: "duration \<Rightarrow> instant \<Rightarrow> session_hub \<Rightarrow> session_hub" where
  "hub_gc ttl now h = (if ttl \<le> 0 then h else hub_sweep (now - ttl) h)"

section \<open>Writers and a stream\<close>

text \<open>
  The protocol for one session and one stream (\<^verbatim>\<open>handleSessionStream\<close>): the stream registers,
  sends the current value, and then sends again after each notification it takes from its
  channel. A writer stores a value, which makes the stream its audience if it is registered
  then, and notifies later. \<open>Reading\<close>: a notification was taken and the value not read yet.
\<close>

datatype stream_phase = Unregistered | Registered | Waiting | Reading

record sse =
  ss_value :: bytes
  ss_full :: bool
  ss_writers :: nat
  ss_phase :: stream_phase
  ss_watched :: bool
  ss_last :: bytes

definition sse0 :: sse where
  "sse0 = \<lparr>ss_value = [], ss_full = False, ss_writers = 0, ss_phase = Unregistered, ss_watched = False, ss_last = []\<rparr>"

datatype sse_event = Store bytes | Notify | Register | SendCurrent | Take | SendUpdate | Collect

text \<open>One step; an event that is not possible leaves the state as it is.\<close>

fun sse_step :: "sse_event \<Rightarrow> sse \<Rightarrow> sse" where
  "sse_step (Store b) s = s\<lparr>ss_value := b, ss_writers := (if ss_watched s then ss_writers s + 1 else ss_writers s)\<rparr>"
| "sse_step Notify s = (if 0 < ss_writers s then s\<lparr>ss_writers := ss_writers s - 1, ss_full := True\<rparr> else s)"
| "sse_step Register s = (if ss_phase s = Unregistered then s\<lparr>ss_phase := Registered, ss_watched := True\<rparr> else s)"
| "sse_step SendCurrent s = (if ss_phase s = Registered then s\<lparr>ss_phase := Waiting, ss_last := ss_value s\<rparr> else s)"
| "sse_step Take s = (if ss_phase s = Waiting \<and> ss_full s then s\<lparr>ss_phase := Reading, ss_full := False\<rparr> else s)"
| "sse_step SendUpdate s = (if ss_phase s = Reading then s\<lparr>ss_phase := Waiting, ss_last := ss_value s\<rparr> else s)"
| "sse_step Collect s = s\<lparr>ss_watched := False\<rparr>"

definition sse_quiet :: "sse \<Rightarrow> bool" where
  "sse_quiet s \<longleftrightarrow> ss_phase s = Waiting \<and> \<not> ss_full s \<and> ss_writers s = 0"

text \<open>
  Writer against end of stream: the writer has taken the set of channels and unlocked; the
  stream's \<^verbatim>\<open>stop\<close> removes its channel under the lock and closes it; then the writer sends.
\<close>

datatype race_event = WriterSnapshot | WriterSend | StopUnregister | StopClose

record race =
  rc_registered :: bool
  rc_snapshot :: bool
  rc_chan :: chan
  rc_panic :: bool

fun race_step :: "race_event \<Rightarrow> race \<Rightarrow> race" where
  "race_step WriterSnapshot s = s\<lparr>rc_snapshot := rc_registered s\<rparr>"
| "race_step WriterSend s =
     (if rc_snapshot s then
        (case try_send (rc_chan s) of
           Panic \<Rightarrow> s\<lparr>rc_panic := True, rc_snapshot := False\<rparr>
         | Ok c \<Rightarrow> s\<lparr>rc_chan := c, rc_snapshot := False\<rparr>)
      else s)"
| "race_step StopUnregister s = s\<lparr>rc_registered := False\<rparr>"
| "race_step StopClose s =
     (if rc_registered s then s
      else case chan_close (rc_chan s) of Panic \<Rightarrow> s\<lparr>rc_panic := True\<rparr> | Ok c \<Rightarrow> s\<lparr>rc_chan := c\<rparr>)"

definition race0 :: race where
  "race0 = \<lparr>rc_registered = True, rc_snapshot = False, rc_chan = chan_new, rc_panic = False\<rparr>"

section \<open>Lemmas\<close>

interpretation hub: expiring_store "\<lambda>h sid. hub_get sid h" "\<lambda>c e. c \<le> se_UpdatedAt e" hub_sweep
  by unfold_locales
    (auto simp: hub_get_def hub_sweep_def hub_stale_def not_less split: option.splits)

lemma hub_gc_sweeps: "0 < ttl \<Longrightarrow> fold (hub_gc ttl) nows h = fold hub_sweep (map (\<lambda>now. now - ttl) nows) h"
  by (induction nows arbitrary: h) (simp_all add: hub_gc_def)

text \<open>
  The streams that are open, by their channel: whether they watch the offer, and which
  session. The hub sends only to channels of open streams, which are open channels.
\<close>

type_synonym streams = "nat \<Rightarrow> (bool \<times> string) option"

definition owns :: "session_hub \<Rightarrow> bool \<Rightarrow> string \<Rightarrow> nat \<Rightarrow> bool" where
  "owns h isOffer sid ch \<longleftrightarrow> ch \<in> watchers_of (if isOffer then sh_watchO h else sh_watchA h) sid"

definition hub_inv :: "session_hub \<Rightarrow> streams \<Rightarrow> bool" where
  "hub_inv h os \<longleftrightarrow>
     (\<forall>k sid ch. owns h k sid ch \<longrightarrow> os ch = Some (k, sid)) \<and>
     (\<forall>ch. os ch \<noteq> None \<longrightarrow> ch < sh_next h \<and> \<not> ch_closed (sh_chans h ch))"

lemma hub_inv_new: "hub_inv newSessionHub Map.empty"
  by (simp add: hub_inv_def owns_def newSessionHub_def watchers_of_def)

lemma hub_inv_open: "hub_inv h os \<Longrightarrow> owns h k sid ch \<Longrightarrow> \<not> ch_closed (sh_chans h ch)"
  by (auto simp: hub_inv_def)

lemma hub_inv_fresh: "hub_inv h os \<Longrightarrow> os (sh_next h) = None"
  unfolding hub_inv_def by (metis less_irrefl)

lemma send_all_closed [simp]: "ch_closed (send_all ws chans i) = ch_closed (chans i)"
  by (simp add: send_all_def try_send_def)

lemma hub_inv_cong:
  "hub_inv h os \<Longrightarrow> owns h' = owns h \<Longrightarrow> sh_next h' = sh_next h \<Longrightarrow>
     (\<And>i. ch_closed (sh_chans h' i) = ch_closed (sh_chans h i)) \<Longrightarrow> hub_inv h' os"
  by (simp add: hub_inv_def)

lemma setOffer_inv:
  assumes "hub_inv h os"
  obtains h' where "setOffer sid body now h = Some h'" "hub_inv h' os"
proof -
  have "owns h True sid i \<Longrightarrow> \<not> ch_closed (sh_chans h i)" for i using assms by (rule hub_inv_open)
  then have "\<not> (\<exists>i \<in> watchers_of (sh_watchO h) sid. try_send (sh_chans h i) = Panic)"
    by (auto simp: owns_def try_send_def)
  then obtain h' where h': "setOffer sid body now h = Some h'" by (simp add: setOffer_def Let_def)
  have "hub_inv h' os"
    by (rule hub_inv_cong [OF assms])
      (use h' in \<open>auto simp: setOffer_def Let_def owns_def fun_eq_iff split: if_splits\<close>)
  with h' show thesis by (rule that)
qed

lemma setAnswer_inv:
  assumes "hub_inv h os"
  obtains h' where "setAnswer sid body now h = Some h'" "hub_inv h' os"
proof -
  have "owns h False sid i \<Longrightarrow> \<not> ch_closed (sh_chans h i)" for i using assms by (rule hub_inv_open)
  then have "\<not> (\<exists>i \<in> watchers_of (sh_watchA h) sid. try_send (sh_chans h i) = Panic)"
    by (auto simp: owns_def try_send_def)
  then obtain h' where h': "setAnswer sid body now h = Some h'" by (simp add: setAnswer_def Let_def)
  have "hub_inv h' os"
    by (rule hub_inv_cong [OF assms])
      (use h' in \<open>auto simp: setAnswer_def Let_def owns_def fun_eq_iff split: if_splits\<close>)
  with h' show thesis by (rule that)
qed

lemma owns_watch:
  "owns (snd (watchOffer sid h)) k s ch \<longleftrightarrow> owns h k s ch \<or> (k \<and> s = sid \<and> ch = sh_next h)"
  "owns (snd (watchAnswer sid h)) k s ch \<longleftrightarrow> owns h k s ch \<or> (\<not> k \<and> s = sid \<and> ch = sh_next h)"
  by (auto simp: owns_def watchOffer_def watchAnswer_def watchers_of_def Let_def)

lemma watch_inv:
  assumes "hub_inv h os"
  shows "hub_inv (snd (watchOffer sid h)) (os(sh_next h \<mapsto> (True, sid)))"
    and "hub_inv (snd (watchAnswer sid h)) (os(sh_next h \<mapsto> (False, sid)))"
proof -
  have st: "sh_next (snd (watchOffer sid h)) = Suc (sh_next h)" "sh_next (snd (watchAnswer sid h)) = Suc (sh_next h)"
    "sh_chans (snd (watchOffer sid h)) = (sh_chans h)(sh_next h := chan_new)"
    "sh_chans (snd (watchAnswer sid h)) = (sh_chans h)(sh_next h := chan_new)"
    by (simp_all add: watchOffer_def watchAnswer_def Let_def)
  have os: "owns h k s ch \<Longrightarrow> os ch = Some (k, s) \<and> ch \<noteq> sh_next h" for k s ch
    using assms hub_inv_fresh [OF assms] by (auto simp: hub_inv_def)
  have lt: "os ch \<noteq> None \<Longrightarrow> ch < Suc (sh_next h) \<and> \<not> ch_closed (sh_chans h ch)" for ch
    using assms by (auto simp: hub_inv_def less_Suc_eq)
  show "hub_inv (snd (watchOffer sid h)) (os(sh_next h \<mapsto> (True, sid)))"
    "hub_inv (snd (watchAnswer sid h)) (os(sh_next h \<mapsto> (False, sid)))"
    unfolding hub_inv_def owns_watch st using os lt by (auto simp: chan_new_def)
qed

lemma owns_sweep: "owns (hub_sweep c h) k s ch \<Longrightarrow> owns h k s ch"
  by (auto simp: owns_def hub_sweep_def watchers_of_def split: if_splits)

lemma gc_inv: "hub_inv h os \<Longrightarrow> hub_inv (hub_gc ttl now h) os"
  using owns_sweep [of "now - ttl" h] by (auto simp: hub_inv_def hub_gc_def hub_sweep_def)

lemma unwatch_iff: "ch' \<in> watchers_of (unwatch w sid ch) s \<longleftrightarrow> ch' \<in> watchers_of w s \<and> \<not> (s = sid \<and> ch' = ch)"
  by (auto simp: unwatch_def watchers_of_def split: option.splits if_splits)

lemma stop_some:
  "\<not> ch_closed (sh_chans h ch) \<Longrightarrow> stopOffer sid ch h =
     Some (h\<lparr>sh_watchO := unwatch (sh_watchO h) sid ch, sh_chans := (sh_chans h)(ch := (sh_chans h ch)\<lparr>ch_closed := True\<rparr>)\<rparr>)"
  "\<not> ch_closed (sh_chans h ch) \<Longrightarrow> stopAnswer sid ch h =
     Some (h\<lparr>sh_watchA := unwatch (sh_watchA h) sid ch, sh_chans := (sh_chans h)(ch := (sh_chans h ch)\<lparr>ch_closed := True\<rparr>)\<rparr>)"
  by (simp_all add: stopOffer_def stopAnswer_def chan_close_def Let_def)

lemma hub_inv_drop:
  assumes "hub_inv h os" "os ch = Some (k, sid)" "sh_next h' = sh_next h"
    "\<And>k' s c. owns h' k' s c \<longleftrightarrow> owns h k' s c \<and> \<not> (k' = k \<and> s = sid \<and> c = ch)"
    "\<And>c. c \<noteq> ch \<Longrightarrow> sh_chans h' c = sh_chans h c"
  shows "hub_inv h' (os(ch := None))"
  unfolding hub_inv_def assms(3,4)
proof (intro conjI allI impI)
  fix k' s c assume "owns h k' s c \<and> \<not> (k' = k \<and> s = sid \<and> c = ch)"
  moreover from this assms(1) have "os c = Some (k', s)" by (simp add: hub_inv_def)
  ultimately show "(os(ch := None)) c = Some (k', s)" using assms(2) by auto
next
  fix c assume "(os(ch := None)) c \<noteq> None"
  then have "c \<noteq> ch" "os c \<noteq> None" by (auto split: if_splits)
  then show "c < sh_next h" "\<not> ch_closed (sh_chans h' c)" using assms(1,5) by (simp_all add: hub_inv_def)
qed

lemma owns_iff:
  "owns h k sid ch \<longleftrightarrow> (if k then ch \<in> watchers_of (sh_watchO h) sid else ch \<in> watchers_of (sh_watchA h) sid)"
  by (simp add: owns_def)

lemma stop_inv:
  assumes "hub_inv h os"
  shows "os ch = Some (True, sid) \<Longrightarrow> \<exists>h'. stopOffer sid ch h = Some h' \<and> hub_inv h' (os(ch := None))"
    and "os ch = Some (False, sid) \<Longrightarrow> \<exists>h'. stopAnswer sid ch h = Some h' \<and> hub_inv h' (os(ch := None))"
proof -
  have opn: "os ch \<noteq> None \<Longrightarrow> \<not> ch_closed (sh_chans h ch)" using assms by (simp add: hub_inv_def)
  show "\<exists>h'. stopOffer sid ch h = Some h' \<and> hub_inv h' (os(ch := None))" if os: "os ch = Some (True, sid)"
    using opn os
    by (auto simp: stop_some owns_iff unwatch_iff intro!: hub_inv_drop [OF assms os] split: if_splits)
  show "\<exists>h'. stopAnswer sid ch h = Some h' \<and> hub_inv h' (os(ch := None))" if os: "os ch = Some (False, sid)"
    using opn os
    by (auto simp: stop_some owns_iff unwatch_iff intro!: hub_inv_drop [OF assms os] split: if_splits)
qed

section \<open>Runs of the hub\<close>

text \<open>
  The calls the handlers make, one at a time. \<open>Stop ch\<close> is the deferred \<^verbatim>\<open>stop\<close> of the stream
  that owns the channel; a stream has it once, so on any other channel there is no such call.
\<close>

datatype hub_op =
  SetOffer string bytes instant | SetAnswer string bytes instant
| WatchOffer string | WatchAnswer string | Stop nat | Gc duration instant

fun hub_exec :: "hub_op \<Rightarrow> session_hub \<times> streams \<Rightarrow> (session_hub \<times> streams) option" where
  "hub_exec (SetOffer sid b t) (h, os) = map_option (\<lambda>h'. (h', os)) (setOffer sid b t h)"
| "hub_exec (SetAnswer sid b t) (h, os) = map_option (\<lambda>h'. (h', os)) (setAnswer sid b t h)"
| "hub_exec (WatchOffer sid) (h, os) = (case watchOffer sid h of (ch, h') \<Rightarrow> Some (h', os(ch \<mapsto> (True, sid))))"
| "hub_exec (WatchAnswer sid) (h, os) = (case watchAnswer sid h of (ch, h') \<Rightarrow> Some (h', os(ch \<mapsto> (False, sid))))"
| "hub_exec (Stop ch) (h, os) =
     (case os ch of
        None \<Rightarrow> Some (h, os)
      | Some (k, sid) \<Rightarrow>
          map_option (\<lambda>h'. (h', os(ch := None))) (if k then stopOffer sid ch h else stopAnswer sid ch h))"
| "hub_exec (Gc ttl now) (h, os) = Some (hub_gc ttl now h, os)"

fun hub_run :: "hub_op list \<Rightarrow> session_hub \<times> streams \<Rightarrow> (session_hub \<times> streams) option" where
  "hub_run [] s = Some s"
| "hub_run (op # ops) s = Option.bind (hub_exec op s) (hub_run ops)"

text \<open>What the hub promises, without watchers and channels: a map with last-write-wins entries.\<close>

fun store_step :: "hub_op \<Rightarrow> (string \<rightharpoonup> session_entry) \<Rightarrow> (string \<rightharpoonup> session_entry)" where
  "store_step (SetOffer sid b t) m =
     m(sid \<mapsto> \<lparr>se_Offer = b, se_Answer = (case m sid of None \<Rightarrow> [] | Some e \<Rightarrow> se_Answer e), se_UpdatedAt = t\<rparr>)"
| "store_step (SetAnswer sid b t) m =
     m(sid \<mapsto> \<lparr>se_Offer = (case m sid of None \<Rightarrow> [] | Some e \<Rightarrow> se_Offer e), se_Answer = b, se_UpdatedAt = t\<rparr>)"
| "store_step (Gc ttl now) m = (if ttl \<le> 0 then m else (\<lambda>sid. Option.bind (m sid) (\<lambda>e. if se_UpdatedAt e < now - ttl then None else Some e)))"
| "store_step _ m = m"

lemma set_sessions:
  "setOffer sid b t h = Some h' \<Longrightarrow> sh_sessions h' = store_step (SetOffer sid b t) (sh_sessions h)"
  "setAnswer sid b t h = Some h' \<Longrightarrow> sh_sessions h' = store_step (SetAnswer sid b t) (sh_sessions h)"
  by (auto simp: setOffer_def setAnswer_def entry_or_new_def Let_def split: if_splits option.splits)

lemma other_sessions:
  "sh_sessions (snd (watchOffer sid h)) = sh_sessions h"
  "sh_sessions (snd (watchAnswer sid h)) = sh_sessions h"
  "stopOffer sid ch h = Some h' \<Longrightarrow> sh_sessions h' = sh_sessions h"
  "stopAnswer sid ch h = Some h' \<Longrightarrow> sh_sessions h' = sh_sessions h"
  "sh_sessions (hub_gc ttl now h) = store_step (Gc ttl now) (sh_sessions h)"
  by (auto simp: watchOffer_def watchAnswer_def stopOffer_def stopAnswer_def hub_gc_def hub_sweep_def hub_stale_def
      Let_def fun_eq_iff split: chan_result.splits option.splits bind_splits)

lemma hub_exec_step:
  assumes inv: "hub_inv h os"
  shows "\<exists>h' os'. hub_exec op (h, os) = Some (h', os') \<and> hub_inv h' os' \<and> sh_sessions h' = store_step op (sh_sessions h)"
proof (cases op)
  case (SetOffer sid b t)
  with setOffer_inv [OF inv, of sid b t] set_sessions(1) [of sid b t h] show ?thesis by (metis hub_exec.simps(1) option.simps(9))
next
  case (SetAnswer sid b t)
  with setAnswer_inv [OF inv, of sid b t] set_sessions(2) [of sid b t h] show ?thesis by (metis hub_exec.simps(2) option.simps(9))
next
  case (WatchOffer sid)
  moreover have "fst (watchOffer sid h) = sh_next h" by (simp add: watchOffer_def Let_def)
  ultimately show ?thesis using watch_inv(1) [OF inv, of sid] other_sessions(1) [of sid h] by (auto split: prod.split)
next
  case (WatchAnswer sid)
  moreover have "fst (watchAnswer sid h) = sh_next h" by (simp add: watchAnswer_def Let_def)
  ultimately show ?thesis using watch_inv(2) [OF inv, of sid] other_sessions(2) [of sid h] by (auto split: prod.split)
next
  case (Stop ch)
  show ?thesis
  proof (cases "os ch")
    case None with Stop inv show ?thesis by simp
  next
    case (Some ks)
    then obtain k sid where ks: "os ch = Some (k, sid)" by (cases ks) simp
    show ?thesis
    proof (cases k)
      case True with ks Stop stop_inv(1) [OF inv, of ch sid] show ?thesis by (auto dest: other_sessions(3))
    next
      case False with ks Stop stop_inv(2) [OF inv, of ch sid] show ?thesis by (auto dest: other_sessions(4))
    qed
  qed
next
  case (Gc ttl now) with inv show ?thesis by (simp add: gc_inv other_sessions(5) del: store_step.simps)
qed

lemma hub_run_steps:
  "hub_inv h os \<Longrightarrow> \<exists>h' os'. hub_run ops (h, os) = Some (h', os') \<and> sh_sessions h' = fold store_step ops (sh_sessions h)"
proof (induction ops arbitrary: h os)
  case (Cons op ops)
  from hub_exec_step [OF Cons.prems, of op] obtain h1 os1
    where 1: "hub_exec op (h, os) = Some (h1, os1)" "hub_inv h1 os1" "sh_sessions h1 = store_step op (sh_sessions h)" by blast
  from Cons.IH [OF 1(2)] 1 show ?case by simp
qed simp

section \<open>Properties\<close>

text \<open>
  C27: The session hub implements the abstract offer/answer store. Every sequence of calls the
  handlers can make runs to the end without a panic (no notification is sent on a closed
  channel and no channel is closed twice), and leaves exactly the entries of a plain map with
  last-write-wins offers and answers and expiry, whatever streams come and go in between.
\<close>

theorem hub_refines_store:
  "\<exists>h os. hub_run ops (newSessionHub, Map.empty) = Some (h, os) \<and> sh_sessions h = fold store_step ops Map.empty"
  using hub_run_steps [OF hub_inv_new, of ops] by (simp add: newSessionHub_def)


text \<open>
  Expiry is exact. After an offer is stored at time t and any number of collection ticks at
  any times with a positive lifetime, the offer is still returned if and only if no tick came
  more than the lifetime after t; while it is there, the answer stored with it is unchanged.
\<close>

lemma hub_expiry_exact:
  assumes "0 < ttl" "setOffer sid body t h = Some h'"
  shows "map_option se_Offer (hub_get sid (fold (hub_gc ttl) nows h')) =
           (if \<exists>now \<in> set nows. t + ttl < now then None else Some body) \<and>
         map_option se_Answer (hub_get sid (fold (hub_gc ttl) nows h')) =
           (if \<exists>now \<in> set nows. t + ttl < now then None else Some (se_Answer (entry_or_new sid h)))"
proof -
  have "hub_get sid h' = Some ((entry_or_new sid h)\<lparr>se_Offer := body, se_UpdatedAt := t\<rparr>)"
    using assms(2) by (auto simp: setOffer_def hub_get_def Let_def split: if_splits)
  moreover have "(\<forall>c \<in> set (map (\<lambda>now. now - ttl) nows). c \<le> t) \<longleftrightarrow> \<not> (\<exists>now \<in> set nows. t + ttl < now)"
    by (auto simp: not_less algebra_simps)
  ultimately show ?thesis
    by (simp add: hub_gc_sweeps [OF assms(1)] hub.sweeps_exact del: set_map)
qed

lemma sse_inv_step:
  "e \<noteq> Collect \<Longrightarrow>
   (ss_phase s \<noteq> Unregistered \<longrightarrow> ss_watched s) \<and>
   (ss_phase s = Waiting \<longrightarrow> ss_last s = ss_value s \<or> ss_full s \<or> 0 < ss_writers s) \<Longrightarrow>
   (ss_phase (sse_step e s) \<noteq> Unregistered \<longrightarrow> ss_watched (sse_step e s)) \<and>
   (ss_phase (sse_step e s) = Waiting \<longrightarrow>
      ss_last (sse_step e s) = ss_value (sse_step e s) \<or> ss_full (sse_step e s) \<or> 0 < ss_writers (sse_step e s))"
  by (cases e) auto

lemma sse_inv_run:
  "Collect \<notin> set es \<Longrightarrow>
   (ss_phase s \<noteq> Unregistered \<longrightarrow> ss_watched s) \<and>
   (ss_phase s = Waiting \<longrightarrow> ss_last s = ss_value s \<or> ss_full s \<or> 0 < ss_writers s) \<Longrightarrow>
   ss_phase (fold sse_step es s) = Waiting \<Longrightarrow>
   ss_last (fold sse_step es s) = ss_value (fold sse_step es s) \<or> ss_full (fold sse_step es s) \<or> 0 < ss_writers (fold sse_step es s)"
proof (induction es arbitrary: s)
  case (Cons e es)
  from Cons.prems(1) have "Collect \<notin> set es" by simp
  moreover from Cons.prems(1) have "e \<noteq> Collect" by auto
  note sse_inv_step [OF this Cons.prems(2)]
  moreover from Cons.prems(3) have "ss_phase (fold sse_step es (sse_step e s)) = Waiting" by simp
  ultimately have "ss_last (fold sse_step es (sse_step e s)) = ss_value (fold sse_step es (sse_step e s)) \<or>
    ss_full (fold sse_step es (sse_step e s)) \<or> 0 < ss_writers (fold sse_step es (sse_step e s))" by (rule Cons.IH)
  then show ?case by simp
qed simp

text \<open>
  C37: No lost update on a session stream. In every interleaving of writers storing values and
  sending their notifications (after the lock is released, and dropped when the channel is
  full) with a stream that registers, sends the current value and then sends after each
  notification, once nothing is pending the last value sent to the client is the stored one,
  as long as the collector does not drop the stream's registration.
\<close>

theorem sse_no_lost_update:
  assumes "Collect \<notin> set es" "sse_quiet (fold sse_step es sse0)"
  shows "ss_last (fold sse_step es sse0) = ss_value (fold sse_step es sse0)"
  using sse_inv_run [OF assms(1), of sse0] assms(2) by (simp add: sse_quiet_def sse0_def)

theorem sse_no_lost_update_witness:
  "ss_last (fold sse_step [Register, SendCurrent, Store [1], Store [2], Notify, Take, Notify, SendUpdate, Take, SendUpdate] sse0) = [2]"
  using sse_no_lost_update [of "[Register, SendCurrent, Store [1], Store [2], Notify, Take, Notify, SendUpdate, Take, SendUpdate]"]
  by (simp add: sse_quiet_def sse0_def)

text \<open>
  What breaks the stream protocol. If the collector drops the expired session while a
  stream is waiting, a later offer never reaches that stream although it is still open and
  nothing is pending; and because notifications are sent after the lock is released, a stream
  that ends between a writer's look at the watchers and its send makes the writer send on a
  closed channel, which panics.
\<close>

lemma sse_collect_and_close_break:
  "sse_quiet (fold sse_step [Register, SendCurrent, Collect, Store [1]] sse0) \<and>
   ss_last (fold sse_step [Register, SendCurrent, Collect, Store [1]] sse0) \<noteq>
     ss_value (fold sse_step [Register, SendCurrent, Collect, Store [1]] sse0) \<and>
   rc_panic (fold race_step [WriterSnapshot, StopUnregister, StopClose, WriterSend] race0)"
  by (simp add: sse_quiet_def sse0_def race0_def chan_new_def chan_close_def try_send_def)

end
