(* ===== verification/Discovery_Hub.thy ===== *)
theory Discovery_Hub
  imports Session_Hub "HOL-Library.Multiset"
begin

text \<open>
  The registry of running proxies (\<^verbatim>\<open>discoveryHub\<close> in
  \<^verbatim>\<open>signalserver/cmd/signalserver/main.go\<close>): registration, heartbeat, removal, expiry, the
  listing of a room and its sort by age, and the channels of the watching streams. The order
  in which Go walks the map of listings is an argument of the listing.
\<close>

section \<open>The registry\<close>

record listing =
  l_ID :: string
  l_Name :: string
  l_Room :: string
  l_Code :: string
  l_Method :: string
  l_Transport :: string
  l_Protocol :: string
  l_NatMapping :: string
  l_NatFiltering :: string
  l_UpdatedAt :: instant

record discovery_hub =
  dh_listings :: "string \<Rightarrow> listing option"
  dh_watchers :: "nat set"
  dh_chans :: "nat \<Rightarrow> chan"
  dh_next :: nat

definition newDiscoveryHub :: discovery_hub where
  "newDiscoveryHub = \<lparr>dh_listings = Map.empty, dh_watchers = {}, dh_chans = (\<lambda>_. chan_new), dh_next = 0\<rparr>"

text \<open>The identifier made of \<open>n\<close> random letters; \<open>draw i\<close> is the answer of the \<open>i\<close>-th \<^verbatim>\<open>rand.Intn(62)\<close>.\<close>

definition letters :: string where
  "letters = ''abcdefghijklmnopqrstuvwxyzABCDEFGHIJKLMNOPQRSTUVWXYZ0123456789''"

definition randomID :: "(nat \<Rightarrow> nat) \<Rightarrow> nat \<Rightarrow> string" where
  "randomID draw n = map (\<lambda>i. letters ! draw i) [0..<n]"

definition register_listing :: "(nat \<Rightarrow> nat) \<Rightarrow> instant \<Rightarrow> listing \<Rightarrow> discovery_hub \<Rightarrow> string \<times> discovery_hub" where
  "register_listing draw now l d =
     (let i = (if l_ID l = [] then randomID draw 12 else l_ID l)
      in (i, d\<lparr>dh_listings := (dh_listings d)(i \<mapsto> l\<lparr>l_ID := i, l_UpdatedAt := now\<rparr>)\<rparr>))"

definition heartbeat :: "string \<Rightarrow> instant \<Rightarrow> discovery_hub \<Rightarrow> bool \<times> discovery_hub" where
  "heartbeat i now d =
     (case dh_listings d i of
        None \<Rightarrow> (False, d)
      | Some l \<Rightarrow> (True, d\<lparr>dh_listings := (dh_listings d)(i \<mapsto> l\<lparr>l_UpdatedAt := now\<rparr>)\<rparr>))"

definition remove_listing :: "string \<Rightarrow> discovery_hub \<Rightarrow> discovery_hub" where
  "remove_listing i d = d\<lparr>dh_listings := (dh_listings d)(i := None)\<rparr>"

text \<open>\<open>order\<close> is the order in which the map is walked.\<close>

definition list_room :: "string list \<Rightarrow> string \<Rightarrow> discovery_hub \<Rightarrow> listing list" where
  "list_room order room d =
     filter (\<lambda>l. \<not> (room \<noteq> [] \<and> l_Room l \<noteq> room)) (List.map_filter (dh_listings d) order)"

definition watch_hub :: "discovery_hub \<Rightarrow> nat \<times> discovery_hub" where
  "watch_hub d =
     (let ch = dh_next d
      in (ch, d\<lparr>dh_watchers := insert ch (dh_watchers d), dh_chans := (dh_chans d)(ch := chan_new), dh_next := ch + 1\<rparr>))"

definition stop_hub :: "nat \<Rightarrow> discovery_hub \<Rightarrow> discovery_hub option" where
  "stop_hub ch d =
     (case chan_close (dh_chans d ch) of
        Panic \<Rightarrow> None
      | Ok c \<Rightarrow> Some (d\<lparr>dh_watchers := dh_watchers d - {ch}, dh_chans := (dh_chans d)(ch := c)\<rparr>))"

definition notifyAll :: "discovery_hub \<Rightarrow> discovery_hub option" where
  "notifyAll d =
     (if \<exists>i \<in> dh_watchers d. try_send (dh_chans d i) = Panic then None
      else Some (d\<lparr>dh_chans := send_all (dh_watchers d) (dh_chans d)\<rparr>))"

definition disc_sweep :: "instant \<Rightarrow> discovery_hub \<Rightarrow> discovery_hub" where
  "disc_sweep cutoff d =
     d\<lparr>dh_listings := (\<lambda>i. case dh_listings d i of
          None \<Rightarrow> None
        | Some l \<Rightarrow> if l_UpdatedAt l < cutoff then None else Some l)\<rparr>"

text \<open>One tick: the watchers are told when something was dropped.\<close>

definition disc_gc :: "duration \<Rightarrow> instant \<Rightarrow> discovery_hub \<Rightarrow> discovery_hub option" where
  "disc_gc ttl now d =
     (if ttl \<le> 0 then Some d
      else let d' = disc_sweep (now - ttl) d
           in if dom (dh_listings d') \<noteq> dom (dh_listings d) then notifyAll d' else Some d')"

section \<open>Sorting the listings\<close>

definition swap_if_newer :: "nat \<Rightarrow> nat \<Rightarrow> listing list \<Rightarrow> listing list" where
  "swap_if_newer i j xs = (if l_UpdatedAt (xs ! i) < l_UpdatedAt (xs ! j) then xs[i := xs ! j, j := xs ! i] else xs)"

definition sort_pass :: "nat \<Rightarrow> listing list \<Rightarrow> listing list" where
  "sort_pass i xs = fold (swap_if_newer i) [Suc i..<length xs] xs"

definition sortByUpdatedDesc :: "listing list \<Rightarrow> listing list" where
  "sortByUpdatedDesc xs = fold sort_pass [0..<length xs] xs"

definition servers_of :: "string list \<Rightarrow> string \<Rightarrow> discovery_hub \<Rightarrow> listing list" where
  "servers_of order room d = sortByUpdatedDesc (list_room order room d)"

section \<open>Lemmas on the sort\<close>

lemma length_swap [simp]: "length (swap_if_newer i j xs) = length xs"
  by (simp add: swap_if_newer_def)

lemma mset_swap_if: "i < length xs \<Longrightarrow> j < length xs \<Longrightarrow> mset (swap_if_newer i j xs) = mset xs"
  by (simp add: swap_if_newer_def mset_swap)

text \<open>The first \<open>i\<close> places are right: nothing behind them is newer.\<close>

definition desc_upto :: "nat \<Rightarrow> listing list \<Rightarrow> bool" where
  "desc_upto i xs \<longleftrightarrow> (\<forall>p < i. \<forall>q. p < q \<and> q < length xs \<longrightarrow> l_UpdatedAt (xs ! q) \<le> l_UpdatedAt (xs ! p))"

lemma swap_desc_upto:
  assumes "desc_upto i xs" "i < j" "j < length xs"
  shows "desc_upto i (swap_if_newer i j xs)"
  unfolding desc_upto_def
proof (intro allI impI)
  fix p q assume p: "p < i" and q: "p < q \<and> q < length (swap_if_newer i j xs)"
  define q' where "q' = (if l_UpdatedAt (xs ! i) < l_UpdatedAt (xs ! j) then if q = j then i else if q = i then j else q else q)"
  have "p < q'" "q' < length xs" using p q assms(2,3) by (simp_all add: q'_def)
  moreover have "swap_if_newer i j xs ! q = xs ! q'"
    using assms(2,3) by (simp add: swap_if_newer_def q'_def nth_list_update)
  moreover have "swap_if_newer i j xs ! p = xs ! p" using p assms(2) by (simp add: swap_if_newer_def)
  ultimately show "l_UpdatedAt (swap_if_newer i j xs ! q) \<le> l_UpdatedAt (swap_if_newer i j xs ! p)"
    using assms(1) p by (simp add: desc_upto_def)
qed

text \<open>During a pass: also place \<open>i\<close> is right up to place \<open>k\<close>.\<close>

definition pass_inv :: "nat \<Rightarrow> nat \<Rightarrow> listing list \<Rightarrow> listing list \<Rightarrow> bool" where
  "pass_inv i k xs ys \<longleftrightarrow> length ys = length xs \<and> mset ys = mset xs \<and> desc_upto i ys \<and>
     (\<forall>q. i < q \<and> q < k \<longrightarrow> l_UpdatedAt (ys ! q) \<le> l_UpdatedAt (ys ! i))"

lemma pass_inv_step:
  assumes "pass_inv i k xs ys" "i < k" "k < length xs"
  shows "pass_inv i (Suc k) xs (swap_if_newer i k ys)"
proof -
  have "length ys = length xs" using assms(1) by (simp add: pass_inv_def)
  then have "l_UpdatedAt (swap_if_newer i k ys ! q) \<le> l_UpdatedAt (swap_if_newer i k ys ! i)" if "i < q \<and> q < Suc k" for q
    using that assms by (cases "q = k") (auto simp: swap_if_newer_def pass_inv_def intro: order_trans less_imp_le)
  with assms swap_desc_upto [of i ys k] mset_swap_if [of i ys k] show ?thesis by (simp add: pass_inv_def)
qed

lemma pass_inv_run:
  assumes "desc_upto i xs" "i < length xs" "k \<le> length xs" "Suc i \<le> k"
  shows "pass_inv i k xs (fold (swap_if_newer i) [Suc i..<k] xs)"
  using assms(4,3)
proof (induction k rule: dec_induct)
  case base show ?case using assms(1) by (simp add: pass_inv_def)
next
  case (step k)
  then have "pass_inv i k xs (fold (swap_if_newer i) [Suc i..<k] xs)" by simp
  from pass_inv_step [OF this] step show ?case by simp
qed

lemma sort_pass_ok:
  assumes "desc_upto i xs" "i < length xs"
  shows "length (sort_pass i xs) = length xs" "mset (sort_pass i xs) = mset xs" "desc_upto (Suc i) (sort_pass i xs)"
proof -
  have "pass_inv i (length xs) xs (sort_pass i xs)"
    unfolding sort_pass_def using assms by (intro pass_inv_run) simp_all
  then show "length (sort_pass i xs) = length xs" "mset (sort_pass i xs) = mset xs" "desc_upto (Suc i) (sort_pass i xs)"
    by (auto simp: pass_inv_def desc_upto_def less_Suc_eq)
qed

lemma sort_passes_ok:
  "k \<le> length xs \<Longrightarrow> length (fold sort_pass [0..<k] xs) = length xs \<and>
     mset (fold sort_pass [0..<k] xs) = mset xs \<and> desc_upto k (fold sort_pass [0..<k] xs)"
proof (induction k)
  case (Suc k)
  then show ?case using sort_pass_ok [of k "fold sort_pass [0..<k] xs"] by simp
qed (simp add: desc_upto_def)

lemma sort_ok:
  "mset (sortByUpdatedDesc xs) = mset xs"
  "sorted_wrt (\<lambda>a b. l_UpdatedAt b \<le> l_UpdatedAt a) (sortByUpdatedDesc xs)"
  using sort_passes_ok [of "length xs" xs]
  by (auto simp: sortByUpdatedDesc_def desc_upto_def sorted_wrt_iff_nth_less)


section \<open>Runs of the registry\<close>

text \<open>The calls of the handlers and of the collector; a stream stops its own channel, once.\<close>

datatype disc_op =
  Register "nat \<Rightarrow> nat" listing instant | Heartbeat string instant | Remove string
| Watch | StopWatch nat | Tick duration instant

fun disc_exec :: "disc_op \<Rightarrow> discovery_hub \<Rightarrow> discovery_hub option" where
  "disc_exec (Register draw l t) d = notifyAll (snd (register_listing draw t l d))"
| "disc_exec (Heartbeat i t) d = Some (snd (heartbeat i t d))"
| "disc_exec (Remove i) d = notifyAll (remove_listing i d)"
| "disc_exec Watch d = Some (snd (watch_hub d))"
| "disc_exec (StopWatch ch) d = (if ch \<in> dh_watchers d then stop_hub ch d else Some d)"
| "disc_exec (Tick ttl now) d = disc_gc ttl now d"

fun disc_run :: "disc_op list \<Rightarrow> discovery_hub \<Rightarrow> discovery_hub option" where
  "disc_run [] d = Some d"
| "disc_run (op # ops) d = Option.bind (disc_exec op d) (disc_run ops)"

text \<open>What the registry promises of one identifier: when it was last refreshed, if it is there.\<close>

fun fresh_step :: "string \<Rightarrow> disc_op \<Rightarrow> instant option \<Rightarrow> instant option" where
  "fresh_step i (Register draw l t) u = (if (if l_ID l = [] then randomID draw 12 else l_ID l) = i then Some t else u)"
| "fresh_step i (Heartbeat i' t) u = (if i' = i then map_option (\<lambda>_. t) u else u)"
| "fresh_step i (Remove i') u = (if i' = i then None else u)"
| "fresh_step i (Tick ttl now) u = (if 0 < ttl then Option.bind u (\<lambda>v. if v + ttl < now then None else Some v) else u)"
| "fresh_step i _ u = u"

definition disc_inv :: "discovery_hub \<Rightarrow> bool" where
  "disc_inv d \<longleftrightarrow>
     (\<forall>ch \<in> dh_watchers d. ch < dh_next d \<and> \<not> ch_closed (dh_chans d ch)) \<and>
     (\<forall>i l. dh_listings d i = Some l \<longrightarrow> l_ID l = i)"

lemma disc_inv_new: "disc_inv newDiscoveryHub"
  by (simp add: disc_inv_def newDiscoveryHub_def)

lemma notifyAll_ok:
  assumes "disc_inv d"
  shows "\<exists>d'. notifyAll d = Some d' \<and> disc_inv d' \<and> dh_listings d' = dh_listings d"
  using assms by (auto simp: notifyAll_def disc_inv_def try_send_def)

text \<open>Each operation on the listings, seen at one identifier.\<close>

definition freshness :: "discovery_hub \<Rightarrow> string \<Rightarrow> instant option" where
  "freshness d i = map_option l_UpdatedAt (dh_listings d i)"

lemma register_ok:
  assumes "disc_inv d"
  shows "disc_inv (snd (register_listing draw t l d))"
    and "freshness (snd (register_listing draw t l d)) i = fresh_step i (Register draw l t) (freshness d i)"
  using assms by (auto simp: register_listing_def freshness_def disc_inv_def Let_def)

lemma heartbeat_ok:
  assumes "disc_inv d"
  shows "disc_inv (snd (heartbeat i' t d))"
    and "freshness (snd (heartbeat i' t d)) i = fresh_step i (Heartbeat i' t) (freshness d i)"
  using assms by (auto simp: heartbeat_def freshness_def disc_inv_def split: option.splits)

lemma remove_ok:
  assumes "disc_inv d"
  shows "disc_inv (remove_listing i' d)"
    and "freshness (remove_listing i' d) i = fresh_step i (Remove i') (freshness d i)"
  using assms by (auto simp: remove_listing_def freshness_def disc_inv_def)

lemma sweep_ok:
  assumes "disc_inv d"
  shows "disc_inv (disc_sweep c d)"
    and "freshness (disc_sweep c d) i = Option.bind (freshness d i) (\<lambda>v. if v < c then None else Some v)"
  using assms by (auto simp: disc_sweep_def freshness_def disc_inv_def split: option.splits if_splits)

interpretation disc: expiring_store "\<lambda>d i. dh_listings d i" "\<lambda>c l. c \<le> l_UpdatedAt l" disc_sweep
  by unfold_locales (auto simp: disc_sweep_def not_less split: option.splits)

lemma notifyAll_step:
  assumes "disc_inv d" "\<And>i. freshness d i = f i"
  shows "\<exists>d'. notifyAll d = Some d' \<and> disc_inv d' \<and> (\<forall>i. freshness d' i = f i)"
  using notifyAll_ok [OF assms(1)] assms(2) by (auto simp: freshness_def)

lemma tick_ok:
  assumes inv: "disc_inv d"
  shows "\<exists>d'. disc_gc ttl now d = Some d' \<and> disc_inv d' \<and> (\<forall>i. freshness d' i = fresh_step i (Tick ttl now) (freshness d i))"
proof (cases "0 < ttl")
  case True
  let ?d = "disc_sweep (now - ttl) d"
  have step: "freshness ?d i = fresh_step i (Tick ttl now) (freshness d i)" for i
    using True sweep_ok(2) [OF inv, of "now - ttl" i] by (cases "freshness d i") auto
  from True notifyAll_step [OF sweep_ok(1) [OF inv] step] sweep_ok(1) [OF inv, of "now - ttl"] step
  show ?thesis by (simp add: disc_gc_def Let_def del: fresh_step.simps)
qed (use inv in \<open>simp add: disc_gc_def\<close>)

lemma disc_exec_step:
  assumes inv: "disc_inv d"
  shows "\<exists>d'. disc_exec op d = Some d' \<and> disc_inv d' \<and> (\<forall>i. freshness d' i = fresh_step i op (freshness d i))"
proof (cases op)
  case (Register draw l t) with notifyAll_step [OF register_ok [OF inv]] show ?thesis by simp
next
  case (Heartbeat i t) with heartbeat_ok [OF inv] show ?thesis by simp
next
  case (Remove i) with notifyAll_step [OF remove_ok [OF inv]] show ?thesis by simp
next
  case Watch
  with inv show ?thesis by (auto simp: watch_hub_def disc_inv_def freshness_def chan_new_def Let_def)
next
  case (StopWatch ch)
  with inv show ?thesis by (auto simp: stop_hub_def chan_close_def disc_inv_def freshness_def)
next
  case (Tick ttl now) with tick_ok [OF inv] show ?thesis by simp
qed

lemma disc_run_steps:
  "disc_inv d \<Longrightarrow> \<exists>d'. disc_run ops d = Some d' \<and> disc_inv d' \<and> (\<forall>i. freshness d' i = fold (fresh_step i) ops (freshness d i))"
proof (induction ops arbitrary: d)
  case (Cons op ops)
  from disc_exec_step [OF Cons.prems, of op] obtain d1
    where 1: "disc_exec op d = Some d1" "disc_inv d1" "\<forall>i. freshness d1 i = fresh_step i op (freshness d i)" by blast
  from Cons.IH [OF 1(2)] 1 show ?case by simp
qed simp

lemma disc_run_inv: "disc_run ops newDiscoveryHub = Some d \<Longrightarrow> disc_inv d"
  using disc_run_steps [OF disc_inv_new, of ops] by auto

lemma list_room_set:
  "set order = dom (dh_listings d) \<Longrightarrow>
     set (list_room order room d) = {l \<in> ran (dh_listings d). room = [] \<or> l_Room l = room}"
  by (auto simp: list_room_def List.map_filter_def ran_def image_iff)

lemma list_room_ids:
  "disc_inv d \<Longrightarrow> distinct order \<Longrightarrow> distinct (map l_ID (list_room order room d))"
  by (induction order)
    (auto simp: list_room_def List.map_filter_def disc_inv_def)

section \<open>Properties\<close>

text \<open>
  C40: The registry implements its freshness contract. Every sequence of registrations,
  heartbeats, removals, ticks and coming and going streams runs without a panic, and
  afterwards an identifier is listed with the time of its last refresh exactly if it was
  registered and since then neither removed nor swept more than the lifetime after a refresh;
  a heartbeat of an identifier that is gone does not bring it back.
\<close>

theorem disc_refines_freshness:
  "\<exists>d. disc_run ops newDiscoveryHub = Some d \<and>
       (\<forall>i. map_option l_UpdatedAt (dh_listings d i) = fold (fresh_step i) ops None)"
  using disc_run_steps [OF disc_inv_new, of ops] by (auto simp: freshness_def newDiscoveryHub_def)

text \<open>
  The servers of a room. In every state the registry can reach, and in whatever order the
  map is walked, the list sent to a client has each listing of the room once (all listings for
  the empty room), no two with the same identifier, the most recently refreshed first.
\<close>

lemma servers_complete_sorted:
  assumes "disc_run ops newDiscoveryHub = Some d" "distinct order" "set order = dom (dh_listings d)"
  shows "set (servers_of order room d) = {l \<in> ran (dh_listings d). room = [] \<or> l_Room l = room} \<and>
         distinct (map l_ID (servers_of order room d)) \<and>
         sorted_wrt (\<lambda>a b. l_UpdatedAt b \<le> l_UpdatedAt a) (servers_of order room d)"
proof -
  have perm: "mset (servers_of order room d) = mset (list_room order room d)"
    by (simp add: servers_of_def sort_ok)
  then have "mset (map l_ID (servers_of order room d)) = mset (map l_ID (list_room order room d))" by simp
  then have "distinct (map l_ID (servers_of order room d)) \<longleftrightarrow> distinct (map l_ID (list_room order room d))"
    by (rule mset_eq_imp_distinct_iff)
  moreover have "set (servers_of order room d) = set (list_room order room d)" using perm by (rule mset_eq_setD)
  moreover have "sorted_wrt (\<lambda>a b. l_UpdatedAt b \<le> l_UpdatedAt a) (servers_of order room d)"
    by (simp add: servers_of_def sort_ok(2))
  ultimately show ?thesis
    using list_room_set [OF assms(3), of room] list_room_ids [OF disc_run_inv [OF assms(1)] assms(2), of room] by simp
qed

definition listing_at :: "string \<Rightarrow> string \<Rightarrow> listing" where
  "listing_at i room = \<lparr>l_ID = i, l_Name = ''n'', l_Room = room, l_Code = ''c'', l_Method = [], l_Transport = [],
     l_Protocol = [], l_NatMapping = [], l_NatFiltering = [], l_UpdatedAt = 0\<rparr>"

end
