(* ===== verification/Udp_Relay.thy ===== *)
theory Udp_Relay
  imports Go_Prelude
begin

text \<open>
  The UDP relay of the signalling server (\<^verbatim>\<open>udpRelay\<close> in
  \<^verbatim>\<open>signalserver/cmd/signalserver/main.go\<close>) and the registration packet its users send
  (\<^verbatim>\<open>registerRelay\<close> in \<^verbatim>\<open>golib/webrtc/peer.go\<close>). The relay keeps for each key the last
  address of a server and of a client and forwards everything else to the opposite address.
  The order in which Go walks the map of sessions is an argument.
\<close>

section \<open>Addresses\<close>

record udp_addr =
  ua_IP :: bytes
  ua_Port :: nat

definition v4InV6Prefix :: bytes where
  "v4InV6Prefix = replicate 10 0 @ [255, 255]"

definition ip_Equal :: "bytes \<Rightarrow> bytes \<Rightarrow> bool" where
  "ip_Equal a b =
     (if length a = length b then a = b
      else if length a = 4 \<and> length b = 16 then take 12 b = v4InV6Prefix \<and> a = drop 12 b
      else if length a = 16 \<and> length b = 4 then take 12 a = v4InV6Prefix \<and> b = drop 12 a
      else False)"

text \<open>A nil pointer is \<open>None\<close>.\<close>

definition addrEqual :: "udp_addr option \<Rightarrow> udp_addr option \<Rightarrow> bool" where
  "addrEqual a b =
     (case (a, b) of
        (Some x, Some y) \<Rightarrow> ip_Equal (ua_IP x) (ua_IP y) \<and> ua_Port x = ua_Port y
      | _ \<Rightarrow> False)"

section \<open>The relay\<close>

record relay_peer =
  rp_addr :: udp_addr
  rp_updatedAt :: instant

record relay_session =
  rs_server :: "relay_peer option"
  rs_client :: "relay_peer option"

record udp_relay =
  ur_sessions :: "bytes \<Rightarrow> relay_session option"
  ur_recv :: u64
  ur_sent :: u64

definition newUDPRelay :: udp_relay where
  "newUDPRelay = \<lparr>ur_sessions = Map.empty, ur_recv = 0, ur_sent = 0\<rparr>"

definition is_registration :: "bytes \<Rightarrow> bool" where
  "is_registration pkt \<longleftrightarrow>
     length pkt = 21 \<and> pkt ! 0 = 0xDE \<and> pkt ! 1 = 0xAD \<and> pkt ! 2 = 0xBE \<and> pkt ! 3 = 0xEF"

definition relay_register :: "instant \<Rightarrow> bytes \<Rightarrow> udp_addr \<Rightarrow> udp_relay \<Rightarrow> udp_relay" where
  "relay_register now pkt from_addr r =
     (let key = take 16 (drop 4 pkt); role = pkt ! 20;
          s = (case ur_sessions r key of Some s \<Rightarrow> s | None \<Rightarrow> \<lparr>rs_server = None, rs_client = None\<rparr>);
          peer = \<lparr>rp_addr = from_addr, rp_updatedAt = now\<rparr>;
          s' = (if role = 1 then s\<lparr>rs_client := Some peer\<rparr> else s\<lparr>rs_server := Some peer\<rparr>)
      in r\<lparr>ur_sessions := (ur_sessions r)(key \<mapsto> s')\<rparr>)"

text \<open>The search for the target: the first session that knows the sender decides.\<close>

fun find_target :: "(bytes \<Rightarrow> relay_session option) \<Rightarrow> udp_addr \<Rightarrow> bytes list \<Rightarrow> udp_addr option" where
  "find_target ss from_addr [] = None"
| "find_target ss from_addr (k # ks) =
     (case ss k of
        None \<Rightarrow> find_target ss from_addr ks
      | Some s \<Rightarrow>
          if rs_server s \<noteq> None \<and> addrEqual (map_option rp_addr (rs_server s)) (Some from_addr)
          then map_option rp_addr (rs_client s)
          else if rs_client s \<noteq> None \<and> addrEqual (map_option rp_addr (rs_client s)) (Some from_addr)
          then map_option rp_addr (rs_server s)
          else find_target ss from_addr ks)"

text \<open>A packet: the new relay, and what is sent where.\<close>

definition handlePacket ::
  "bytes list \<Rightarrow> instant \<Rightarrow> bytes \<Rightarrow> udp_addr \<Rightarrow> udp_relay \<Rightarrow> (bytes \<times> udp_addr) option \<times> udp_relay" where
  "handlePacket order now pkt from_addr r =
     (let r1 = r\<lparr>ur_recv := ur_recv r + 1\<rparr>
      in if is_registration pkt then (None, relay_register now pkt from_addr r1)
         else case find_target (ur_sessions r1) from_addr order of
                None \<Rightarrow> (None, r1)
              | Some target \<Rightarrow> (Some (pkt, target), r1\<lparr>ur_sent := ur_sent r1 + 1\<rparr>))"

text \<open>A session is dropped when neither side was seen after the cutoff.\<close>

definition peer_after :: "instant \<Rightarrow> relay_peer option \<Rightarrow> bool" where
  "peer_after cutoff p = (case p of None \<Rightarrow> False | Some q \<Rightarrow> cutoff < rp_updatedAt q)"

definition relay_stale :: "instant \<Rightarrow> relay_session \<Rightarrow> bool" where
  "relay_stale cutoff s \<longleftrightarrow> \<not> peer_after cutoff (rs_server s) \<and> \<not> peer_after cutoff (rs_client s)"

definition relay_sweep :: "instant \<Rightarrow> udp_relay \<Rightarrow> udp_relay" where
  "relay_sweep cutoff r =
     r\<lparr>ur_sessions := (\<lambda>k. case ur_sessions r k of
          None \<Rightarrow> None
        | Some s \<Rightarrow> if relay_stale cutoff s then None else Some s)\<rparr>"

definition relay_gc :: "duration \<Rightarrow> instant \<Rightarrow> udp_relay \<Rightarrow> udp_relay" where
  "relay_gc ttl now r = (if ttl \<le> 0 then r else relay_sweep (now - ttl) r)"

section \<open>The registration packet\<close>

text \<open>
  \<open>sha256\<close> stands for the hash function of the Go library, 32 bytes for every input. The
  packet is sent three times.
\<close>

definition registration_packet :: "(bytes \<Rightarrow> bytes) \<Rightarrow> bytes \<Rightarrow> bool \<Rightarrow> bytes" where
  "registration_packet sha256 sessionID isServer =
     [0xDE, 0xAD, 0xBE, 0xEF] @ take 16 (sha256 sessionID) @ [if isServer then 0 else 1]"

definition registerRelay :: "(bytes \<Rightarrow> bytes) \<Rightarrow> udp_addr option \<Rightarrow> bytes \<Rightarrow> bool \<Rightarrow> (bytes \<times> udp_addr) list" where
  "registerRelay sha256 relayAddr sessionID isServer =
     (case relayAddr of
        None \<Rightarrow> []
      | Some addr \<Rightarrow> replicate 3 (registration_packet sha256 sessionID isServer, addr))"

section \<open>Runs\<close>

text \<open>Packets, each with the time, the sender and the order of the walk, and ticks of the collector.\<close>

datatype relay_event = Packet "bytes list" instant bytes udp_addr | Collect duration instant

fun relay_step :: "relay_event \<Rightarrow> udp_relay \<Rightarrow> udp_relay" where
  "relay_step (Packet order now pkt from_addr) r = snd (handlePacket order now pkt from_addr r)"
| "relay_step (Collect ttl now) r = relay_gc ttl now r"

section \<open>Lemmas\<close>

interpretation relay: expiring_store "\<lambda>r k. ur_sessions r k" "\<lambda>c s. \<not> relay_stale c s" relay_sweep
proof unfold_locales
  show "ur_sessions (relay_sweep c r) k = Option.bind (ur_sessions r k) (\<lambda>s. if \<not> relay_stale c s then Some s else None)" for c r k
    by (simp add: relay_sweep_def split: option.split)
  show "\<not> relay_stale c s \<Longrightarrow> c' \<le> c \<Longrightarrow> \<not> relay_stale c' s" for c s c'
    by (auto simp: relay_stale_def peer_after_def split: option.splits)
qed

lemma ip_Equal_refl [simp]: "ip_Equal a a"
  by (simp add: ip_Equal_def)

lemma addrEqual_refl [simp]: "addrEqual (Some a) (Some a)"
  by (simp add: addrEqual_def)

text \<open>The sender is known to a session at one of its ends.\<close>

definition knows :: "relay_session \<Rightarrow> udp_addr \<Rightarrow> bool" where
  "knows s a \<longleftrightarrow> addrEqual (map_option rp_addr (rs_server s)) (Some a) \<or> addrEqual (map_option rp_addr (rs_client s)) (Some a)"

lemma addrEqual_None [simp]: "addrEqual None a = False"
  by (simp add: addrEqual_def)

lemma find_target_None: "(\<And>k s. k \<in> set ks \<Longrightarrow> ss k = Some s \<Longrightarrow> \<not> knows s a) \<Longrightarrow> find_target ss a ks = None"
  by (induction ks) (auto simp: knows_def split: option.splits)

lemma find_target_only:
  assumes "ss k = Some s" "k \<in> set ks" "\<And>k' s'. k' \<noteq> k \<Longrightarrow> ss k' = Some s' \<Longrightarrow> \<not> knows s' a"
    "addrEqual (map_option rp_addr (rs_server s)) (Some a)"
  shows "find_target ss a ks = map_option rp_addr (rs_client s)"
  using assms(2)
proof (induction ks)
  case (Cons x ks)
  show ?case
  proof (cases "x = k")
    case True then show ?thesis using assms(1,4) by auto
  next
    case False
    with Cons assms(3) [OF False] show ?thesis by (auto simp: knows_def split: option.splits)
  qed
qed simp

lemma find_target_only':
  assumes "ss k = Some s" "k \<in> set ks" "\<And>k' s'. k' \<noteq> k \<Longrightarrow> ss k' = Some s' \<Longrightarrow> \<not> knows s' a"
    "\<not> addrEqual (map_option rp_addr (rs_server s)) (Some a)" "addrEqual (map_option rp_addr (rs_client s)) (Some a)"
  shows "find_target ss a ks = map_option rp_addr (rs_server s)"
  using assms(2)
proof (induction ks)
  case (Cons x ks)
  show ?case
  proof (cases "x = k")
    case True then show ?thesis using assms(1,4,5) by auto
  next
    case False
    with Cons assms(3) [OF False] show ?thesis by (auto simp: knows_def split: option.splits)
  qed
qed simp

lemma find_target_isolated:
  "find_target ss a ks = Some t \<Longrightarrow>
     \<exists>k \<in> set ks. \<exists>s. ss k = Some s \<and>
       (addrEqual (map_option rp_addr (rs_server s)) (Some a) \<and> map_option rp_addr (rs_client s) = Some t \<or>
        addrEqual (map_option rp_addr (rs_client s)) (Some a) \<and> map_option rp_addr (rs_server s) = Some t)"
  by (induction ks) (auto split: option.splits if_splits)

lemma registration_packet_ok:
  assumes "length (sha256 sid) = 32"
  shows "is_registration (registration_packet sha256 sid isServer)"
    and "take 16 (drop 4 (registration_packet sha256 sid isServer)) = take 16 (sha256 sid)"
    and "registration_packet sha256 sid isServer ! 20 = (if isServer then 0 else 1)"
  using assms by (simp_all add: is_registration_def registration_packet_def nth_append)

lemma handle_registration:
  assumes "length (sha256 sid) = 32"
  shows "ur_sessions (snd (handlePacket order now (registration_packet sha256 sid isServer) a r)) =
     (ur_sessions r)(take 16 (sha256 sid) \<mapsto>
        (let s = (case ur_sessions r (take 16 (sha256 sid)) of Some s \<Rightarrow> s | None \<Rightarrow> \<lparr>rs_server = None, rs_client = None\<rparr>)
         in if isServer then s\<lparr>rs_server := Some \<lparr>rp_addr = a, rp_updatedAt = now\<rparr>\<rparr>
            else s\<lparr>rs_client := Some \<lparr>rp_addr = a, rp_updatedAt = now\<rparr>\<rparr>))"
  using registration_packet_ok [of sha256 sid isServer, OF assms]
  by (simp add: handlePacket_def relay_register_def Let_def)

lemma handle_data:
  "\<not> is_registration pkt \<Longrightarrow> ur_sessions (snd (handlePacket order now pkt a r)) = ur_sessions r"
  "\<not> is_registration pkt \<Longrightarrow> fst (handlePacket order now pkt a r) = map_option (Pair pkt) (find_target (ur_sessions r) a order)"
  by (simp_all add: handlePacket_def Let_def split: option.split)


lemma ip_Equal_sym: "ip_Equal a b = ip_Equal b a"
  unfolding ip_Equal_def eq_commute [of a b] by simp

lemma addrEqual_sym: "addrEqual a b = addrEqual b a"
  by (auto simp: addrEqual_def ip_Equal_sym split: option.splits)

text \<open>The relay after a server and a client have registered.\<close>

definition registered :: "(bytes \<Rightarrow> bytes) \<Rightarrow> bytes \<Rightarrow> bytes \<Rightarrow> udp_addr \<Rightarrow> udp_addr \<Rightarrow> instant \<Rightarrow> udp_relay \<Rightarrow> udp_relay" where
  "registered sha256 ssid csid a b t r =
     relay_step (Packet [] t (registration_packet sha256 csid False) b)
       (relay_step (Packet [] t (registration_packet sha256 ssid True) a) r)"

lemma relay_session_both:
  "s\<lparr>rs_server := p, rs_client := q\<rparr> = \<lparr>rs_server = p, rs_client = q\<rparr>" for s :: relay_session
  by (cases s) simp

lemma registered_same:
  assumes "length (sha256 sid) = 32"
  shows "ur_sessions (registered sha256 sid sid a b t r) =
     (ur_sessions r)(take 16 (sha256 sid) \<mapsto>
        \<lparr>rs_server = Some \<lparr>rp_addr = a, rp_updatedAt = t\<rparr>, rs_client = Some \<lparr>rp_addr = b, rp_updatedAt = t\<rparr>\<rparr>)"
  by (cases "ur_sessions r (take 16 (sha256 sid))")
    (simp_all add: registered_def handle_registration [of sha256 sid, OF assms] Let_def relay_session_both)

lemma registered_differ:
  assumes "length (sha256 ssid) = 32" "length (sha256 csid) = 32" "take 16 (sha256 ssid) \<noteq> take 16 (sha256 csid)"
  shows "ur_sessions (registered sha256 ssid csid a b t newUDPRelay) =
     [take 16 (sha256 ssid) \<mapsto> \<lparr>rs_server = Some \<lparr>rp_addr = a, rp_updatedAt = t\<rparr>, rs_client = None\<rparr>,
      take 16 (sha256 csid) \<mapsto> \<lparr>rs_server = None, rs_client = Some \<lparr>rp_addr = b, rp_updatedAt = t\<rparr>\<rparr>]"
  using assms(3)
  by (simp add: registered_def newUDPRelay_def handle_registration [of sha256 ssid, OF assms(1)]
      handle_registration [of sha256 csid, OF assms(2)])

text \<open>A run without registrations: only the collector changes the sessions.\<close>

fun data_event :: "relay_event \<Rightarrow> bool" where
  "data_event (Packet order now pkt a) = (\<not> is_registration pkt)"
| "data_event (Collect ttl now) = True"

fun cutoffs :: "relay_event list \<Rightarrow> instant list" where
  "cutoffs [] = []"
| "cutoffs (Packet order now pkt a # es) = cutoffs es"
| "cutoffs (Collect ttl now # es) = (if 0 < ttl then [now - ttl] else []) @ cutoffs es"

lemma sweep_sessions_cong: "ur_sessions r = ur_sessions r' \<Longrightarrow> ur_sessions (fold relay_sweep cs r) = ur_sessions (fold relay_sweep cs r')"
  by (rule ext) (simp add: relay.sweeps_exact)

lemma data_run_sweeps:
  "\<forall>e \<in> set es. data_event e \<Longrightarrow> ur_sessions (fold relay_step es r) = ur_sessions (fold relay_sweep (cutoffs es) r)"
proof (induction es arbitrary: r rule: cutoffs.induct)
  case (2 order now pkt a es)
  then have "ur_sessions (snd (handlePacket order now pkt a r)) = ur_sessions r" by (simp add: handle_data)
  from sweep_sessions_cong [OF this] 2 show ?case by simp
qed (simp_all add: relay_gc_def)

lemma cutoffs_mem: "Collect ttl now \<in> set es \<Longrightarrow> 0 < ttl \<Longrightarrow> now - ttl \<in> set (cutoffs es)"
  by (induction es rule: cutoffs.induct) auto

section \<open>Properties\<close>

text \<open>
  C31: The relay does not mix sessions. Whatever it holds and in whatever order it walks its
  sessions, a packet it sends is the packet it received, unchanged, and goes to the opposite
  end of a session at one end of which the sender is registered.
\<close>

theorem relay_isolated:
  assumes "fst (handlePacket order now pkt a r) = Some (p, t)"
  shows "p = pkt \<and> (\<exists>k \<in> set order. \<exists>s. ur_sessions r k = Some s \<and>
     (addrEqual (map_option rp_addr (rs_server s)) (Some a) \<and> map_option rp_addr (rs_client s) = Some t \<or>
      addrEqual (map_option rp_addr (rs_client s)) (Some a) \<and> map_option rp_addr (rs_server s) = Some t))"
proof -
  have reg: "\<not> is_registration pkt" using assms by (auto simp: handlePacket_def Let_def)
  with assms have "p = pkt" "find_target (ur_sessions r) a order = Some t" by (auto simp: handle_data)
  then show ?thesis using find_target_isolated [of "ur_sessions r" a order t] by simp
qed

definition addr1 :: udp_addr where
  "addr1 = \<lparr>ua_IP = [10, 0, 0, 1], ua_Port = 1000\<rparr>"

definition addr2 :: udp_addr where
  "addr2 = \<lparr>ua_IP = [10, 0, 0, 2], ua_Port = 2000\<rparr>"

definition hash0 :: "bytes \<Rightarrow> bytes" where
  "hash0 b = take 32 (b @ replicate 32 0)"

lemma length_hash0 [simp]: "length (hash0 b) = 32"
  by (simp add: hash0_def)

lemma hash0_key: "take 16 (hash0 [x]) = x # replicate 15 0"
  by (simp add: hash0_def take_Cons')

lemma addr12_differ [simp]: "addrEqual (Some addr1) (Some addr2) = False"
  by (simp add: addrEqual_def ip_Equal_def addr1_def addr2_def)

theorem relay_isolated_witness:
  "\<exists>s. ur_sessions (registered hash0 [7] [7] addr1 addr2 0 newUDPRelay) (take 16 (hash0 [7])) = Some s \<and>
       map_option rp_addr (rs_client s) = Some addr2"
proof -
  let ?r = "registered hash0 [7] [7] addr1 addr2 0 newUDPRelay"
  have "\<not> is_registration [1]" by (simp add: is_registration_def)
  then have "fst (handlePacket [take 16 (hash0 [7])] 5 [1] addr1 ?r) = Some ([1], addr2)"
    by (simp add: handle_data registered_same)
  from relay_isolated [OF this] show ?thesis by (auto simp: registered_same addrEqual_sym [of "Some addr2"])
qed



text \<open>
  Traffic does not keep a relayed session alive. Data packets never refresh a session: in
  every run without new registrations the session is dropped by the first tick that comes at
  least the lifetime after the last registration, however much was forwarded before, and not
  earlier.
\<close>

lemma relay_expires_despite_traffic:
  assumes "\<forall>e \<in> set es. data_event e" "length (sha256 sid) = 32"
  shows "ur_sessions (fold relay_step es (registered sha256 sid sid a b t r)) (take 16 (sha256 sid)) = None \<longleftrightarrow>
           (\<exists>c \<in> set (cutoffs es). t \<le> c)"
  using registered_same [of sha256 sid, OF assms(2)]
  by (auto simp: data_run_sweeps [OF assms(1)] relay.sweeps_exact relay_stale_def peer_after_def not_less)

text \<open>
  Peers that register under different session identifiers never reach each other through
  the relay: if the keys differ, every data packet of either is dropped. A client that makes
  up its own session identifier instead of using the one of the offer has no relay.
\<close>

lemma relay_needs_same_session:
  assumes "length (sha256 ssid) = 32" "length (sha256 csid) = 32" "take 16 (sha256 ssid) \<noteq> take 16 (sha256 csid)"
    "\<not> is_registration pkt"
  shows "fst (handlePacket order now pkt a (registered sha256 ssid csid a b t newUDPRelay)) = None \<and>
         fst (handlePacket order now pkt b (registered sha256 ssid csid a b t newUDPRelay)) = None"
proof -
  let ?ss = "ur_sessions (registered sha256 ssid csid a b t newUDPRelay)"
  have half: "?ss k = Some s \<Longrightarrow> rs_server s = None \<or> rs_client s = None" for k s
    by (auto simp: registered_differ [of sha256 ssid csid, OF assms(1-3)] split: if_splits)
  then have "find_target ?ss x order = None" for x
    using find_target_isolated [of ?ss x order] by (cases "find_target ?ss x order") fastforce+
  then show ?thesis using assms(4) by (simp add: handle_data)
qed

end
