(* ===== verification/Json.thy ===== *)
theory Json
  imports Go_Prelude
begin

text \<open>
  The part of Go's \<^verbatim>\<open>encoding/json\<close> the signalling code relies on: the compact encoder and the
  decoder (scanner with its stack of open arrays and objects and its depth limit). Text is a
  list of bytes; bytes from 128 on are passed through by both, as for valid UTF-8 (the two
  separators U+2028 and U+2029, which the encoder escapes, are not treated).
\<close>

section \<open>Values and encoding\<close>

datatype json = JNull | JBool bool | JNum bytes | JStr bytes | JArr "json list" | JObj "(bytes \<times> json) list"

definition hex_lower :: "nat \<Rightarrow> byte" where
  "hex_lower n = (if n < 10 then of_nat (48 + n) else of_nat (87 + n))"

text \<open>One byte of a string, with the HTML-safe escapes of \<^verbatim>\<open>json.Marshal\<close>.\<close>

definition quote_byte :: "byte \<Rightarrow> bytes" where
  "quote_byte b =
     (if b = 34 \<or> b = 92 then [92, b]
      else if b = 8 then [92, 98] else if b = 12 then [92, 102] else if b = 10 then [92, 110]
      else if b = 13 then [92, 114] else if b = 9 then [92, 116]
      else if b < 32 \<or> b = 60 \<or> b = 62 \<or> b = 38
      then [92, 117, 48, 48, hex_lower (unat b div 16), hex_lower (unat b mod 16)]
      else [b])"

definition quote :: "bytes \<Rightarrow> bytes" where
  "quote s = 34 # concat (map quote_byte s) @ [34]"

fun json_enc :: "json \<Rightarrow> bytes" where
  "json_enc JNull = ascii ''null''"
| "json_enc (JBool b) = (if b then ascii ''true'' else ascii ''false'')"
| "json_enc (JNum n) = n"
| "json_enc (JStr s) = quote s"
| "json_enc (JArr vs) = [91] @ join [44] (map json_enc vs) @ [93]"
| "json_enc (JObj ms) = [123] @ join [44] (map (\<lambda>(k, v). quote k @ [58] @ json_enc v) ms) @ [125]"

section \<open>Scanning\<close>

datatype token = TOpenObj | TCloseObj | TOpenArr | TCloseArr | TColon | TComma
  | TStr bytes | TNum bytes | TTrue | TFalse | TNull

definition hexval :: "byte \<Rightarrow> nat option" where
  "hexval b =
     (if 48 \<le> b \<and> b \<le> 57 then Some (unat b - 48)
      else if 97 \<le> b \<and> b \<le> 102 then Some (unat b - 87)
      else if 65 \<le> b \<and> b \<le> 70 then Some (unat b - 55)
      else None)"

fun getu4 :: "bytes \<Rightarrow> (nat \<times> bytes) option" where
  "getu4 (a # b # c # d # r) =
     (case (hexval a, hexval b, hexval c, hexval d) of
        (Some a', Some b', Some c', Some d') \<Rightarrow> Some (((a' * 16 + b') * 16 + c') * 16 + d', r)
      | _ \<Rightarrow> None)"
| "getu4 _ = None"

definition utf8 :: "nat \<Rightarrow> bytes" where
  "utf8 c =
     (if c < 0x80 then [of_nat c]
      else if c < 0x800 then [of_nat (0xC0 + c div 64), of_nat (0x80 + c mod 64)]
      else if c < 0x10000 then [of_nat (0xE0 + c div 4096), of_nat (0x80 + c div 64 mod 64), of_nat (0x80 + c mod 64)]
      else [of_nat (0xF0 + c div 262144), of_nat (0x80 + c div 4096 mod 64), of_nat (0x80 + c div 64 mod 64), of_nat (0x80 + c mod 64)])"

text \<open>After \<open>\u\<close> and its digits: a pair of surrogates is one rune, a lone one is replaced.\<close>

definition low_surrogate :: "bytes \<Rightarrow> (nat \<times> bytes) option" where
  "low_surrogate r =
     (case r of
        x # y # q \<Rightarrow>
          if x = 92 \<and> y = 117 then
            (case getu4 q of Some (c, q') \<Rightarrow> if 0xDC00 \<le> c \<and> c < 0xE000 then Some (c, q') else None | None \<Rightarrow> None)
          else None
      | _ \<Rightarrow> None)"

definition unescape_u :: "nat \<Rightarrow> bytes \<Rightarrow> bytes \<times> bytes" where
  "unescape_u c r =
     (if 0xD800 \<le> c \<and> c < 0xE000 then
        (case (if c < 0xDC00 then low_surrogate r else None) of
           Some (c2, r') \<Rightarrow> (utf8 (0x10000 + (c - 0xD800) * 1024 + (c2 - 0xDC00)), r')
         | None \<Rightarrow> (utf8 0xFFFD, r))
      else (utf8 c, r))"

definition simple_escape :: "byte \<Rightarrow> byte option" where
  "simple_escape e =
     (if e = 34 \<or> e = 92 \<or> e = 47 then Some e
      else if e = 98 then Some 8 else if e = 102 then Some 12 else if e = 110 then Some 10
      else if e = 114 then Some 13 else if e = 116 then Some 9 else None)"

definition unescape :: "bytes \<Rightarrow> (bytes \<times> bytes) option" where
  "unescape r =
     (case r of
        [] \<Rightarrow> None
      | e # r' \<Rightarrow>
          (case simple_escape e of
             Some c \<Rightarrow> Some ([c], r')
           | None \<Rightarrow> if e = 117 then map_option (\<lambda>(c, q). unescape_u c q) (getu4 r') else None))"

lemma getu4_length: "getu4 r = Some (c, q) \<Longrightarrow> length q < length r"
  by (cases r rule: getu4.cases) (auto split: option.splits)

lemma low_surrogate_length: "low_surrogate r = Some (c, q) \<Longrightarrow> length q < length r"
  by (auto simp: low_surrogate_def dest!: getu4_length split: list.splits if_splits option.splits)

lemma unescape_u_length: "length (snd (unescape_u c r)) \<le> length r"
  by (auto simp: unescape_u_def dest!: low_surrogate_length split: option.splits if_splits)

lemma unescape_length: "unescape r = Some (t, q) \<Longrightarrow> length q < length r"
proof -
  assume u: "unescape r = Some (t, q)"
  then obtain e r' where r: "r = e # r'" by (cases r) (auto simp: unescape_def)
  show ?thesis
  proof (cases "simple_escape e")
    case (Some c) with u r show ?thesis by (simp add: unescape_def)
  next
    case None
    with u r obtain c p where "getu4 r' = Some (c, p)" "unescape_u c p = (t, q)"
      by (auto simp: unescape_def split: if_splits)
    with r unescape_u_length [of c p] show ?thesis by (auto dest: getu4_length)
  qed
qed

text \<open>The rest of a string after its opening quote.\<close>

function lex_string :: "bytes \<Rightarrow> (bytes \<times> bytes) option" where
  "lex_string [] = None"
| "lex_string (b # r) =
     (if b = 34 then Some ([], r)
      else if b = 92 then
        (case unescape r of
           None \<Rightarrow> None
         | Some (t, r') \<Rightarrow> map_option (\<lambda>(s, q). (t @ s, q)) (lex_string r'))
      else if b < 32 then None
      else map_option (\<lambda>(s, q). (b # s, q)) (lex_string r))"
  by pat_completeness auto
termination
  by (relation "measure length") (auto dest: unescape_length)

lemma lex_string_length: "lex_string r = Some (s, q) \<Longrightarrow> length q < length r"
proof (induction r arbitrary: s q rule: lex_string.induct)
  case (2 b r)
  show ?case
  proof (cases "b = 92")
    case True
    with 2(3) obtain t r' s' where "unescape r = Some (t, r')" "lex_string r' = Some (s', q)"
      by (auto split: option.splits)
    with 2(1) [OF _ True] True unescape_length [of r t r'] show ?thesis by fastforce
  next
    case False
    with 2 show ?thesis by (fastforce split: if_splits)
  qed
qed simp


definition is_digit :: "byte \<Rightarrow> bool" where
  "is_digit b \<longleftrightarrow> 48 \<le> b \<and> b \<le> 57"

definition is_numchar :: "byte \<Rightarrow> bool" where
  "is_numchar b \<longleftrightarrow> is_digit b \<or> b \<in> {43, 45, 46, 69, 101}"

definition valid_exp :: "bytes \<Rightarrow> bool" where
  "valid_exp s =
     (case s of
        [] \<Rightarrow> True
      | e # r \<Rightarrow> (e = 101 \<or> e = 69) \<and>
          (let r' = (case r of x # q \<Rightarrow> if x = 43 \<or> x = 45 then q else r | [] \<Rightarrow> [])
           in r' \<noteq> [] \<and> list_all is_digit r'))"

definition valid_frac :: "bytes \<Rightarrow> bool" where
  "valid_frac s =
     (case s of
        x # d # r \<Rightarrow> if x = 46 then is_digit d \<and> valid_exp (dropWhile is_digit r) else valid_exp s
      | _ \<Rightarrow> valid_exp s)"

definition valid_unsigned :: "bytes \<Rightarrow> bool" where
  "valid_unsigned s =
     (case s of
        [] \<Rightarrow> False
      | d # r \<Rightarrow> if d = 48 then valid_frac r else is_digit d \<and> valid_frac (dropWhile is_digit r))"

definition valid_num :: "bytes \<Rightarrow> bool" where
  "valid_num s = (case s of [] \<Rightarrow> False | x # r \<Rightarrow> valid_unsigned (if x = 45 then r else s))"

definition is_ws :: "byte \<Rightarrow> bool" where
  "is_ws b \<longleftrightarrow> b = 32 \<or> b = 9 \<or> b = 10 \<or> b = 13"

definition punct :: "byte \<Rightarrow> token option" where
  "punct b =
     (if b = 123 then Some TOpenObj else if b = 125 then Some TCloseObj
      else if b = 91 then Some TOpenArr else if b = 93 then Some TCloseArr
      else if b = 58 then Some TColon else if b = 44 then Some TComma else None)"

definition word_token :: "bytes \<Rightarrow> (token \<times> bytes) option" where
  "word_token s =
     (if take 4 s = ascii ''true'' then Some (TTrue, drop 4 s)
      else if take 5 s = ascii ''false'' then Some (TFalse, drop 5 s)
      else if take 4 s = ascii ''null'' then Some (TNull, drop 4 s) else None)"

definition next_token :: "byte \<Rightarrow> bytes \<Rightarrow> (token \<times> bytes) option" where
  "next_token b r =
     (case punct b of
        Some t \<Rightarrow> Some (t, r)
      | None \<Rightarrow>
          if b = 34 then map_option (\<lambda>(s, q). (TStr s, q)) (lex_string r)
          else if is_digit b \<or> b = 45 then
            (let n = takeWhile is_numchar (b # r)
             in if valid_num n then Some (TNum n, dropWhile is_numchar (b # r)) else None)
          else word_token (b # r))"

lemma word_token_length: "word_token s = Some (t, q) \<Longrightarrow> s \<noteq> [] \<Longrightarrow> length q < length s"
  by (auto simp: word_token_def ascii_def split: if_splits)

lemma next_token_length: "next_token b r = Some (t, q) \<Longrightarrow> length q < length (b # r)"
proof -
  assume n: "next_token b r = Some (t, q)"
  consider t' where "punct b = Some t'" | "punct b = None" "b = 34"
    | "punct b = None" "b \<noteq> 34" "is_digit b \<or> b = 45" | "punct b = None" "b \<noteq> 34" "\<not> (is_digit b \<or> b = 45)" by (cases "punct b") blast+
  then show ?thesis
  proof cases
    case 3
    then have "is_numchar b" by (auto simp: is_numchar_def)
    then have "length (dropWhile is_numchar (b # r)) \<le> length r" by (simp add: length_dropWhile_le)
    with 3 n show ?thesis by (auto simp: next_token_def Let_def split: if_splits)
  qed (use n in \<open>auto simp: next_token_def dest: lex_string_length word_token_length\<close>)
qed

function lex :: "bytes \<Rightarrow> token list option" where
  "lex [] = Some []"
| "lex (b # r) =
     (if is_ws b then lex r
      else case next_token b r of
             None \<Rightarrow> None
           | Some (t, q) \<Rightarrow> map_option ((#) t) (lex q))"
  by pat_completeness auto
termination
  by (relation "measure length") (auto dest: next_token_length)

section \<open>Parsing\<close>

text \<open>
  The decoder's stack: an open array, an open object between members, and an object with the
  key of the member whose value is next. At most 10000 may be open.
\<close>

datatype frame = FArr "json list" | FObj "(bytes \<times> json) list" | FMem "(bytes \<times> json) list" bytes

datatype pmode = PVal | PValEnd | PKey | PKeyEnd | PColon bytes | PSep | PDone json

definition maxNestingDepth :: nat where
  "maxNestingDepth = 10000"

fun complete :: "json \<Rightarrow> frame list \<Rightarrow> (pmode \<times> frame list) option" where
  "complete v [] = Some (PDone v, [])"
| "complete v (FArr vs # fs) = Some (PSep, FArr (vs @ [v]) # fs)"
| "complete v (FMem ms k # fs) = Some (PSep, FObj (ms @ [(k, v)]) # fs)"
| "complete v (FObj ms # fs) = None"

fun begin_value :: "token \<Rightarrow> frame list \<Rightarrow> (pmode \<times> frame list) option" where
  "begin_value (TStr s) fs = complete (JStr s) fs"
| "begin_value (TNum n) fs = complete (JNum n) fs"
| "begin_value TTrue fs = complete (JBool True) fs"
| "begin_value TFalse fs = complete (JBool False) fs"
| "begin_value TNull fs = complete JNull fs"
| "begin_value TOpenArr fs = (if length fs < maxNestingDepth then Some (PValEnd, FArr [] # fs) else None)"
| "begin_value TOpenObj fs = (if length fs < maxNestingDepth then Some (PKeyEnd, FObj [] # fs) else None)"
| "begin_value _ fs = None"

fun end_value :: "token \<Rightarrow> frame list \<Rightarrow> (pmode \<times> frame list) option" where
  "end_value TCloseArr (FArr vs # fs) = complete (JArr vs) fs"
| "end_value TCloseObj (FObj ms # fs) = complete (JObj ms) fs"
| "end_value _ fs = None"

fun pstep :: "token \<Rightarrow> pmode \<times> frame list \<Rightarrow> (pmode \<times> frame list) option" where
  "pstep t (PVal, fs) = begin_value t fs"
| "pstep t (PValEnd, fs) = (if t = TCloseArr then end_value t fs else begin_value t fs)"
| "pstep t (PKeyEnd, fs) = (case t of TStr k \<Rightarrow> Some (PColon k, fs) | TCloseObj \<Rightarrow> end_value t fs | _ \<Rightarrow> None)"
| "pstep t (PKey, fs) = (case t of TStr k \<Rightarrow> Some (PColon k, fs) | _ \<Rightarrow> None)"
| "pstep t (PColon k, fs) = (case (t, fs) of (TColon, FObj ms # r) \<Rightarrow> Some (PVal, FMem ms k # r) | _ \<Rightarrow> None)"
| "pstep t (PSep, fs) =
     (if t = TComma then (case fs of FArr vs # r \<Rightarrow> Some (PVal, fs) | FObj ms # r \<Rightarrow> Some (PKey, fs) | _ \<Rightarrow> None)
      else end_value t fs)"
| "pstep t (PDone v, fs) = None"

fun prun :: "token list \<Rightarrow> pmode \<times> frame list \<Rightarrow> (pmode \<times> frame list) option" where
  "prun [] st = Some st"
| "prun (t # ts) st = Option.bind (pstep t st) (prun ts)"

definition json_parse :: "bytes \<Rightarrow> json option" where
  "json_parse s =
     Option.bind (lex s) (\<lambda>ts. Option.bind (prun ts (PVal, [])) (\<lambda>st. case st of (PDone v, []) \<Rightarrow> Some v | _ \<Rightarrow> None))"


section \<open>Encoding and decoding\<close>

lemma hexval_hex_lower: "n < 16 \<Longrightarrow> hexval (hex_lower n) = Some n"
proof -
  have "\<forall>n \<in> set [0..<16]. hexval (hex_lower n) = Some n" by code_simp
  then show "n < 16 \<Longrightarrow> hexval (hex_lower n) = Some n" by simp
qed

lemma getu4_byte: "getu4 (48 # 48 # hex_lower (unat b div 16) # hex_lower (unat b mod 16) # r) = Some (unat b, r)" for b :: byte
proof -
  have "unat b div 16 < 16" using unat_byte_lt [of b] by simp
  moreover have "hexval 48 = Some 0" by (simp add: hexval_def)
  ultimately show ?thesis by (simp add: hexval_hex_lower mult.commute)
qed

lemma unescape_byte:
  "unat b < 128 \<Longrightarrow> unescape (117 # 48 # 48 # hex_lower (unat b div 16) # hex_lower (unat b mod 16) # r) = Some ([b], r)" for b :: byte
  by (simp add: unescape_def simple_escape_def getu4_byte unescape_u_def utf8_def del: getu4.simps)

lemma lex_string_quote_byte: "lex_string (quote_byte b @ r) = map_option (\<lambda>(s, q). (b # s, q)) (lex_string r)"
proof (cases "b < 32 \<or> b = 60 \<or> b = 62 \<or> b = 38")
  case True
  then have small: "unat b < 128" by (auto simp: word_less_nat_alt)
  show ?thesis
  proof (cases "b \<in> {8, 9, 10, 12, 13}")
    case True
    then show ?thesis by (auto simp: quote_byte_def unescape_def simple_escape_def)
  next
    case False
    with True have "quote_byte b = [92, 117, 48, 48, hex_lower (unat b div 16), hex_lower (unat b mod 16)]"
      by (auto simp: quote_byte_def)
    then show ?thesis using small by (simp add: unescape_byte)
  qed
next
  case False
  then show ?thesis by (auto simp: quote_byte_def unescape_def simple_escape_def)
qed

lemma lex_string_quote: "lex_string (concat (map quote_byte s) @ 34 # r) = Some (s, r)"
  by (induction s) (simp_all add: lex_string_quote_byte)

fun tjoin :: "token list list \<Rightarrow> token list" where
  "tjoin [] = []"
| "tjoin [x] = x"
| "tjoin (x # y # xs) = x @ TComma # tjoin (y # xs)"

fun tokens :: "json \<Rightarrow> token list" where
  "tokens JNull = [TNull]"
| "tokens (JBool b) = [if b then TTrue else TFalse]"
| "tokens (JNum n) = [TNum n]"
| "tokens (JStr s) = [TStr s]"
| "tokens (JArr vs) = TOpenArr # tjoin (map tokens vs) @ [TCloseArr]"
| "tokens (JObj ms) = TOpenObj # tjoin (map (\<lambda>(k, v). TStr k # TColon # tokens v) ms) @ [TCloseObj]"

text \<open>Numbers are spelled as JSON has them; nesting stays within the limit.\<close>

fun json_wf :: "json \<Rightarrow> bool" where
  "json_wf (JNum n) = (valid_num n \<and> list_all is_numchar n)"
| "json_wf (JArr vs) = list_all json_wf vs"
| "json_wf (JObj ms) = list_all (\<lambda>(k, v). json_wf v) ms"
| "json_wf _ = True"

fun jdepth :: "json \<Rightarrow> nat" where
  "jdepth (JArr vs) = Suc (foldr max (map jdepth vs) 0)"
| "jdepth (JObj ms) = Suc (foldr max (map (\<lambda>(k, v). jdepth v) ms) 0)"
| "jdepth _ = 0"

definition sep_ok :: "bytes \<Rightarrow> bool" where
  "sep_ok r \<longleftrightarrow> r = [] \<or> \<not> is_numchar (hd r)"

definition prepend :: "token list \<Rightarrow> token list option \<Rightarrow> token list option" where
  "prepend ts m = map_option ((@) ts) m"

lemma prepend_prepend [simp]: "prepend ts (prepend us m) = prepend (ts @ us) m"
  by (cases m) (simp_all add: prepend_def)

lemma prepend_Cons: "map_option ((#) t) m = prepend [t] m"
  by (cases m) (simp_all add: prepend_def)

definition lexes :: "bytes \<Rightarrow> token list \<Rightarrow> bool" where
  "lexes e ts \<longleftrightarrow> (\<forall>r. sep_ok r \<longrightarrow> lex (e @ r) = prepend ts (lex r))"

lemma lex_punct: "punct b = Some t \<Longrightarrow> lex (b # r) = prepend [t] (lex r)"
  by (auto simp: prepend_Cons next_token_def is_ws_def punct_def split: if_splits)

lemma sep_ok_punct: "punct b = Some t \<Longrightarrow> sep_ok (b # r)"
  by (auto simp: sep_ok_def punct_def is_numchar_def is_digit_def split: if_splits)

lemma punct_simps [simp]:
  "punct 123 = Some TOpenObj" "punct 125 = Some TCloseObj" "punct 91 = Some TOpenArr" "punct 93 = Some TCloseArr"
  "punct 58 = Some TColon" "punct 44 = Some TComma"
  by (simp_all add: punct_def)

lemma lex_quote: "lex (quote s @ r) = prepend [TStr s] (lex r)"
  by (simp add: prepend_Cons quote_def next_token_def is_ws_def punct_def lex_string_quote)

lemma lex_num:
  assumes "valid_num n" "list_all is_numchar n" "sep_ok r"
  shows "lex (n @ r) = prepend [TNum n] (lex r)"
proof -
  obtain b n' where n: "n = b # n'" using assms(1) by (cases n) (auto simp: valid_num_def)
  have b: "is_digit b \<or> b = 45" using assms(1) n
    by (auto simp: valid_num_def valid_unsigned_def is_digit_def split: if_splits)
  then have "\<not> is_ws b" "punct b = None" "b \<noteq> 34" by (auto simp: is_ws_def is_digit_def punct_def)
  moreover have "takeWhile is_numchar (n @ r) = n" "dropWhile is_numchar (n @ r) = r"
    using assms(2,3) by (cases r; auto simp: sep_ok_def list_all_iff takeWhile_append dropWhile_append)+
  ultimately show ?thesis using b assms(1) n by (simp add: next_token_def prepend_Cons Let_def)
qed

lemma lex_join:
  assumes "list_all2 lexes es tss" "punct b = Some t"
  shows "lex (join [44] es @ b # r) = prepend (tjoin tss @ [t]) (lex r)"
  using assms(1)
proof (induction es arbitrary: tss)
  case Nil then show ?case using lex_punct [OF assms(2)] by simp
next
  case (Cons x es)
  then obtain ts tss' where tss: "tss = ts # tss'" "lexes x ts" "list_all2 lexes es tss'" by (auto simp: list_all2_Cons1)
  show ?case
  proof (cases es)
    case Nil
    then show ?thesis using tss lex_punct [OF assms(2)] sep_ok_punct [OF assms(2), of r]
      by (simp add: lexes_def)
  next
    case (Cons y ys)
    with tss(3) obtain u us where us: "tss' = u # us" by (auto simp: list_all2_Cons1)
    have "lex (x @ 44 # join [44] es @ b # r) = prepend ts (lex (44 # join [44] es @ b # r))"
      using tss(2) sep_ok_punct [OF punct_simps(6)] by (simp add: lexes_def)
    also have "\<dots> = prepend (ts @ TComma # tjoin tss' @ [t]) (lex r)"
      by (simp add: lex_punct [OF punct_simps(6)] Cons.IH [OF tss(3)] del: lex.simps)
    finally show ?thesis using Cons tss us by simp
  qed
qed

lemma lex_enc: "json_wf v \<Longrightarrow> lexes (json_enc v) (tokens v)"
proof (induction v)
  case JNull
  show ?case by (simp add: lexes_def prepend_Cons ascii_def next_token_def word_token_def is_ws_def punct_def is_digit_def)
next
  case (JBool b)
  show ?case by (cases b) (simp_all add: lexes_def prepend_Cons ascii_def next_token_def word_token_def is_ws_def punct_def is_digit_def)
next
  case (JNum n) then show ?case by (simp add: lexes_def lex_num)
next
  case (JStr s) show ?case by (simp add: lexes_def lex_quote)
next
  case (JArr vs)
  then have "list_all2 lexes (map json_enc vs) (map tokens vs)"
    by (auto simp: list_all2_conv_all_nth list_all_iff)
  from lex_join [OF this punct_simps(4)] show ?case
    by (simp add: lexes_def lex_punct [OF punct_simps(3)] del: lex.simps)
next
  case (JObj ms)
  have "lexes (quote k @ [58] @ json_enc v) (TStr k # TColon # tokens v)" if "(k, v) \<in> set ms" for k v
  proof -
    have "lexes (json_enc v) (tokens v)" using JObj that by (force simp: list_all_iff)
    then show ?thesis
      by (simp add: lexes_def lex_quote lex_punct [OF punct_simps(5)] del: lex.simps)
  qed
  then have "list_all2 lexes (map (\<lambda>(k, v). quote k @ [58] @ json_enc v) ms) (map (\<lambda>(k, v). TStr k # TColon # tokens v) ms)"
    by (auto simp: list_all2_map1 list_all2_map2 list_all2_same)
  from lex_join [OF this punct_simps(2)] show ?case
    by (simp add: lexes_def lex_punct [OF punct_simps(1)] del: lex.simps)
qed


text \<open>The parser on the tokens of a value: as one step that completes the value.\<close>

definition pruns :: "json \<Rightarrow> bool" where
  "pruns v \<longleftrightarrow> (\<forall>ts fs m. length fs + jdepth v \<le> maxNestingDepth \<longrightarrow> m = PVal \<or> m = PValEnd \<longrightarrow>
     prun (tokens v @ ts) (m, fs) = Option.bind (complete v fs) (prun ts))"

lemma prunsD:
  "pruns v \<Longrightarrow> length fs + jdepth v \<le> maxNestingDepth \<Longrightarrow> m = PVal \<or> m = PValEnd \<Longrightarrow>
     prun (tokens v @ ts) (m, fs) = Option.bind (complete v fs) (prun ts)"
  unfolding pruns_def by blast

lemma jdepth_mem: "v \<in> set vs \<Longrightarrow> jdepth v \<le> foldr max (map jdepth vs) 0"
  by (induction vs) auto

lemma jdepth_memO: "(k, v) \<in> set ms \<Longrightarrow> jdepth v \<le> foldr max (map (\<lambda>(k, v). jdepth v) ms) 0"
  by (induction ms) auto

lemma prun_elems:
  assumes "\<And>v. v \<in> set vs \<Longrightarrow> pruns v \<and> Suc (length fs) + jdepth v \<le> maxNestingDepth" "vs \<noteq> []" "m = PVal \<or> m = PValEnd"
  shows "prun (tjoin (map tokens vs) @ TCloseArr # ts) (m, FArr us # fs) = Option.bind (complete (JArr (us @ vs)) fs) (prun ts)"
  using assms
proof (induction vs arbitrary: us m)
  case (Cons v vs)
  have v: "prun (tokens v @ qs) (m, FArr us # fs) = prun qs (PSep, FArr (us @ [v]) # fs)" for qs
    using prunsD [of v "FArr us # fs" m qs] Cons.prems by simp
  show ?case
  proof (cases vs)
    case Nil then show ?thesis by (simp add: v)
  next
    case (Cons w ws)
    then show ?thesis using Cons.IH [of PVal "us @ [v]"] Cons.prems by (simp add: v)
  qed
qed simp

lemma prun_members:
  assumes "\<And>k v. (k, v) \<in> set ms \<Longrightarrow> pruns v \<and> Suc (length fs) + jdepth v \<le> maxNestingDepth" "ms \<noteq> []" "m = PKey \<or> m = PKeyEnd"
  shows "prun (tjoin (map (\<lambda>(k, v). TStr k # TColon # tokens v) ms) @ TCloseObj # ts) (m, FObj us # fs) =
           Option.bind (complete (JObj (us @ ms)) fs) (prun ts)"
  using assms
proof (induction ms arbitrary: us m)
  case (Cons kv ms)
  obtain k v where kv: "kv = (k, v)" by (cases kv)
  have v: "prun (TStr k # TColon # tokens v @ qs) (m, FObj us # fs) = prun qs (PSep, FObj (us @ [(k, v)]) # fs)" for qs
    using prunsD [of v "FMem us k # fs" PVal qs] Cons.prems(1) [of k v] Cons.prems(3) by (auto simp: kv)
  show ?case
  proof (cases ms)
    case Nil then show ?thesis using v by (simp add: kv del: prun.simps) simp
  next
    case (Cons w ws)
    have "prun (tjoin (map (\<lambda>(k, v). TStr k # TColon # tokens v) ms) @ TCloseObj # ts) (PKey, FObj (us @ [(k, v)]) # fs) =
      Option.bind (complete (JObj (us @ (k, v) # ms)) fs) (prun ts)"
      using Cons.IH [of PKey "us @ [(k, v)]"] Cons.prems Cons by fastforce
    with Cons show ?thesis
      using v [of "TComma # tjoin (map (\<lambda>(k, v). TStr k # TColon # tokens v) ms) @ TCloseObj # ts"] by (simp add: kv del: prun.simps) simp
  qed
qed simp

lemma pruns_all: "pruns v"
proof (induction v)
  case (JArr vs)
  show ?case unfolding pruns_def
  proof (intro allI impI)
    fix ts and fs :: "frame list" and m
    assume d: "length fs + jdepth (JArr vs) \<le> maxNestingDepth" and m: "m = PVal \<or> m = PValEnd"
    have "pruns v \<and> Suc (length fs) + jdepth v \<le> maxNestingDepth" if "v \<in> set vs" for v
      using JArr that d jdepth_mem [OF that] by simp
    then show "prun (tokens (JArr vs) @ ts) (m, fs) = Option.bind (complete (JArr vs) fs) (prun ts)"
      using d m prun_elems [of vs fs PValEnd ts "[]"] by (cases "vs = []") auto
  qed
next
  case (JObj ms)
  show ?case unfolding pruns_def
  proof (intro allI impI)
    fix ts and fs :: "frame list" and m
    assume d: "length fs + jdepth (JObj ms) \<le> maxNestingDepth" and m: "m = PVal \<or> m = PValEnd"
    have "pruns v \<and> Suc (length fs) + jdepth v \<le> maxNestingDepth" if "(k, v) \<in> set ms" for k v
      using JObj that d jdepth_memO [OF that] by (force simp: snds.simps)
    then show "prun (tokens (JObj ms) @ ts) (m, fs) = Option.bind (complete (JObj ms) fs) (prun ts)"
      using d m prun_members [of ms fs PKeyEnd ts "[]"] by (cases "ms = []") auto
  qed
qed (auto simp: pruns_def)

lemma json_parse_enc:
  assumes "json_wf v" "jdepth v \<le> maxNestingDepth"
  shows "json_parse (json_enc v) = Some v"
proof -
  have "lex (json_enc v) = Some (tokens v)"
    using lex_enc [OF assms(1)] by (auto simp: lexes_def sep_ok_def prepend_def dest: spec [of _ "[]"])
  then show ?thesis
    using prunsD [OF pruns_all, of "[]" v PVal "[]"] assms(2) by (simp add: json_parse_def)
qed

section \<open>Structs\<close>

text \<open>
  Decoding into a struct: a field is found by its name without regard to case, the last one
  wins, \<^verbatim>\<open>null\<close> leaves it as it is, and a value of another kind is an error.
\<close>

definition lower :: "byte \<Rightarrow> byte" where
  "lower b = (if 65 \<le> b \<and> b \<le> 90 then b + 32 else b)"

definition field_is :: "bytes \<Rightarrow> bytes \<Rightarrow> bool" where
  "field_is name k \<longleftrightarrow> map lower name = map lower k"

fun string_field :: "bytes \<Rightarrow> (bytes \<times> json) list \<Rightarrow> bytes \<Rightarrow> bytes option" where
  "string_field name [] cur = Some cur"
| "string_field name ((k, v) # ms) cur =
     (if field_is name k then
        (case v of JStr s \<Rightarrow> string_field name ms s | JNull \<Rightarrow> string_field name ms cur | _ \<Rightarrow> None)
      else string_field name ms cur)"

text \<open>A list of strings; an element that is null is the empty string.\<close>

fun string_elems :: "json list \<Rightarrow> bytes list option" where
  "string_elems [] = Some []"
| "string_elems (v # vs) =
     (case v of
        JStr s \<Rightarrow> map_option ((#) s) (string_elems vs)
      | JNull \<Rightarrow> map_option ((#) []) (string_elems vs)
      | _ \<Rightarrow> None)"

definition unmarshal_strings :: "bytes \<Rightarrow> bytes list option" where
  "unmarshal_strings s =
     (case json_parse s of Some (JArr vs) \<Rightarrow> string_elems vs | Some JNull \<Rightarrow> Some [] | _ \<Rightarrow> None)"

definition marshal_strings :: "bytes list \<Rightarrow> bytes" where
  "marshal_strings ss = json_enc (JArr (map JStr ss))"

lemma string_elems_JStr: "string_elems (map JStr ss) = Some ss"
  by (induction ss) simp_all

lemma jdepth_JStr: "foldr max (map jdepth (map JStr ss)) 0 = 0"
  by (induction ss) simp_all

lemma unmarshal_marshal_strings: "unmarshal_strings (marshal_strings ss) = Some ss"
proof -
  have "json_parse (marshal_strings ss) = Some (JArr (map JStr ss))"
    unfolding marshal_strings_def using jdepth_JStr [of ss]
    by (intro json_parse_enc) (simp_all add: list_all_iff maxNestingDepth_def)
  then show ?thesis by (simp add: unmarshal_strings_def string_elems_JStr)
qed


section \<open>Numbers and flags\<close>

text \<open>Go's \<^verbatim>\<open>int\<close> on a 64-bit platform: the spelling of the encoder and \<^verbatim>\<open>strconv.ParseInt\<close>.\<close>

definition int_text :: "int \<Rightarrow> bytes" where
  "int_text i = (if i < 0 then 45 # itoa (nat (- i)) else itoa (nat i))"

definition digits_value :: "bytes \<Rightarrow> nat" where
  "digits_value ds = foldl (\<lambda>a d. a * 10 + (unat d - 48)) 0 ds"

definition int64 :: "int \<Rightarrow> bool" where
  "int64 i \<longleftrightarrow> - (2 ^ 63) \<le> i \<and> i < 2 ^ 63"

definition parse_int :: "bytes \<Rightarrow> int option" where
  "parse_int s =
     (let neg = (s \<noteq> [] \<and> hd s = 45); ds = (if neg then tl s else s);
          i = (if neg then - int (digits_value ds) else int (digits_value ds))
      in if ds \<noteq> [] \<and> list_all is_digit ds \<and> int64 i then Some i else None)"

fun int_field :: "bytes \<Rightarrow> (bytes \<times> json) list \<Rightarrow> int \<Rightarrow> int option" where
  "int_field name [] cur = Some cur"
| "int_field name ((k, v) # ms) cur =
     (if field_is name k then
        (case v of
           JNum n \<Rightarrow> Option.bind (parse_int n) (int_field name ms)
         | JNull \<Rightarrow> int_field name ms cur
         | _ \<Rightarrow> None)
      else int_field name ms cur)"

fun bool_field :: "bytes \<Rightarrow> (bytes \<times> json) list \<Rightarrow> bool \<Rightarrow> bool option" where
  "bool_field name [] cur = Some cur"
| "bool_field name ((k, v) # ms) cur =
     (if field_is name k then
        (case v of JBool b \<Rightarrow> bool_field name ms b | JNull \<Rightarrow> bool_field name ms cur | _ \<Rightarrow> None)
      else bool_field name ms cur)"

lemma itoa_digits: "list_all is_digit (itoa n)"
proof (induction n rule: itoa.induct)
  case (1 n)
  have d: "is_digit (48 + of_nat k)" if "k < 10" for k :: nat
  proof -
    have "unat (48 + of_nat k :: byte) = 48 + k" using that by (simp add: unat_word_ariths unat_of_nat)
    then show ?thesis using that by (simp add: is_digit_def word_le_nat_alt)
  qed
  show ?case
  proof (cases "n < 10")
    case True then show ?thesis by (subst itoa.simps) (simp add: d)
  next
    case False then show ?thesis using 1 by (subst itoa.simps) (simp add: d)
  qed
qed

lemma digit_value: "k < 10 \<Longrightarrow> unat (48 + of_nat k :: byte) - 48 = k" for k :: nat
  by (simp add: unat_word_ariths unat_of_nat)

lemma digits_value_itoa: "digits_value (itoa n) = n"
proof (induction n rule: itoa.induct)
  case (1 n)
  show ?case
  proof (cases "n < 10")
    case True then show ?thesis by (subst itoa.simps) (simp add: digits_value_def digit_value)
  next
    case False
    then have "digits_value (itoa (n div 10)) = n div 10" using 1 by simp
    with False show ?thesis by (subst itoa.simps) (simp add: digits_value_def digit_value)
  qed
qed

lemma hd_itoa: "0 < n \<Longrightarrow> hd (itoa n) \<noteq> 48"
proof (induction n rule: itoa.induct)
  case (1 n)
  show ?case
  proof (cases "n < 10")
    case True
    then have "unat (48 + of_nat n :: byte) = 48 + n" by (simp add: unat_word_ariths unat_of_nat)
    then have "(48 + of_nat n :: byte) \<noteq> 48" using 1(2) by auto
    with True show ?thesis by (subst itoa.simps) simp
  next
    case False
    then have "hd (itoa (n div 10)) \<noteq> 48" using 1 by simp
    with False show ?thesis by (subst itoa.simps) simp
  qed
qed

lemma digit_not_minus: "is_digit d \<Longrightarrow> d \<noteq> 45"
  by (auto simp: is_digit_def)

lemma valid_unsigned_itoa: "valid_unsigned (itoa n)"
proof (cases "n = 0")
  case True then show ?thesis by (subst itoa.simps) (simp add: valid_unsigned_def valid_frac_def valid_exp_def)
next
  case False
  obtain d r where i: "itoa n = d # r" by (cases "itoa n") simp_all
  with False hd_itoa [of n] itoa_digits [of n] have "d \<noteq> 48" "is_digit d" "list_all is_digit r" by simp_all
  moreover from this have "dropWhile is_digit r = []" by (simp add: dropWhile_eq_Nil_conv list_all_iff)
  then have "valid_frac (dropWhile is_digit r)" by (simp only: valid_frac_def valid_exp_def list.case)
  ultimately show ?thesis using i by (simp add: valid_unsigned_def)
qed

lemma hd_itoa_not_minus: "itoa n = d # r \<Longrightarrow> d \<noteq> 45"
  using itoa_digits [of n] digit_not_minus [of d] by simp

lemma int_text_wf: "json_wf (JNum (int_text i))"
proof -
  have all: "list_all is_numchar (itoa n)" for n using itoa_digits [of n] by (auto simp: list_all_iff is_numchar_def)
  have "valid_num (itoa n)" for n
    using valid_unsigned_itoa [of n] hd_itoa_not_minus [of n] by (cases "itoa n") (auto simp: valid_num_def)
  with all valid_unsigned_itoa show ?thesis by (simp add: int_text_def valid_num_def is_numchar_def)
qed

lemma parse_int_text: "int64 i \<Longrightarrow> parse_int (int_text i) = Some i"
proof (cases "i < 0")
  case True
  assume "int64 i"
  with True itoa_digits [of "nat (- i)"] show ?thesis by (simp add: parse_int_def int_text_def digits_value_itoa)
next
  case False
  assume "int64 i"
  moreover have "hd (itoa (nat i)) \<noteq> 45" using hd_itoa_not_minus [of "nat i"] by (cases "itoa (nat i)") simp_all
  ultimately show ?thesis using False itoa_digits [of "nat i"] by (simp add: parse_int_def int_text_def digits_value_itoa)
qed

end
