(* ===== verification/Base64.thy ===== *)
theory Base64
  imports Go_Prelude
begin

text \<open>
  Go's \<^verbatim>\<open>encoding/base64\<close> as the signalling code uses it: \<^verbatim>\<open>StdEncoding\<close> with padding for the
  encrypted payloads and \<^verbatim>\<open>RawURLEncoding\<close> without for the copy-paste codes. Decoding ignores
  line breaks. The round trip is proved once for every alphabet.
\<close>

section \<open>Sextets\<close>

fun sextets :: "nat list \<Rightarrow> nat list" where
  "sextets (a # b # c # r) =
     a div 4 # (a mod 4 * 16 + b div 16) # (b mod 16 * 4 + c div 64) # (c mod 64) # sextets r"
| "sextets [a, b] = [a div 4, a mod 4 * 16 + b div 16, b mod 16 * 4]"
| "sextets [a] = [a div 4, a mod 4 * 16]"
| "sextets [] = []"

fun unsextets :: "nat list \<Rightarrow> nat list option" where
  "unsextets (w # x # y # z # r) =
     map_option (\<lambda>bs. (w * 4 + x div 16) # (x mod 16 * 16 + y div 4) # (y mod 4 * 64 + z) # bs) (unsextets r)"
| "unsextets [w, x, y] = Some [w * 4 + x div 16, x mod 16 * 16 + y div 4]"
| "unsextets [w, x] = Some [w * 4 + x div 16]"
| "unsextets [w] = None"
| "unsextets [] = Some []"

lemma sextets_bound: "\<forall>a \<in> set bs. a < 256 \<Longrightarrow> \<forall>n \<in> set (sextets bs). n < 64"
  by (induction bs rule: sextets.induct) auto

lemma sextet_arith:
  fixes a b c :: nat
  assumes "b < 256" "c < 256"
  shows "a div 4 * 4 + (a mod 4 * 16 + b div 16) div 16 = a"
    and "(a mod 4 * 16 + b div 16) mod 16 * 16 + (b mod 16 * 4 + c div 64) div 4 = b"
    and "(b mod 16 * 4 + c div 64) mod 4 * 64 + c mod 64 = c"
proof -
  have "b div 16 < 16" "c div 64 < 4" using assms by simp_all
  then have "(a mod 4 * 16 + b div 16) div 16 = a mod 4" "(a mod 4 * 16 + b div 16) mod 16 = b div 16"
    "(b mod 16 * 4 + c div 64) div 4 = b mod 16" "(b mod 16 * 4 + c div 64) mod 4 = c div 64" by simp_all
  then show "a div 4 * 4 + (a mod 4 * 16 + b div 16) div 16 = a"
    "(a mod 4 * 16 + b div 16) mod 16 * 16 + (b mod 16 * 4 + c div 64) div 4 = b"
    "(b mod 16 * 4 + c div 64) mod 4 * 64 + c mod 64 = c" by simp_all
qed

lemma unsextets_sextets: "\<forall>a \<in> set bs. a < 256 \<Longrightarrow> unsextets (sextets bs) = Some bs"
proof (induction bs rule: sextets.induct)
  case (1 a b c r)
  then have "b < 256" "c < 256" by simp_all
  from sextet_arith(1,2) [OF this, of a] sextet_arith(3) [OF this] 1 show ?case by simp
next
  case (2 a b)
  then have "b < 256" "0 < (256 :: nat)" by simp_all
  from sextet_arith(1,2) [OF this, of a] show ?case by simp
qed simp_all

lemma length_sextets: "length (sextets bs) mod 4 = (if length bs mod 3 = 0 then 0 else Suc (length bs mod 3))"
proof (induction bs rule: sextets.induct)
  case (1 a b c r) then show ?case by (simp add: mod_Suc_eq_mod_add3)
qed simp_all

section \<open>Encodings\<close>

definition is_newline :: "byte \<Rightarrow> bool" where
  "is_newline b \<longleftrightarrow> b = 10 \<or> b = 13"

lemma not_newline_pad: "\<not> is_newline 61"
  by (simp add: is_newline_def)

definition b64_chars :: "(nat \<Rightarrow> byte) \<Rightarrow> bytes \<Rightarrow> bytes" where
  "b64_chars alph bs = map alph (sextets (map unat bs))"

fun those :: "'a option list \<Rightarrow> 'a list option" where
  "those [] = Some []"
| "those (None # r) = None"
| "those (Some x # r) = map_option ((#) x) (those r)"

definition b64_bytes :: "(byte \<Rightarrow> nat option) \<Rightarrow> bytes \<Rightarrow> bytes option" where
  "b64_bytes val s = map_option (map of_nat) (Option.bind (those (map val s)) unsextets)"

text \<open>Without padding.\<close>

definition raw_encode :: "(nat \<Rightarrow> byte) \<Rightarrow> bytes \<Rightarrow> bytes" where
  "raw_encode = b64_chars"

definition raw_decode :: "(byte \<Rightarrow> nat option) \<Rightarrow> bytes \<Rightarrow> bytes option" where
  "raw_decode val s = b64_bytes val (filter (\<lambda>b. \<not> is_newline b) s)"

text \<open>With padding to a multiple of four characters; at most two padding characters.\<close>

definition pad_encode :: "(nat \<Rightarrow> byte) \<Rightarrow> bytes \<Rightarrow> bytes" where
  "pad_encode alph bs =
     b64_chars alph bs @ (if length bs mod 3 = 0 then [] else replicate (3 - length bs mod 3) 61)"

definition strip_pad :: "bytes \<Rightarrow> bytes" where
  "strip_pad s =
     (if s \<noteq> [] \<and> last s = 61 then
        (let s' = butlast s in if s' \<noteq> [] \<and> last s' = 61 then butlast s' else s')
      else s)"

definition pad_decode :: "(byte \<Rightarrow> nat option) \<Rightarrow> bytes \<Rightarrow> bytes option" where
  "pad_decode val s =
     (let s' = filter (\<lambda>b. \<not> is_newline b) s
      in if length s' mod 4 \<noteq> 0 then None else b64_bytes val (strip_pad s'))"

text \<open>The two alphabets.\<close>

definition letter64 :: "byte \<Rightarrow> byte \<Rightarrow> nat \<Rightarrow> byte" where
  "letter64 c62 c63 n =
     (if n < 26 then of_nat (65 + n) else if n < 52 then of_nat (71 + n) else if n < 62 then of_nat (n - 4)
      else if n = 62 then c62 else c63)"

definition value64 :: "byte \<Rightarrow> byte \<Rightarrow> byte \<Rightarrow> nat option" where
  "value64 c62 c63 b =
     (if 65 \<le> b \<and> b \<le> 90 then Some (unat b - 65) else if 97 \<le> b \<and> b \<le> 122 then Some (unat b - 71)
      else if 48 \<le> b \<and> b \<le> 57 then Some (unat b + 4) else if b = c62 then Some 62 else if b = c63 then Some 63 else None)"

abbreviation std_letter where "std_letter \<equiv> letter64 43 47"
abbreviation std_value where "std_value \<equiv> value64 43 47"
abbreviation url_letter where "url_letter \<equiv> letter64 45 95"
abbreviation url_value where "url_value \<equiv> value64 45 95"

section \<open>Round trips\<close>

text \<open>An alphabet: 64 characters that are read back, none of them a line break or the padding.\<close>

locale alphabet64 =
  fixes alph :: "nat \<Rightarrow> byte" and val :: "byte \<Rightarrow> nat option"
  assumes val_alph: "n < 64 \<Longrightarrow> val (alph n) = Some n"
    and alph_plain: "n < 64 \<Longrightarrow> \<not> is_newline (alph n) \<and> alph n \<noteq> 61"
begin

lemma those_alph: "\<forall>n \<in> set ns. n < 64 \<Longrightarrow> those (map val (map alph ns)) = Some ns"
  by (induction ns) (simp_all add: val_alph)

lemma sextets_small: "\<forall>n \<in> set (sextets (map unat (bs :: bytes))). n < 64"
  by (rule sextets_bound) (auto simp: unat_byte_lt)

lemma bytes_chars: "b64_bytes val (b64_chars alph bs) = Some bs"
proof -
  have "\<forall>a \<in> set (map unat bs). a < 256" by (auto simp: unat_byte_lt)
  then have "unsextets (sextets (map unat bs)) = Some (map unat bs)" by (rule unsextets_sextets)
  with those_alph [OF sextets_small, of bs] show ?thesis
    by (simp add: b64_bytes_def b64_chars_def comp_def)
qed

lemma chars_plain: "b \<in> set (b64_chars alph bs) \<Longrightarrow> \<not> is_newline b \<and> b \<noteq> 61"
  using sextets_small alph_plain by (auto simp: b64_chars_def)

lemma filter_chars [simp]: "filter (\<lambda>b. \<not> is_newline b) (b64_chars alph bs) = b64_chars alph bs"
  using chars_plain by (simp add: filter_id_conv)

lemma raw_roundtrip: "raw_decode val (raw_encode alph bs) = Some bs"
  by (simp add: raw_decode_def raw_encode_def bytes_chars)

lemma strip_chars: "n \<le> 2 \<Longrightarrow> strip_pad (b64_chars alph bs @ replicate n 61) = b64_chars alph bs"
proof -
  have l: "b64_chars alph bs \<noteq> [] \<Longrightarrow> last (b64_chars alph bs) \<noteq> 61" using chars_plain last_in_set by blast
  assume "n \<le> 2"
  then consider "n = 0" | "n = 1" | "n = 2" by linarith
  then show ?thesis by cases (use l in \<open>auto simp: strip_pad_def numeral_2_eq_2 butlast_append Let_def\<close>)
qed

lemma pad_roundtrip: "pad_decode val (pad_encode alph bs) = Some bs"
proof -
  define n where "n = (if length bs mod 3 = 0 then 0 else 3 - length bs mod 3)"
  have enc: "pad_encode alph bs = b64_chars alph bs @ replicate n 61" by (simp add: pad_encode_def n_def)
  have n: "n \<le> 2" by (auto simp: n_def)
  have "(length (sextets (map unat bs)) mod 4 + n) mod 4 = 0"
    using length_sextets [of "map unat bs"] mod_less_divisor [of 3 "length bs"] by (auto simp: n_def)
  then have "length (pad_encode alph bs) mod 4 = 0" by (simp add: enc b64_chars_def mod_add_left_eq)
  moreover have "filter (\<lambda>b. \<not> is_newline b) (pad_encode alph bs) = pad_encode alph bs"
    by (simp add: enc not_newline_pad)
  ultimately show ?thesis using strip_chars [OF n, of bs] by (simp add: pad_decode_def enc bytes_chars Let_def)
qed

end

lemma std_alphabet: "\<forall>n \<in> set [0..<64]. std_value (std_letter n) = Some n \<and> \<not> is_newline (std_letter n) \<and> std_letter n \<noteq> 61"
  by code_simp

lemma url_alphabet: "\<forall>n \<in> set [0..<64]. url_value (url_letter n) = Some n \<and> \<not> is_newline (url_letter n) \<and> url_letter n \<noteq> 61"
  by code_simp

interpretation b64_std: alphabet64 std_letter std_value
  by unfold_locales (use std_alphabet in auto)

interpretation b64_url: alphabet64 url_letter url_value
  by unfold_locales (use url_alphabet in auto)

end
