(* ===== verification/Api_Server.thy ===== *)
theory Api_Server
  imports Session_Hub Discovery_Hub Json
begin

text \<open>
  The HTTP interface of the signalling server (\<^verbatim>\<open>apiServer\<close> in
  \<^verbatim>\<open>signalserver/cmd/signalserver/main.go\<close>): routing, the session handlers and streams, and
  the discovery handlers, on the state of the two hubs. A handler returns what it replied and
  the new state; \<open>None\<close> is a panic of a hub. Paths, methods and identifiers are ASCII strings;
  bodies are bytes.
\<close>

section \<open>Requests and replies\<close>

text \<open>The body as far as it arrives, and whether the connection fails after it.\<close>

record request =
  rq_method :: string
  rq_path :: string
  rq_room :: string
  rq_body :: bytes
  rq_err :: bool

datatype body = NoBody | Raw bytes | Listings "listing list" | Event "listing list"

text \<open>A reply, or an event stream that was opened on a channel after sending its first bytes.\<close>

datatype reply = Reply nat body | Stream nat body

record api_server =
  api_sessions :: session_hub
  api_discovery :: discovery_hub

definition notFound :: reply where
  "notFound = Reply 404 (Raw (ascii ''404 page not found''))"

definition httpError :: "string \<Rightarrow> nat \<Rightarrow> reply" where
  "httpError msg code = Reply code (Raw (ascii msg))"

text \<open>\<^verbatim>\<open>strings.Split(strings.Trim(p, "/"), "/")\<close>, and \<^verbatim>\<open>strings.TrimSpace\<close> on ASCII text.\<close>

definition slash :: char where
  "slash = CHR ''/''"

definition path_parts :: "string \<Rightarrow> string list" where
  "path_parts p = split_on slash (trim_with ((=) slash) p)"

definition is_space_char :: "char \<Rightarrow> bool" where
  "is_space_char c \<longleftrightarrow> c = CHR '' '' \<or> (9 \<le> (of_char c :: nat) \<and> (of_char c :: nat) \<le> 13)"

definition trimSpace :: "string \<Rightarrow> string" where
  "trimSpace = trim_with is_space_char"

definition text_of :: "bytes \<Rightarrow> string" where
  "text_of b = map (\<lambda>w. char_of (unat w)) b"

definition readBodyLimit :: "nat \<Rightarrow> request \<Rightarrow> string + bytes" where
  "readBodyLimit limit rq =
     (if rq_err rq \<and> length (rq_body rq) < limit then Inl ''read error''
      else let b = take limit (rq_body rq) in if b = [] then Inl ''empty body'' else Inr b)"

section \<open>Sessions\<close>

definition sendSessionSSE :: "string \<Rightarrow> string \<Rightarrow> session_hub \<Rightarrow> bytes" where
  "sendSessionSSE sid kind h =
     (case hub_get sid h of
        None \<Rightarrow> []
      | Some e \<Rightarrow>
          let b = (if kind = ''offer'' then se_Offer e else se_Answer e)
          in if b = [] then [] else ascii ''data: '' @ b @ [10, 10])"

definition handleSessionStream :: "bool \<Rightarrow> string \<Rightarrow> string \<Rightarrow> api_server \<Rightarrow> (reply \<times> api_server) option" where
  "handleSessionStream flusher sid kind a =
     (if \<not> flusher then Some (httpError ''stream unsupported'' 500, a)
      else if kind = ''offer'' then
        (case watchOffer sid (api_sessions a) of
           (ch, h) \<Rightarrow> Some (Stream ch (Raw (sendSessionSSE sid kind h)), a\<lparr>api_sessions := h\<rparr>))
      else if kind = ''answer'' then
        (case watchAnswer sid (api_sessions a) of
           (ch, h) \<Rightarrow> Some (Stream ch (Raw (sendSessionSSE sid kind h)), a\<lparr>api_sessions := h\<rparr>))
      else Some (notFound, a))"

text \<open>What an open stream writes when its ticker fires or it is notified, and its end.\<close>

datatype stream_wake = KeepAlive | Notified

definition session_stream_write :: "stream_wake \<Rightarrow> string \<Rightarrow> string \<Rightarrow> session_hub \<Rightarrow> bytes" where
  "session_stream_write w sid kind h =
     (case w of KeepAlive \<Rightarrow> ascii '':keepalive'' @ [10, 10] | Notified \<Rightarrow> sendSessionSSE sid kind h)"

definition session_stream_end :: "string \<Rightarrow> string \<Rightarrow> nat \<Rightarrow> api_server \<Rightarrow> api_server option" where
  "session_stream_end sid kind ch a =
     map_option (\<lambda>h. a\<lparr>api_sessions := h\<rparr>)
       (if kind = ''offer'' then stopOffer sid ch (api_sessions a) else stopAnswer sid ch (api_sessions a))"

definition post_session :: "instant \<Rightarrow> request \<Rightarrow> string \<Rightarrow> string \<Rightarrow> api_server \<Rightarrow> (reply \<times> api_server) option" where
  "post_session now rq sid kind a =
     (case readBodyLimit (512 * 1024) rq of
        Inl err \<Rightarrow> Some (httpError err 400, a)
      | Inr b \<Rightarrow>
          if json_parse b = None then Some (httpError ''invalid json'' 400, a)
          else if kind = ''offer'' then
            map_option (\<lambda>h. (Reply 200 NoBody, a\<lparr>api_sessions := h\<rparr>)) (setOffer sid b now (api_sessions a))
          else if kind = ''answer'' then
            map_option (\<lambda>h. (Reply 200 NoBody, a\<lparr>api_sessions := h\<rparr>)) (setAnswer sid b now (api_sessions a))
          else Some (notFound, a))"

definition get_session :: "string \<Rightarrow> string \<Rightarrow> session_hub \<Rightarrow> reply" where
  "get_session sid kind h =
     (case hub_get sid h of
        None \<Rightarrow> Reply 404 NoBody
      | Some e \<Rightarrow>
          if kind = ''offer'' then (if se_Offer e = [] then Reply 404 NoBody else Reply 200 (Raw (se_Offer e)))
          else if kind = ''answer'' then (if se_Answer e = [] then Reply 404 NoBody else Reply 200 (Raw (se_Answer e)))
          else notFound)"

definition handleSession :: "bool \<Rightarrow> instant \<Rightarrow> request \<Rightarrow> api_server \<Rightarrow> (reply \<times> api_server) option" where
  "handleSession flusher now rq a =
     (let parts = path_parts (rq_path rq)
      in if length parts < 3 \<or> parts ! 0 \<noteq> ''session'' then Some (notFound, a)
         else let sid = parts ! 1; kind = parts ! 2; isStream = (4 \<le> length parts \<and> parts ! 3 = ''stream'')
              in if isStream then
                   (if rq_method rq \<noteq> ''GET'' then Some (Reply 405 NoBody, a)
                    else handleSessionStream flusher sid kind a)
                 else if rq_method rq = ''POST'' then post_session now rq sid kind a
                 else if rq_method rq = ''GET'' then Some (get_session sid kind (api_sessions a), a)
                 else Some (Reply 405 NoBody, a))"

section \<open>Discovery\<close>

text \<open>Decoding into a map from strings to strings; null gives the empty string or no map.\<close>

fun string_members :: "(bytes \<times> json) list \<Rightarrow> (bytes \<times> bytes) list option" where
  "string_members [] = Some []"
| "string_members ((k, v) # ms) =
     (case v of
        JStr s \<Rightarrow> map_option ((#) (k, s)) (string_members ms)
      | JNull \<Rightarrow> map_option ((#) (k, [])) (string_members ms)
      | _ \<Rightarrow> None)"

definition unmarshal_map :: "bytes \<Rightarrow> (bytes \<times> bytes) list option" where
  "unmarshal_map s =
     (case json_parse s of Some (JObj ms) \<Rightarrow> string_members ms | Some JNull \<Rightarrow> Some [] | _ \<Rightarrow> None)"

text \<open>\<^verbatim>\<open>strings.TrimSpace(data[k])\<close>; the last member with the key counts.\<close>

definition trimmed_entry :: "(bytes \<times> bytes) list \<Rightarrow> string \<Rightarrow> string" where
  "trimmed_entry data k =
     trimSpace (case map_of (rev data) (ascii k) of Some v \<Rightarrow> text_of v | None \<Rightarrow> [])"

definition listing_of :: "(bytes \<times> bytes) list \<Rightarrow> listing" where
  "listing_of data = \<lparr>l_ID = [], l_Name = trimmed_entry data ''name'', l_Room = trimmed_entry data ''room'',
     l_Code = trimmed_entry data ''code'', l_Method = trimmed_entry data ''method'',
     l_Transport = trimmed_entry data ''transport'', l_Protocol = trimmed_entry data ''protocol'',
     l_NatMapping = trimmed_entry data ''nat_mapping'', l_NatFiltering = trimmed_entry data ''nat_filtering'', l_UpdatedAt = 0\<rparr>"

definition handleDiscoveryRegister :: "(nat \<Rightarrow> nat) \<Rightarrow> instant \<Rightarrow> request \<Rightarrow> api_server \<Rightarrow> (reply \<times> api_server) option" where
  "handleDiscoveryRegister draw now rq a =
     (if rq_method rq \<noteq> ''POST'' then Some (Reply 405 NoBody, a)
      else case readBodyLimit (64 * 1024) rq of
        Inl err \<Rightarrow> Some (httpError err 400, a)
      | Inr b \<Rightarrow>
          (case unmarshal_map b of
             None \<Rightarrow> Some (httpError ''invalid json'' 400, a)
           | Some data \<Rightarrow>
               let l = listing_of data
               in if l_Name l = [] \<or> l_Code l = [] then Some (httpError ''missing name/code'' 400, a)
                  else case register_listing draw now l (api_discovery a) of
                         (i, d) \<Rightarrow> map_option (\<lambda>d'. (Reply 201 (Raw ([123, 34] @ ascii ''id'' @ [34, 58, 34] @ ascii i @ [34, 125])), a\<lparr>api_discovery := d'\<rparr>))
                                     (notifyAll d)))"

definition handleDiscoveryItem :: "instant \<Rightarrow> request \<Rightarrow> api_server \<Rightarrow> (reply \<times> api_server) option" where
  "handleDiscoveryItem now rq a =
     (let parts = path_parts (rq_path rq)
      in if length parts < 2 \<or> parts ! 0 \<noteq> ''discovery'' then Some (notFound, a)
         else let i = parts ! 1
              in if length parts = 2 then
                   (if rq_method rq \<noteq> ''DELETE'' then Some (Reply 405 NoBody, a)
                    else map_option (\<lambda>d. (Reply 200 NoBody, a\<lparr>api_discovery := d\<rparr>)) (notifyAll (remove_listing i (api_discovery a))))
                 else if length parts = 3 \<and> parts ! 2 = ''heartbeat'' then
                   (if rq_method rq \<noteq> ''POST'' then Some (Reply 405 NoBody, a)
                    else case heartbeat i now (api_discovery a) of
                           (ok, d) \<Rightarrow> Some (if ok then Reply 200 NoBody else Reply 404 NoBody, a\<lparr>api_discovery := d\<rparr>))
                 else Some (notFound, a))"

definition handleDiscoveryServers :: "string list \<Rightarrow> request \<Rightarrow> api_server \<Rightarrow> reply \<times> api_server" where
  "handleDiscoveryServers order rq a =
     (if rq_method rq \<noteq> ''GET'' then (Reply 405 NoBody, a)
      else (Reply 200 (Listings (servers_of order (rq_room rq) (api_discovery a))), a))"

definition handleDiscoveryStream :: "bool \<Rightarrow> string list \<Rightarrow> request \<Rightarrow> api_server \<Rightarrow> reply \<times> api_server" where
  "handleDiscoveryStream flusher order rq a =
     (if rq_method rq \<noteq> ''GET'' then (Reply 405 NoBody, a)
      else if \<not> flusher then (httpError ''stream unsupported'' 500, a)
      else case watch_hub (api_discovery a) of
             (ch, d) \<Rightarrow> (Stream ch (Event (servers_of order (rq_room rq) d)), a\<lparr>api_discovery := d\<rparr>))"

section \<open>Routes\<close>

text \<open>
  The most specific pattern wins; a pattern that ends in a slash takes every path below it, and
  the path without the slash is redirected there. The path is the cleaned one the mux sees.
\<close>

definition routes ::
  "bool \<Rightarrow> string list \<Rightarrow> (nat \<Rightarrow> nat) \<Rightarrow> instant \<Rightarrow> request \<Rightarrow> api_server \<Rightarrow> (reply \<times> api_server) option" where
  "routes flusher order draw now rq a =
     (let p = rq_path rq
      in if p = ''/health'' then Some (Reply 200 (Raw (ascii ''ok'')), a)
         else if take 9 p = ''/session/'' then handleSession flusher now rq a
         else if p = ''/discovery/register'' then handleDiscoveryRegister draw now rq a
         else if p = ''/discovery/servers'' then Some (handleDiscoveryServers order rq a)
         else if p = ''/discovery/stream'' then Some (handleDiscoveryStream flusher order rq a)
         else if take 11 p = ''/discovery/'' then handleDiscoveryItem now rq a
         else if p = ''/session'' \<or> p = ''/discovery'' then Some (Reply 301 NoBody, a)
         else Some (notFound, a))"


section \<open>Lemmas\<close>

definition session_path :: "string \<Rightarrow> string \<Rightarrow> string" where
  "session_path sid tail = ''/session/'' @ sid @ ''/'' @ tail"

lemma path_parts_session:
  assumes "slash \<notin> set sid" "tail \<noteq> []" "last tail \<noteq> slash"
  shows "path_parts (session_path sid tail) = ''session'' # sid # split_on slash tail"
proof -
  have path: "session_path sid tail = slash # ''session'' @ slash # sid @ slash # tail"
    by (simp add: session_path_def slash_def)
  have "trim_with ((=) slash) (''session'' @ slash # sid @ slash # tail) = ''session'' @ slash # sid @ slash # tail"
    by (rule trim_with_id) (use assms in \<open>simp add: slash_def\<close>)
  then have "path_parts (session_path sid tail) = split_on slash (''session'' @ slash # sid @ slash # tail)"
    by (simp add: path_parts_def path trim_with_front)
  moreover have "slash \<notin> set ''session''" by (simp add: slash_def)
  ultimately show ?thesis using assms(1) by (simp add: split_on_append del: append.simps split_on.simps)
qed

lemma take_session_path: "take 9 (session_path sid tail) = ''/session/''"
  by (simp add: session_path_def)

lemma routes_session:
  "routes flusher order draw now (rq\<lparr>rq_path := session_path sid tail\<rparr>) a =
     handleSession flusher now (rq\<lparr>rq_path := session_path sid tail\<rparr>) a"
  by (simp add: routes_def take_session_path Let_def) (simp add: session_path_def)

text \<open>Which stream a reply opened: what the handler defers to stop.\<close>

definition streams_after :: "request \<Rightarrow> reply \<Rightarrow> streams \<Rightarrow> streams" where
  "streams_after rq rep os =
     (case rep of
        Stream ch b \<Rightarrow>
          if take 9 (rq_path rq) = ''/session/''
          then os(ch \<mapsto> (path_parts (rq_path rq) ! 2 = ''offer'', path_parts (rq_path rq) ! 1)) else os
      | Reply c b \<Rightarrow> os)"

text \<open>The states the server can reach: requests, ends of streams and ticks in any order.\<close>

inductive api_reach :: "api_server \<Rightarrow> streams \<Rightarrow> bool" where
  api_start: "api_reach \<lparr>api_sessions = newSessionHub, api_discovery = newDiscoveryHub\<rparr> Map.empty"
| api_request: "api_reach a os \<Longrightarrow> routes flusher order draw now rq a = Some (rep, a') \<Longrightarrow>
    api_reach a' (streams_after rq rep os)"
| api_hub: "api_reach a os \<Longrightarrow> hub_exec op (api_sessions a, os) = Some (h, os') \<Longrightarrow> api_reach (a\<lparr>api_sessions := h\<rparr>) os'"
| api_disc: "api_reach a os \<Longrightarrow> disc_exec dop (api_discovery a) = Some d \<Longrightarrow> api_reach (a\<lparr>api_discovery := d\<rparr>) os"

definition api_inv :: "api_server \<Rightarrow> streams \<Rightarrow> bool" where
  "api_inv a os \<longleftrightarrow> hub_inv (api_sessions a) os \<and> disc_inv (api_discovery a)"

lemma post_session_ok:
  assumes "api_inv a os"
  shows "\<exists>code b a'. post_session now rq sid kind a = Some (Reply code b, a') \<and> api_inv a' os"
proof -
  from assms have inv: "hub_inv (api_sessions a) os" by (simp add: api_inv_def)
  show ?thesis
  proof (cases "readBodyLimit (512 * 1024) rq")
    case (Inl err) with assms show ?thesis by (simp add: post_session_def httpError_def)
  next
    case (Inr b)
    obtain h1 where 1: "setOffer sid b now (api_sessions a) = Some h1" "hub_inv h1 os" by (rule setOffer_inv [OF inv])
    obtain h2 where 2: "setAnswer sid b now (api_sessions a) = Some h2" "hub_inv h2 os" by (rule setAnswer_inv [OF inv])
    from Inr assms 1 2 show ?thesis by (simp add: post_session_def api_inv_def notFound_def httpError_def)
  qed
qed

lemma stream_session_ok:
  assumes inv: "api_inv a os"
  shows "\<exists>rep a'. handleSessionStream flusher sid kind a = Some (rep, a') \<and>
     api_inv a' (case rep of Stream ch b \<Rightarrow> os(ch \<mapsto> (kind = ''offer'', sid)) | Reply c b \<Rightarrow> os)"
proof -
  have "fst (watchOffer sid (api_sessions a)) = sh_next (api_sessions a)"
    "fst (watchAnswer sid (api_sessions a)) = sh_next (api_sessions a)"
    by (simp_all add: watchOffer_def watchAnswer_def Let_def)
  with inv watch_inv [of "api_sessions a" os sid] show ?thesis
    by (auto simp: handleSessionStream_def httpError_def notFound_def api_inv_def split: prod.splits)
qed

lemma handleSession_ok:
  assumes inv: "api_inv a os" and path: "take 9 (rq_path rq) = ''/session/''"
  shows "\<exists>rep a'. handleSession flusher now rq a = Some (rep, a') \<and> api_inv a' (streams_after rq rep os)"
proof -
  let ?parts = "path_parts (rq_path rq)"
  have reply: "streams_after rq (Reply c b) os = os" for c b by (simp add: streams_after_def)
  have get: "streams_after rq (get_session sid kind h) os = os" for sid kind h
    by (simp add: get_session_def notFound_def reply split: option.split)
  consider "length ?parts < 3 \<or> ?parts ! 0 \<noteq> ''session''"
    | (stream) "\<not> (length ?parts < 3 \<or> ?parts ! 0 \<noteq> ''session'')" "4 \<le> length ?parts \<and> ?parts ! 3 = ''stream''"
    | (plain) "\<not> (length ?parts < 3 \<or> ?parts ! 0 \<noteq> ''session'')" "\<not> (4 \<le> length ?parts \<and> ?parts ! 3 = ''stream'')" by blast
  then show ?thesis
  proof cases
    case 1 with inv show ?thesis by (simp add: handleSession_def Let_def notFound_def reply)
  next
    case stream
    have "streams_after rq rep os = (case rep of Stream ch b \<Rightarrow> os(ch \<mapsto> (?parts ! 2 = ''offer'', ?parts ! 1)) | Reply c b \<Rightarrow> os)" for rep
      using path by (cases rep) (simp_all add: streams_after_def)
    with stream stream_session_ok [OF inv, of flusher "?parts ! 1" "?parts ! 2"] inv show ?thesis
      by (cases "rq_method rq = ''GET''") (simp_all add: handleSession_def Let_def reply)
  next
    case plain
    show ?thesis
    proof (cases "rq_method rq = ''POST''")
      case True
      with plain post_session_ok [OF inv, of now rq "?parts ! 1" "?parts ! 2"] show ?thesis
        by (auto simp: handleSession_def Let_def reply)
    next
      case False with plain inv show ?thesis by (auto simp: handleSession_def Let_def reply get)
    qed
  qed
qed

lemma discovery_handlers_ok:
  assumes "api_inv a os"
  shows "\<exists>code b a'. handleDiscoveryRegister draw now rq a = Some (Reply code b, a') \<and> api_inv a' os"
    and "\<exists>code b a'. handleDiscoveryItem now rq a = Some (Reply code b, a') \<and> api_inv a' os"
    and "api_inv (snd (handleDiscoveryServers order rq a)) os"
    and "api_inv (snd (handleDiscoveryStream flusher order rq a)) os"
proof -
  from assms have inv: "disc_inv (api_discovery a)" by (simp add: api_inv_def)
  have d1: "\<exists>d'. notifyAll (snd (register_listing draw now l (api_discovery a))) = Some d' \<and> disc_inv d'" for l
    using notifyAll_ok [OF register_ok(1) [OF inv]] by blast
  show "\<exists>code b a'. handleDiscoveryRegister draw now rq a = Some (Reply code b, a') \<and> api_inv a' os"
  proof (cases "rq_method rq = ''POST''")
    case post: True
    show ?thesis
    proof (cases "readBodyLimit (64 * 1024) rq")
      case (Inl err) with assms post show ?thesis by (simp add: handleDiscoveryRegister_def httpError_def)
    next
      case (Inr b)
      show ?thesis
      proof (cases "unmarshal_map b")
        case None with assms post Inr show ?thesis by (simp add: handleDiscoveryRegister_def httpError_def)
      next
        case (Some data)
        with assms post Inr d1 [of "listing_of data"] show ?thesis
          by (auto simp: handleDiscoveryRegister_def httpError_def api_inv_def Let_def case_prod_beta)
      qed
    qed
  qed (use assms in \<open>simp add: handleDiscoveryRegister_def\<close>)
  have d2: "\<exists>d'. notifyAll (remove_listing i (api_discovery a)) = Some d' \<and> disc_inv d'" for i
    using notifyAll_ok [OF remove_ok(1) [OF inv]] by blast
  show "\<exists>code b a'. handleDiscoveryItem now rq a = Some (Reply code b, a') \<and> api_inv a' os"
    using assms heartbeat_ok(1) [OF inv, of "path_parts (rq_path rq) ! 1" now] d2 [of "path_parts (rq_path rq) ! 1"]
    by (auto simp: handleDiscoveryItem_def notFound_def api_inv_def Let_def case_prod_beta)
  show "api_inv (snd (handleDiscoveryServers order rq a)) os" using assms by (simp add: handleDiscoveryServers_def)
  have "disc_inv (snd (watch_hub (api_discovery a)))" using disc_exec_step [OF inv, of Watch] by auto
  then show "api_inv (snd (handleDiscoveryStream flusher order rq a)) os"
    using assms by (simp add: handleDiscoveryStream_def api_inv_def case_prod_beta)
qed


lemma routes_ok:
  assumes inv: "api_inv a os"
  shows "\<exists>rep a'. routes flusher order draw now rq a = Some (rep, a') \<and> api_inv a' (streams_after rq rep os)"
proof -
  have reply: "streams_after rq (Reply c b) os = os" for c b by (simp add: streams_after_def)
  have other: "take 9 (rq_path rq) \<noteq> ''/session/'' \<Longrightarrow> streams_after rq rep os = os" for rep
    by (simp add: streams_after_def split: reply.split)
  show ?thesis
  proof (cases "take 9 (rq_path rq) = ''/session/''")
    case True
    then have "routes flusher order draw now rq a = handleSession flusher now rq a"
      by (auto simp: routes_def Let_def)
    with handleSession_ok [OF inv True] show ?thesis by simp
  next
    case False
    have "\<exists>rep a'. routes flusher order draw now rq a = Some (rep, a') \<and> api_inv a' os"
      using False inv discovery_handlers_ok(1) [OF inv, of draw now rq] discovery_handlers_ok(2) [OF inv, of now rq]
        discovery_handlers_ok(3) [OF inv, of order rq] discovery_handlers_ok(4) [OF inv, of flusher order rq]
      unfolding routes_def Let_def
      by (cases "handleDiscoveryServers order rq a"; cases "handleDiscoveryStream flusher order rq a") (auto simp: notFound_def)
    with other [OF False] show ?thesis by simp
  qed
qed

lemma api_reach_inv: "api_reach a os \<Longrightarrow> api_inv a os"
proof (induction rule: api_reach.induct)
  case api_start show ?case by (simp add: api_inv_def hub_inv_new disc_inv_new)
next
  case (api_request a os flusher order draw now rq rep a')
  from routes_ok [OF api_request.IH, of flusher order draw now rq] api_request(2) show ?case by auto
next
  case (api_hub a os op h os')
  then have "hub_inv (api_sessions a) os" by (simp add: api_inv_def)
  from hub_exec_step [OF this, of op] api_hub show ?case by (auto simp: api_inv_def)
next
  case (api_disc a os dop d)
  then have "disc_inv (api_discovery a)" by (simp add: api_inv_def)
  from disc_exec_step [OF this, of dop] api_disc show ?case by (auto simp: api_inv_def)
qed


section \<open>Properties\<close>



lemma split_kind: "kind = ''offer'' \<or> kind = ''answer'' \<Longrightarrow>
    split_on slash kind = [kind] \<and> kind \<noteq> [] \<and> last kind \<noteq> slash"
  by (auto simp: slash_def)

lemma handle_kind:
  assumes "slash \<notin> set sid" "kind = ''offer'' \<or> kind = ''answer''"
  shows "handleSession flusher now (rq\<lparr>rq_method := ''POST'', rq_path := session_path sid kind\<rparr>) a =
           post_session now (rq\<lparr>rq_method := ''POST'', rq_path := session_path sid kind\<rparr>) sid kind a"
    and "handleSession flusher now (rq\<lparr>rq_method := ''GET'', rq_path := session_path sid kind\<rparr>) a =
           Some (get_session sid kind (api_sessions a), a)"
  using split_kind [OF assms(2)] path_parts_session [OF assms(1), of kind] by (simp_all add: handleSession_def Let_def)

lemma post_session_stores:
  assumes "api_inv a os" "kind = ''offer'' \<or> kind = ''answer''" "json_parse (rq_body rq) \<noteq> None"
    "rq_body rq \<noteq> []" "length (rq_body rq) \<le> 524288" "\<not> rq_err rq"
  shows "\<exists>a'. post_session now rq sid kind a = Some (Reply 200 NoBody, a') \<and> api_inv a' os \<and>
     get_session sid kind (api_sessions a') = Reply 200 (Raw (rq_body rq)) \<and>
     sendSessionSSE sid kind (api_sessions a') = ascii ''data: '' @ rq_body rq @ [10, 10] \<and>
     (\<forall>sid' kind'. sid' \<noteq> sid \<longrightarrow> get_session sid' kind' (api_sessions a') = get_session sid' kind' (api_sessions a))"
proof -
  from assms have inv: "hub_inv (api_sessions a) os" by (simp add: api_inv_def)
  obtain h1 where 1: "setOffer sid (rq_body rq) now (api_sessions a) = Some h1" "hub_inv h1 os" by (rule setOffer_inv [OF inv])
  obtain h2 where 2: "setAnswer sid (rq_body rq) now (api_sessions a) = Some h2" "hub_inv h2 os" by (rule setAnswer_inv [OF inv])
  have "readBodyLimit (512 * 1024) rq = Inr (rq_body rq)" using assms(4-6) by (simp add: readBodyLimit_def)
  with assms 1 2 set_sessions(1) [OF 1(1)] set_sessions(2) [OF 2(1)] show ?thesis
    by (auto simp: post_session_def get_session_def sendSessionSSE_def hub_get_def api_inv_def notFound_def Let_def)
qed


definition request0 :: "bytes \<Rightarrow> request" where
  "request0 b = \<lparr>rq_method = [], rq_path = [], rq_room = [], rq_body = b, rq_err = False\<rparr>"


end
