(* ===== verification/Manual_Code.thy ===== *)
theory Manual_Code
  imports Json Base64 "HOL-Library.Sublist"
begin

text \<open>
  The copy-paste codes of manual mode (\<^verbatim>\<open>golib/signaling/manual.go\<close>) and the compressed session
  descriptions inside them (\<^verbatim>\<open>golib/signaling/compress.go\<close>): JSON, compression, base64url and a
  prefix. The compressor of the Go library is an argument with its inverse; that inflating
  what was deflated gives it back is the only thing relied on.
\<close>

section \<open>Minified descriptions\<close>

definition crlf :: bytes where
  "crlf = [13, 10]"

text \<open>\<^verbatim>\<open>strings.Split(s, "\r\n")\<close>.\<close>

fun split_crlf :: "bytes \<Rightarrow> bytes list" where
  "split_crlf [] = [[]]"
| "split_crlf [x] = [[x]]"
| "split_crlf (x # y # r) =
     (if x = 13 \<and> y = 10 then [] # split_crlf r
      else case split_crlf (y # r) of [] \<Rightarrow> [[x]] | l # ls \<Rightarrow> (x # l) # ls)"

definition sdpKeepPrefixes :: "bytes list" where
  "sdpKeepPrefixes = map ascii [''v='', ''o='', ''s='', ''t='', ''m='', ''c='', ''a=ice-ufrag:'', ''a=ice-pwd:'',
     ''a=fingerprint:'', ''a=setup:'', ''a=mid:'', ''a=sctp-port:'', ''a=max-message-size:'', ''a=candidate:'', ''a=end-of-candidates'']"

definition keep_line :: "bytes \<Rightarrow> bool" where
  "keep_line l \<longleftrightarrow> l \<noteq> [] \<and> list_ex (\<lambda>p. take (length p) l = p) sdpKeepPrefixes"

definition MinifySDP :: "bytes \<Rightarrow> bytes" where
  "MinifySDP sdp =
     (let kept = filter keep_line (split_crlf sdp)
      in if kept = [] then sdp else join crlf kept @ crlf)"

section \<open>Compressed descriptions\<close>

datatype code_error = BadBase64 | BadFlate | NotSdp | MissingPrefix | BadJson

fun contains :: "bytes \<Rightarrow> bytes \<Rightarrow> bool" where
  "contains sub [] = (sub = [])"
| "contains sub (x # s) = (take (length sub) (x # s) = sub \<or> contains sub s)"

definition CompressSDP :: "(bytes \<Rightarrow> bytes) \<Rightarrow> bytes \<Rightarrow> bytes" where
  "CompressSDP deflate sdp = raw_encode url_letter (deflate (MinifySDP sdp))"

definition DecompressSDP :: "(bytes \<Rightarrow> bytes option) \<Rightarrow> bytes \<Rightarrow> code_error + bytes" where
  "DecompressSDP inflate compressed =
     (case raw_decode url_value compressed of
        None \<Rightarrow> Inl BadBase64
      | Some d \<Rightarrow>
          (case inflate d of
             None \<Rightarrow> Inl BadFlate
           | Some sdp \<Rightarrow> if contains (ascii ''v='') sdp then Inr sdp else Inl NotSdp))"

section \<open>Manual offers and answers\<close>

record manual_offer =
  mo_Version :: int
  mo_SessionID :: bytes
  mo_ObfsKey :: bytes
  mo_RelayAddr :: bytes
  mo_NumChannels :: int
  mo_SmuxStreamBuffer :: int
  mo_SmuxSessionBuffer :: int
  mo_SmuxFrameSize :: int
  mo_DCMaxBuffered :: int
  mo_DCLowMark :: int
  mo_PaddingMax :: int
  mo_Padding :: bool
  mo_TransportV :: int
  mo_SmuxKeepAlive :: int
  mo_SmuxKeepAliveTimeout :: int
  mo_CompressedSDP :: bytes

record manual_answer =
  ma_Version :: int
  ma_CompressedSDP :: bytes

text \<open>Members of the encoded struct; the optional ones are left out when empty.\<close>

definition mem_int :: "string \<Rightarrow> int \<Rightarrow> (bytes \<times> json) list" where
  "mem_int k i = [(ascii k, JNum (int_text i))]"

definition mem_str :: "string \<Rightarrow> bytes \<Rightarrow> (bytes \<times> json) list" where
  "mem_str k s = [(ascii k, JStr s)]"

definition opt_int :: "string \<Rightarrow> int \<Rightarrow> (bytes \<times> json) list" where
  "opt_int k i = (if i = 0 then [] else mem_int k i)"

definition opt_str :: "string \<Rightarrow> bytes \<Rightarrow> (bytes \<times> json) list" where
  "opt_str k s = (if s = [] then [] else mem_str k s)"

definition opt_bool :: "string \<Rightarrow> bool \<Rightarrow> (bytes \<times> json) list" where
  "opt_bool k b = (if b then [(ascii k, JBool True)] else [])"

definition offer_members :: "manual_offer \<Rightarrow> (bytes \<times> json) list" where
  "offer_members o1 =
     mem_int ''v'' (mo_Version o1) @ opt_str ''sid'' (mo_SessionID o1) @ mem_str ''ok'' (mo_ObfsKey o1) @
     opt_str ''ra'' (mo_RelayAddr o1) @ mem_int ''nc'' (mo_NumChannels o1) @ opt_int ''ssb'' (mo_SmuxStreamBuffer o1) @
     opt_int ''srb'' (mo_SmuxSessionBuffer o1) @ opt_int ''sfr'' (mo_SmuxFrameSize o1) @ opt_int ''dcb'' (mo_DCMaxBuffered o1) @
     opt_int ''dcl'' (mo_DCLowMark o1) @ opt_int ''pm'' (mo_PaddingMax o1) @ opt_bool ''p'' (mo_Padding o1) @
     opt_int ''tv'' (mo_TransportV o1) @ opt_int ''ska'' (mo_SmuxKeepAlive o1) @ opt_int ''skt'' (mo_SmuxKeepAliveTimeout o1) @
     mem_str ''sdp'' (mo_CompressedSDP o1)"

definition answer_members :: "manual_answer \<Rightarrow> (bytes \<times> json) list" where
  "answer_members an = mem_int ''v'' (ma_Version an) @ mem_str ''sdp'' (ma_CompressedSDP an)"

definition sfield :: "string \<Rightarrow> (bytes \<times> json) list \<Rightarrow> bytes option" where
  "sfield k ms = string_field (ascii k) ms []"

definition ifield :: "string \<Rightarrow> (bytes \<times> json) list \<Rightarrow> int option" where
  "ifield k ms = int_field (ascii k) ms 0"

definition bfield :: "string \<Rightarrow> (bytes \<times> json) list \<Rightarrow> bool option" where
  "bfield k ms = bool_field (ascii k) ms False"

definition offer_ints :: "(bytes \<times> json) list \<Rightarrow> int option list" where
  "offer_ints ms = map (\<lambda>k. ifield k ms)
     [''v'', ''nc'', ''ssb'', ''srb'', ''sfr'', ''dcb'', ''dcl'', ''pm'', ''tv'', ''ska'', ''skt'']"

definition offer_strs :: "(bytes \<times> json) list \<Rightarrow> bytes option list" where
  "offer_strs ms = map (\<lambda>k. sfield k ms) [''sid'', ''ok'', ''ra'', ''sdp'']"

definition offer_of_members :: "(bytes \<times> json) list \<Rightarrow> manual_offer option" where
  "offer_of_members ms =
     (case (those (offer_ints ms), those (offer_strs ms), bfield ''p'' ms) of
        (Some [v, nc, ssb, srb, sfr, dcb, dcl, pm, tv, ska, skt], Some [sid, ok, ra, sdp], Some p) \<Rightarrow>
          Some \<lparr>mo_Version = v, mo_SessionID = sid, mo_ObfsKey = ok, mo_RelayAddr = ra, mo_NumChannels = nc,
            mo_SmuxStreamBuffer = ssb, mo_SmuxSessionBuffer = srb, mo_SmuxFrameSize = sfr, mo_DCMaxBuffered = dcb,
            mo_DCLowMark = dcl, mo_PaddingMax = pm, mo_Padding = p, mo_TransportV = tv, mo_SmuxKeepAlive = ska,
            mo_SmuxKeepAliveTimeout = skt, mo_CompressedSDP = sdp\<rparr>
      | _ \<Rightarrow> None)"

definition answer_of_members :: "(bytes \<times> json) list \<Rightarrow> manual_answer option" where
  "answer_of_members ms =
     (case (ifield ''v'' ms, sfield ''sdp'' ms) of
        (Some v, Some sdp) \<Rightarrow> Some \<lparr>ma_Version = v, ma_CompressedSDP = sdp\<rparr>
      | _ \<Rightarrow> None)"

text \<open>Decoding JSON into a struct: an object, or null which leaves the zero values.\<close>

definition members_of :: "bytes \<Rightarrow> (bytes \<times> json) list option" where
  "members_of s = (case json_parse s of Some (JObj ms) \<Rightarrow> Some ms | Some JNull \<Rightarrow> Some [] | _ \<Rightarrow> None)"

definition ManualOfferPrefix :: bytes where "ManualOfferPrefix = ascii ''M1:''"
definition ManualAnswerPrefix :: bytes where "ManualAnswerPrefix = ascii ''M1A:''"

definition EncodeManualOffer :: "(bytes \<Rightarrow> bytes) \<Rightarrow> manual_offer \<Rightarrow> bytes" where
  "EncodeManualOffer deflate o1 =
     ManualOfferPrefix @ raw_encode url_letter (deflate (json_enc (JObj (offer_members o1))))"

definition EncodeManualAnswer :: "(bytes \<Rightarrow> bytes) \<Rightarrow> manual_answer \<Rightarrow> bytes" where
  "EncodeManualAnswer deflate an =
     ManualAnswerPrefix @ raw_encode url_letter (deflate (json_enc (JObj (answer_members an))))"

definition is_space_byte :: "byte \<Rightarrow> bool" where
  "is_space_byte b \<longleftrightarrow> b = 32 \<or> (9 \<le> b \<and> b \<le> 13)"

text \<open>The members inside a code: trimmed, its prefix cut, decoded and inflated.\<close>

definition decode_code :: "(bytes \<Rightarrow> bytes option) \<Rightarrow> bytes \<Rightarrow> bytes \<Rightarrow> code_error + (bytes \<times> json) list" where
  "decode_code inflate pfx code =
     (let c = trim_with is_space_byte code
      in if take (length pfx) c \<noteq> pfx then Inl MissingPrefix
         else case raw_decode url_value (drop (length pfx) c) of
                None \<Rightarrow> Inl BadBase64
              | Some d \<Rightarrow>
                  (case inflate d of
                     None \<Rightarrow> Inl BadFlate
                   | Some j \<Rightarrow> (case members_of j of None \<Rightarrow> Inl BadJson | Some ms \<Rightarrow> Inr ms)))"

definition DecodeManualOffer :: "(bytes \<Rightarrow> bytes option) \<Rightarrow> bytes \<Rightarrow> code_error + manual_offer" where
  "DecodeManualOffer inflate code =
     (case decode_code inflate ManualOfferPrefix code of
        Inl e \<Rightarrow> Inl e
      | Inr ms \<Rightarrow> (case offer_of_members ms of None \<Rightarrow> Inl BadJson | Some o1 \<Rightarrow> Inr o1))"

definition DecodeManualAnswer :: "(bytes \<Rightarrow> bytes option) \<Rightarrow> bytes \<Rightarrow> code_error + manual_answer" where
  "DecodeManualAnswer inflate code =
     (case decode_code inflate ManualAnswerPrefix code of
        Inl e \<Rightarrow> Inl e
      | Inr ms \<Rightarrow> (case answer_of_members ms of None \<Rightarrow> Inl BadJson | Some an \<Rightarrow> Inr an))"

section \<open>Lemmas on fields\<close>

named_theorems field_simps' \<open>lookup of a field in encoded members\<close>

lemma field_skip [field_simps']:
  "\<not> field_is n (ascii k) \<Longrightarrow> string_field n (mem_str k s @ r) cur = string_field n r cur"
  "\<not> field_is n (ascii k) \<Longrightarrow> string_field n (opt_str k s @ r) cur = string_field n r cur"
  "\<not> field_is n (ascii k) \<Longrightarrow> string_field n (mem_int k i @ r) cur = string_field n r cur"
  "\<not> field_is n (ascii k) \<Longrightarrow> string_field n (opt_int k i @ r) cur = string_field n r cur"
  "\<not> field_is n (ascii k) \<Longrightarrow> string_field n (opt_bool k b @ r) cur = string_field n r cur"
  "\<not> field_is n (ascii k) \<Longrightarrow> int_field n (mem_str k s @ r) icur = int_field n r icur"
  "\<not> field_is n (ascii k) \<Longrightarrow> int_field n (opt_str k s @ r) icur = int_field n r icur"
  "\<not> field_is n (ascii k) \<Longrightarrow> int_field n (mem_int k i @ r) icur = int_field n r icur"
  "\<not> field_is n (ascii k) \<Longrightarrow> int_field n (opt_int k i @ r) icur = int_field n r icur"
  "\<not> field_is n (ascii k) \<Longrightarrow> int_field n (opt_bool k b @ r) icur = int_field n r icur"
  "\<not> field_is n (ascii k) \<Longrightarrow> bool_field n (mem_str k s @ r) bcur = bool_field n r bcur"
  "\<not> field_is n (ascii k) \<Longrightarrow> bool_field n (opt_str k s @ r) bcur = bool_field n r bcur"
  "\<not> field_is n (ascii k) \<Longrightarrow> bool_field n (mem_int k i @ r) bcur = bool_field n r bcur"
  "\<not> field_is n (ascii k) \<Longrightarrow> bool_field n (opt_int k i @ r) bcur = bool_field n r bcur"
  by (simp_all add: mem_str_def opt_str_def mem_int_def opt_int_def opt_bool_def)

lemma field_hit [field_simps']:
  "string_field (ascii k) (mem_str k s @ r) [] = string_field (ascii k) r s"
  "string_field (ascii k) (opt_str k s @ r) [] = string_field (ascii k) r s"
  "int64 i \<Longrightarrow> int_field (ascii k) (mem_int k i @ r) 0 = int_field (ascii k) r i"
  "int64 i \<Longrightarrow> int_field (ascii k) (opt_int k i @ r) 0 = int_field (ascii k) r i"
  "bool_field (ascii k) (opt_bool k b @ r) False = bool_field (ascii k) r b"
  by (simp_all add: field_is_def mem_str_def opt_str_def mem_int_def opt_int_def opt_bool_def parse_int_text)

lemma field_last [field_simps']:
  "string_field (ascii k) (mem_str k s) [] = Some s"
  "\<not> field_is n (ascii k) \<Longrightarrow> string_field n (mem_str k s) cur = Some cur"
  "\<not> field_is n (ascii k) \<Longrightarrow> int_field n (mem_str k s) i = Some i"
  "\<not> field_is n (ascii k) \<Longrightarrow> bool_field n (mem_str k s) b = Some b"
  by (simp_all add: field_is_def mem_str_def)

lemma field_is_refl [simp]: "field_is n n"
  by (simp add: field_is_def)


definition field_names :: "string list" where
  "field_names = [''v'', ''sid'', ''ok'', ''ra'', ''nc'', ''ssb'', ''srb'', ''sfr'', ''dcb'', ''dcl'', ''pm'', ''p'', ''tv'', ''ska'', ''skt'', ''sdp'']"

lemma field_names_differ:
  "\<forall>a \<in> set field_names. \<forall>b \<in> set field_names. field_is (ascii a) (ascii b) = (a = b)"
  by code_simp

lemma field_is_name: "a \<in> set field_names \<Longrightarrow> b \<in> set field_names \<Longrightarrow> field_is (ascii a) (ascii b) = (a = b)"
  using field_names_differ by blast

definition offer_wf :: "manual_offer \<Rightarrow> bool" where
  "offer_wf o1 \<longleftrightarrow> list_all int64 [mo_Version o1, mo_NumChannels o1, mo_SmuxStreamBuffer o1, mo_SmuxSessionBuffer o1,
     mo_SmuxFrameSize o1, mo_DCMaxBuffered o1, mo_DCLowMark o1, mo_PaddingMax o1, mo_TransportV o1, mo_SmuxKeepAlive o1,
     mo_SmuxKeepAliveTimeout o1]"

lemma offer_ints_members:
  "offer_wf o1 \<Longrightarrow> offer_ints (offer_members o1) = map Some [mo_Version o1, mo_NumChannels o1, mo_SmuxStreamBuffer o1,
     mo_SmuxSessionBuffer o1, mo_SmuxFrameSize o1, mo_DCMaxBuffered o1, mo_DCLowMark o1, mo_PaddingMax o1, mo_TransportV o1,
     mo_SmuxKeepAlive o1, mo_SmuxKeepAliveTimeout o1]"
  by (simp add: offer_ints_def offer_members_def ifield_def field_simps' field_is_name field_names_def offer_wf_def)

lemma offer_strs_members:
  "offer_strs (offer_members o1) = map Some [mo_SessionID o1, mo_ObfsKey o1, mo_RelayAddr o1, mo_CompressedSDP o1]"
  by (simp add: offer_strs_def offer_members_def sfield_def field_simps' field_is_name field_names_def)

lemma offer_bool_members: "bfield ''p'' (offer_members o1) = Some (mo_Padding o1)"
  by (simp add: offer_members_def bfield_def field_simps' field_is_name field_names_def)

lemma those_Some: "those (map Some xs) = Some xs"
  by (induction xs) simp_all

lemma offer_of_offer_members: "offer_wf o1 \<Longrightarrow> offer_of_members (offer_members o1) = Some o1"
  by (simp only: offer_of_members_def offer_ints_members offer_strs_members offer_bool_members those_Some) simp

lemma answer_of_answer_members: "int64 (ma_Version an) \<Longrightarrow> answer_of_members (answer_members an) = Some an"
  by (simp add: answer_of_members_def answer_members_def sfield_def ifield_def field_simps' field_is_name field_names_def)


section \<open>Lemmas on codes\<close>

definition flate_ok :: "(bytes \<Rightarrow> bytes) \<Rightarrow> (bytes \<Rightarrow> bytes option) \<Rightarrow> bool" where
  "flate_ok deflate inflate \<longleftrightarrow> (\<forall>b. inflate (deflate b) = Some b)"

lemma url_letter_not_space: "n < 64 \<Longrightarrow> \<not> is_space_byte (url_letter n)"
proof -
  have "\<forall>n \<in> set [0..<64]. \<not> is_space_byte (url_letter n)" by code_simp
  then show "n < 64 \<Longrightarrow> \<not> is_space_byte (url_letter n)" by simp
qed

lemma raw_encode_not_space: "b \<in> set (raw_encode url_letter bs) \<Longrightarrow> \<not> is_space_byte b"
  using b64_url.sextets_small by (auto simp: raw_encode_def b64_chars_def url_letter_not_space)

lemma decode_code_encoded:
  assumes "flate_ok deflate inflate" "pfx \<noteq> []" "\<not> is_space_byte (hd pfx)" "\<not> is_space_byte (last pfx)"
    "list_all is_space_byte ws" "list_all is_space_byte ws'"
  shows "decode_code inflate pfx (ws @ (pfx @ raw_encode url_letter (deflate j)) @ ws') =
           (case members_of j of None \<Rightarrow> Inl BadJson | Some ms \<Rightarrow> Inr ms)"
proof -
  let ?e = "raw_encode url_letter (deflate j)"
  have "\<not> is_space_byte (last (pfx @ ?e))" using assms(2,4) raw_encode_not_space last_in_set by (cases "?e = []") auto
  then have "trim_with is_space_byte (ws @ (pfx @ ?e) @ ws') = pfx @ ?e"
    using assms by (intro trim_with_surround) simp_all
  then show ?thesis using assms(1) by (simp add: decode_code_def b64_url.raw_roundtrip flate_ok_def)
qed

lemma members_of_enc:
  assumes "list_all (\<lambda>(k, v). json_wf v \<and> jdepth v = 0) ms"
  shows "members_of (json_enc (JObj ms)) = Some ms"
proof -
  have "foldr max (map (\<lambda>(k, v). jdepth v) ms) 0 = 0" using assms by (induction ms) auto
  moreover have "json_wf (JObj ms)" using assms by (auto simp: list_all_iff)
  ultimately have "json_parse (json_enc (JObj ms)) = Some (JObj ms)"
    by (intro json_parse_enc) (simp_all add: maxNestingDepth_def)
  then show ?thesis by (simp add: members_of_def)
qed

lemma mem_flat:
  "list_all (\<lambda>(k, v). json_wf v \<and> jdepth v = 0) (mem_int k i)" "list_all (\<lambda>(k, v). json_wf v \<and> jdepth v = 0) (opt_int k i)"
  "list_all (\<lambda>(k, v). json_wf v \<and> jdepth v = 0) (mem_str k s)" "list_all (\<lambda>(k, v). json_wf v \<and> jdepth v = 0) (opt_str k s)"
  "list_all (\<lambda>(k, v). json_wf v \<and> jdepth v = 0) (opt_bool k b)"
  using int_text_wf by (simp_all add: mem_int_def opt_int_def mem_str_def opt_str_def opt_bool_def)

lemma members_of_offer: "members_of (json_enc (JObj (offer_members o1))) = Some (offer_members o1)"
  by (rule members_of_enc) (simp only: offer_members_def list_all_append mem_flat simp_thms)

lemma members_of_answer: "members_of (json_enc (JObj (answer_members an))) = Some (answer_members an)"
  by (rule members_of_enc) (simp only: answer_members_def list_all_append mem_flat simp_thms)

lemma prefix_not_space:
  "ManualOfferPrefix \<noteq> []" "\<not> is_space_byte (hd ManualOfferPrefix)" "\<not> is_space_byte (last ManualOfferPrefix)"
  "ManualAnswerPrefix \<noteq> []" "\<not> is_space_byte (hd ManualAnswerPrefix)" "\<not> is_space_byte (last ManualAnswerPrefix)"
  by (simp_all add: ManualOfferPrefix_def ManualAnswerPrefix_def ascii_def is_space_byte_def)

section \<open>Lemmas on descriptions\<close>

fun no_crlf :: "bytes \<Rightarrow> bool" where
  "no_crlf (x # y # r) \<longleftrightarrow> \<not> (x = 13 \<and> y = 10) \<and> no_crlf (y # r)"
| "no_crlf [x] \<longleftrightarrow> True"
| "no_crlf [] \<longleftrightarrow> True"

lemma split_crlf_not_Nil [simp]: "split_crlf s \<noteq> []"
  by (induction s rule: split_crlf.induct) (auto split: list.splits)

lemma split_crlf_line: "no_crlf l \<Longrightarrow> split_crlf (l @ 13 # 10 # r) = l # split_crlf r"
  by (induction l rule: no_crlf.induct) auto

lemma split_crlf_head: "split_crlf s = l # ls \<Longrightarrow> s \<noteq> [] \<Longrightarrow> l \<noteq> [] \<Longrightarrow> hd l = hd s"
  by (cases s rule: split_crlf.cases) (auto split: list.splits if_splits)

lemma split_crlf_lines: "\<forall>l \<in> set (split_crlf s). no_crlf l"
proof (induction s rule: split_crlf.induct)
  case (3 x y r)
  show ?case
  proof (cases "x = 13 \<and> y = 10")
    case True then show ?thesis using 3(1) by simp
  next
    case False
    obtain l ls where l: "split_crlf (y # r) = l # ls" by (cases "split_crlf (y # r)") simp_all
    have "no_crlf (x # l)"
      using False 3(2) [OF False] l split_crlf_head [OF l] by (cases l) auto
    then show ?thesis using False 3(2) [OF False] l by (simp del: de_Morgan_conj)
  qed
qed simp_all

lemma split_join_crlf: "\<forall>l \<in> set ls. no_crlf l \<Longrightarrow> ls \<noteq> [] \<Longrightarrow> split_crlf (join crlf ls @ crlf) = ls @ [[]]"
proof (induction ls)
  case (Cons x ls)
  then show ?case by (cases ls) (simp_all add: crlf_def split_crlf_line)
qed simp

lemma minify_lines:
  assumes "filter keep_line (split_crlf s) \<noteq> []"
  shows "split_crlf (MinifySDP s) = filter keep_line (split_crlf s) @ [[]]"
  using assms split_join_crlf [of "filter keep_line (split_crlf s)"] split_crlf_lines [of s]
  by (simp add: MinifySDP_def)

lemma minify_kept: "filter keep_line (split_crlf (MinifySDP s)) = filter keep_line (split_crlf s)"
proof (cases "filter keep_line (split_crlf s) = []")
  case True then show ?thesis by (simp add: MinifySDP_def)
next
  case False
  have "\<not> keep_line []" by (simp add: keep_line_def)
  then show ?thesis using minify_lines [OF False] by simp
qed

lemma minify_idem: "MinifySDP (MinifySDP s) = MinifySDP s"
  using minify_kept [of s] by (cases "filter keep_line (split_crlf s) = []") (simp_all add: MinifySDP_def Let_def)


section \<open>Properties\<close>


definition offer0 :: manual_offer where
  "offer0 = \<lparr>mo_Version = 4, mo_SessionID = ascii ''s'', mo_ObfsKey = [], mo_RelayAddr = [], mo_NumChannels = 6,
     mo_SmuxStreamBuffer = 0, mo_SmuxSessionBuffer = 0, mo_SmuxFrameSize = 0, mo_DCMaxBuffered = 0, mo_DCLowMark = 0,
     mo_PaddingMax = 0, mo_Padding = True, mo_TransportV = 2, mo_SmuxKeepAlive = - 1, mo_SmuxKeepAliveTimeout = 0,
     mo_CompressedSDP = ascii ''x''\<rparr>"


text \<open>
  Compressing a description loses only the lines that are not kept. Decompressing gives the
  minified description (or the error that it is no description when no v= is left in it); it
  has exactly the kept lines of the original in their order, and minifying again changes
  nothing.
\<close>

lemma compress_sdp_roundtrip:
  assumes "flate_ok deflate inflate"
  shows "DecompressSDP inflate (CompressSDP deflate sdp) =
           (if contains (ascii ''v='') (MinifySDP sdp) then Inr (MinifySDP sdp) else Inl NotSdp) \<and>
         filter keep_line (split_crlf (MinifySDP sdp)) = filter keep_line (split_crlf sdp) \<and>
         MinifySDP (MinifySDP sdp) = MinifySDP sdp"
  using assms
  by (simp add: DecompressSDP_def CompressSDP_def b64_url.raw_roundtrip flate_ok_def minify_kept minify_idem)

text \<open>
  Descriptions of media transport do not survive. No line with a codec mapping is kept, so
  the decompressed description of an offer with a video section has the section and its
  payload types but none of the mappings they refer to.
\<close>

lemma minify_drops_rtpmap:
  "filter (\<lambda>l. take 9 l = ascii ''a=rtpmap:'') (filter keep_line (split_crlf sdp)) = []"
proof -
  have "\<not> keep_line l" if "take 9 l = ascii ''a=rtpmap:''" for l
  proof -
    have "l = ascii ''a=rtpmap:'' @ drop 9 l" using append_take_drop_id [of 9 l] that by simp
    then obtain r where "l = ascii ''a=rtpmap:'' @ r" by blast
    then show ?thesis by (simp add: keep_line_def sdpKeepPrefixes_def ascii_def)
  qed
  then show ?thesis by (auto simp: filter_empty_conv)
qed

end
