(* ===== verification/Signal_Client.thy ===== *)
theory Signal_Client
  imports Api_Server Base64 Obfs
begin

text \<open>
  The client side of the signalling protocol (\<^verbatim>\<open>golib/signaling/signaling.go\<close>, \<^verbatim>\<open>crypto.go\<close>,
  \<^verbatim>\<open>anti_replay.go\<close>): posting and fetching lists of session descriptions, optionally encrypted,
  by polling or from the event stream. HTTP is an argument, a function of the request and a
  state; the last section puts the signalling server there. Key derivation and cipher are
  arguments as in the packet layer. The Supabase variant, an external service, is left out.
\<close>

section \<open>Encrypted payloads\<close>

datatype sig_error = DeriveKey | CreateCipher | NonceFail | TooShort | OpenFail | BadBase64 | ReplayDetected
  | Transport | Status nat | ReadBody | ParsePayload | Cancelled | Timeout | LineTooLong | StreamEnded

text \<open>\<open>hkdf secret salt info n\<close>: the first \<open>n\<close> bytes of the derived stream.\<close>

type_synonym kdf = "bytes \<Rightarrow> bytes \<Rightarrow> bytes \<Rightarrow> nat \<Rightarrow> io_error + bytes"

definition deriveSignalingKey :: "kdf \<Rightarrow> bytes \<Rightarrow> sig_error + bytes" where
  "deriveSignalingKey hkdf obfsKey =
     (case hkdf obfsKey (ascii ''natproxy-signaling-key'') (ascii ''aes-256-gcm'') 32 of
        Inl e \<Rightarrow> Inl DeriveKey | Inr k \<Rightarrow> Inr k)"

definition aes_key_ok :: "bytes \<Rightarrow> bool" where
  "aes_key_ok k \<longleftrightarrow> length k = 16 \<or> length k = 24 \<or> length k = 32"

text \<open>\<open>rnd\<close>: what reading the 12 random bytes of the nonce gave.\<close>

definition EncryptPayload :: "kdf \<Rightarrow> crypto \<Rightarrow> io_error + bytes \<Rightarrow> bytes \<Rightarrow> bytes \<Rightarrow> sig_error + bytes" where
  "EncryptPayload hkdf cr rnd d obfsKey =
     (case deriveSignalingKey hkdf obfsKey of
        Inl e \<Rightarrow> Inl e
      | Inr k \<Rightarrow>
          if \<not> aes_key_ok k then Inl CreateCipher
          else case rnd of
                 Inl e \<Rightarrow> Inl NonceFail
               | Inr nonce \<Rightarrow> Inr (nonce @ cr_seal cr k nonce d))"

definition DecryptPayload :: "kdf \<Rightarrow> crypto \<Rightarrow> bytes \<Rightarrow> bytes \<Rightarrow> sig_error + bytes" where
  "DecryptPayload hkdf cr d obfsKey =
     (case deriveSignalingKey hkdf obfsKey of
        Inl e \<Rightarrow> Inl e
      | Inr k \<Rightarrow>
          if \<not> aes_key_ok k then Inl CreateCipher
          else if length d < 12 then Inl TooShort
          else case cr_open cr k (take 12 d) (drop 12 d) of None \<Rightarrow> Inl OpenFail | Some p \<Rightarrow> Inr p)"

text \<open>The guard against replayed payloads, as it is in the code: every nonce is fresh.\<close>

record replay_guard_state =
  rg_seen :: "bytes \<Rightarrow> instant option"

definition Check_nonce :: "bytes \<Rightarrow> replay_guard_state \<Rightarrow> bool \<times> replay_guard_state" where
  "Check_nonce nonce rg = (True, rg)"

definition guard_cleanup :: "instant \<Rightarrow> replay_guard_state \<Rightarrow> replay_guard_state" where
  "guard_cleanup now rg =
     rg\<lparr>rg_seen := (\<lambda>k. case rg_seen rg k of None \<Rightarrow> None | Some ts \<Rightarrow> if ts < now - 300 * 10 ^ 9 then None else Some ts)\<rparr>"

definition decryptSDPPayload :: "kdf \<Rightarrow> crypto \<Rightarrow> replay_guard_state \<Rightarrow> bytes \<Rightarrow> bytes \<Rightarrow> sig_error + bytes" where
  "decryptSDPPayload hkdf cr rg encoded obfsKey =
     (case pad_decode std_value encoded of
        None \<Rightarrow> Inl BadBase64
      | Some d \<Rightarrow>
          if 12 \<le> length d \<and> \<not> fst (Check_nonce (take 12 d) rg) then Inl ReplayDetected
          else DecryptPayload hkdf cr d obfsKey)"

text \<open>The variadic key argument: used when there is one and it is not empty.\<close>

fun active_key :: "bytes list \<Rightarrow> bytes option" where
  "active_key (k # ks) = (if k = [] then None else Some k)"
| "active_key [] = None"

record sig_env =
  sv_hkdf :: kdf
  sv_crypto :: crypto
  sv_rnd :: "io_error + bytes"
  sv_guard :: replay_guard_state

definition seal_payload :: "sig_env \<Rightarrow> bytes list \<Rightarrow> bytes \<Rightarrow> sig_error + bytes" where
  "seal_payload sv ks payload =
     (case active_key ks of
        None \<Rightarrow> Inr payload
      | Some k \<Rightarrow>
          (case EncryptPayload (sv_hkdf sv) (sv_crypto sv) (sv_rnd sv) payload k of
             Inl e \<Rightarrow> Inl e | Inr c \<Rightarrow> Inr (pad_encode std_letter c)))"

definition open_payload :: "sig_env \<Rightarrow> bytes list \<Rightarrow> bytes \<Rightarrow> sig_error + bytes" where
  "open_payload sv ks raw =
     (case active_key ks of
        None \<Rightarrow> Inr raw
      | Some k \<Rightarrow> decryptSDPPayload (sv_hkdf sv) (sv_crypto sv) (sv_guard sv) raw k)"

section \<open>Posting\<close>

text \<open>A request and its outcome: no response, or a status and the body as far as it can be read.\<close>

record http_req =
  hq_method :: string
  hq_url :: string
  hq_body :: bytes

type_synonym 's transport = "http_req \<Rightarrow> 's \<Rightarrow> (nat \<times> (io_error + bytes)) option \<times> 's"

definition session_url :: "string \<Rightarrow> string \<Rightarrow> string \<Rightarrow> string" where
  "session_url base sid kind = base @ ''/session/'' @ sid @ ''/'' @ kind"

definition marshal_sdp :: "bytes \<Rightarrow> bytes" where
  "marshal_sdp p = json_enc (JObj [(ascii ''sdp'', JStr p)])"

definition unmarshal_sdp :: "bytes \<Rightarrow> bytes option" where
  "unmarshal_sdp b =
     (case json_parse b of
        Some (JObj ms) \<Rightarrow> string_field (ascii ''sdp'') ms []
      | Some JNull \<Rightarrow> Some []
      | _ \<Rightarrow> None)"

definition post_payload :: "'s transport \<Rightarrow> string \<Rightarrow> bytes \<Rightarrow> 's \<Rightarrow> (sig_error + unit) \<times> 's" where
  "post_payload tr url payload st =
     (case tr \<lparr>hq_method = ''POST'', hq_url = url, hq_body = marshal_sdp payload\<rparr> st of
        (None, st') \<Rightarrow> (Inl Transport, st')
      | (Some (code, b), st') \<Rightarrow> (if code = 200 then Inr () else Inl (Status code), st'))"

definition PostSDPOffers ::
  "sig_env \<Rightarrow> 's transport \<Rightarrow> string \<Rightarrow> string \<Rightarrow> bytes list \<Rightarrow> bytes list \<Rightarrow> 's \<Rightarrow> (sig_error + unit) \<times> 's" where
  "PostSDPOffers sv tr base sid sdps ks st =
     (case seal_payload sv ks (marshal_strings sdps) of
        Inl e \<Rightarrow> (Inl e, st)
      | Inr payload \<Rightarrow> post_payload tr (session_url base sid ''offer'') payload st)"

text \<open>\<open>None\<close> for a nil list: it clears the answer with an empty payload, which is never encrypted.\<close>

definition PostSDPAnswers ::
  "sig_env \<Rightarrow> 's transport \<Rightarrow> string \<Rightarrow> string \<Rightarrow> bytes list option \<Rightarrow> bytes list \<Rightarrow> 's \<Rightarrow> (sig_error + unit) \<times> 's" where
  "PostSDPAnswers sv tr base sid sdps ks st =
     (case (case sdps of None \<Rightarrow> Inr [] | Some xs \<Rightarrow> seal_payload sv ks (marshal_strings xs)) of
        Inl e \<Rightarrow> (Inl e, st)
      | Inr payload \<Rightarrow> post_payload tr (session_url base sid ''answer'') payload st)"

section \<open>Fetching\<close>

text \<open>
  The polling loop: one element for every turn that starts before the deadline, whether the
  context is cancelled before the request and during it.
\<close>

fun getSDPInfoCtx :: "'s transport \<Rightarrow> string \<Rightarrow> (bool \<times> bool) list \<Rightarrow> 's \<Rightarrow> (sig_error + bytes) \<times> 's" where
  "getSDPInfoCtx tr url [] st = (Inl Timeout, st)"
| "getSDPInfoCtx tr url ((before, during) # turns) st =
     (if before then (Inl Cancelled, st)
      else case tr \<lparr>hq_method = ''GET'', hq_url = url, hq_body = []\<rparr> st of
             (None, st') \<Rightarrow> if during then (Inl Cancelled, st') else getSDPInfoCtx tr url turns st'
           | (Some (code, b), st') \<Rightarrow>
               if code = 404 then getSDPInfoCtx tr url turns st'
               else case b of
                      Inl e \<Rightarrow> (Inl ReadBody, st')
                    | Inr body \<Rightarrow>
                        (case unmarshal_sdp body of
                           None \<Rightarrow> (Inl ParsePayload, st')
                         | Some sdp \<Rightarrow> if sdp = [] then getSDPInfoCtx tr url turns st' else (Inr sdp, st')))"

text \<open>The list in a payload; a payload that is no list is a single description.\<close>

definition sdps_of :: "bytes \<Rightarrow> bytes list" where
  "sdps_of raw = (case unmarshal_strings raw of Some xs \<Rightarrow> xs | None \<Rightarrow> [raw])"

definition fetch_sdps ::
  "sig_env \<Rightarrow> 's transport \<Rightarrow> string \<Rightarrow> (bool \<times> bool) list \<Rightarrow> bytes list \<Rightarrow> 's \<Rightarrow> (sig_error + bytes list) \<times> 's" where
  "fetch_sdps sv tr url turns ks st =
     (case getSDPInfoCtx tr url turns st of
        (Inl e, st') \<Rightarrow> (Inl e, st')
      | (Inr raw, st') \<Rightarrow> (case open_payload sv ks raw of Inl e \<Rightarrow> (Inl e, st') | Inr p \<Rightarrow> (Inr (sdps_of p), st')))"

definition GetSDPOffersCtx ::
  "sig_env \<Rightarrow> 's transport \<Rightarrow> string \<Rightarrow> string \<Rightarrow> (bool \<times> bool) list \<Rightarrow> bytes list \<Rightarrow> 's \<Rightarrow> (sig_error + bytes list) \<times> 's" where
  "GetSDPOffersCtx sv tr base sid turns ks = fetch_sdps sv tr (session_url base sid ''offer'') turns ks"

text \<open>The variant with a context: when it is cancelled the request fails.\<close>

definition PostSDPAnswersCtx ::
  "bool \<Rightarrow> sig_env \<Rightarrow> 's transport \<Rightarrow> string \<Rightarrow> string \<Rightarrow> bytes list option \<Rightarrow> bytes list \<Rightarrow> 's \<Rightarrow> (sig_error + unit) \<times> 's" where
  "PostSDPAnswersCtx cancelled sv tr base sid sdps ks st =
     (case (case sdps of None \<Rightarrow> Inr [] | Some xs \<Rightarrow> seal_payload sv ks (marshal_strings xs)) of
        Inl e \<Rightarrow> (Inl e, st)
      | Inr payload \<Rightarrow>
          if cancelled then (Inl Transport, st) else post_payload tr (session_url base sid ''answer'') payload st)"

section \<open>Event streams\<close>

text \<open>
  \<^verbatim>\<open>bufio.Scanner\<close> on the bytes of a stream: lines without their line ending, and whether a line
  did not fit into the buffer of 64 KiB.
\<close>

definition drop_cr :: "bytes \<Rightarrow> bytes" where
  "drop_cr l = (if l \<noteq> [] \<and> last l = 13 then butlast l else l)"

lemma dropWhile_rest_shorter: "dropWhile p s = b # r \<Longrightarrow> length r < length s"
  using length_dropWhile_le [of p s] by simp

function scan_lines :: "bytes \<Rightarrow> bytes list \<times> bool" where
  "scan_lines s =
     (if s = [] then ([], False)
      else let l = takeWhile (\<lambda>b. b \<noteq> 10) s
           in if 65536 \<le> length l then ([], True)
              else case dropWhile (\<lambda>b. b \<noteq> 10) s of
                     [] \<Rightarrow> ([drop_cr l], False)
                   | b # r \<Rightarrow> (case scan_lines r of (ls, long) \<Rightarrow> (drop_cr l # ls, long)))"
  by pat_completeness auto
termination
  by (relation "measure length") (auto dest: dropWhile_rest_shorter)

declare scan_lines.simps [simp del]

text \<open>What one line contributes: nothing, an error, or a list of descriptions.\<close>

definition sse_line :: "sig_env \<Rightarrow> bytes list \<Rightarrow> bytes \<Rightarrow> sig_error + bytes list" where
  "sse_line sv ks line =
     (if take 6 line \<noteq> ascii ''data: '' then Inr []
      else case unmarshal_sdp (drop 6 line) of
             None \<Rightarrow> Inl ParsePayload
           | Some p \<Rightarrow> if p = [] then Inr []
                       else case open_payload sv ks p of Inl e \<Rightarrow> Inl e | Inr raw \<Rightarrow> Inr (sdps_of raw))"

fun wait_lines :: "sig_env \<Rightarrow> bytes list \<Rightarrow> bool \<Rightarrow> bytes list \<Rightarrow> sig_error + bytes list" where
  "wait_lines sv ks long [] = Inl (if long then LineTooLong else StreamEnded)"
| "wait_lines sv ks long (l # ls) =
     (case sse_line sv ks l of
        Inl e \<Rightarrow> Inl e
      | Inr [] \<Rightarrow> wait_lines sv ks long ls
      | Inr sdps \<Rightarrow> Inr sdps)"

text \<open>The first list of answers in the bytes of a stream.\<close>

definition read_answer_stream :: "sig_env \<Rightarrow> bytes list \<Rightarrow> bytes \<Rightarrow> sig_error + bytes list" where
  "read_answer_stream sv ks stream = (case scan_lines stream of (ls, long) \<Rightarrow> wait_lines sv ks long ls)"

text \<open>All lists of offers in the bytes of a stream; lines that cannot be used are skipped.\<close>

definition read_offer_stream :: "sig_env \<Rightarrow> bytes list \<Rightarrow> bytes \<Rightarrow> bytes list list" where
  "read_offer_stream sv ks stream =
     filter (\<lambda>sdps. sdps \<noteq> []) (map (\<lambda>l. case sse_line sv ks l of Inl e \<Rightarrow> [] | Inr sdps \<Rightarrow> sdps) (fst (scan_lines stream)))"

text \<open>
  The body of the response is the stream, up to the point where it ends, breaks or the context
  is cancelled.
\<close>

definition open_stream :: "'s transport \<Rightarrow> string \<Rightarrow> 's \<Rightarrow> (sig_error + bytes) \<times> 's" where
  "open_stream tr url st =
     (case tr \<lparr>hq_method = ''GET'', hq_url = url, hq_body = []\<rparr> st of
        (None, st') \<Rightarrow> (Inl Transport, st')
      | (Some (code, b), st') \<Rightarrow>
          if code \<noteq> 200 then (Inl (Status code), st')
          else (case b of Inl e \<Rightarrow> Inl ReadBody | Inr stream \<Rightarrow> Inr stream, st'))"

definition WaitSDPAnswersSSE ::
  "sig_env \<Rightarrow> 's transport \<Rightarrow> string \<Rightarrow> string \<Rightarrow> bytes list \<Rightarrow> 's \<Rightarrow> (sig_error + bytes list) \<times> 's" where
  "WaitSDPAnswersSSE sv tr base sid ks st =
     (case open_stream tr (session_url base sid ''answer/stream'') st of
        (Inl e, st') \<Rightarrow> (Inl e, st')
      | (Inr stream, st') \<Rightarrow> (read_answer_stream sv ks stream, st'))"

text \<open>The lists the channel delivers before it is closed.\<close>

definition StreamSDPOffers ::
  "sig_env \<Rightarrow> 's transport \<Rightarrow> string \<Rightarrow> string \<Rightarrow> bytes list \<Rightarrow> 's \<Rightarrow> (sig_error + bytes list list) \<times> 's" where
  "StreamSDPOffers sv tr base sid ks st =
     (case open_stream tr (session_url base sid ''offer/stream'') st of
        (Inl e, st') \<Rightarrow> (Inl e, st')
      | (Inr stream, st') \<Rightarrow> (Inr (read_offer_stream sv ks stream), st'))"

section \<open>Lemmas\<close>

text \<open>What is relied on of the cryptography and the random source.\<close>

definition sig_env_ok :: "sig_env \<Rightarrow> bool" where
  "sig_env_ok sv \<longleftrightarrow> aead_ok (sv_crypto sv) \<and>
     (\<forall>secret salt info n. \<exists>k. sv_hkdf sv secret salt info n = Inr k \<and> length k = n) \<and>
     (\<exists>nonce. sv_rnd sv = Inr nonce \<and> length nonce = 12)"

lemma open_seal:
  assumes "sig_env_ok sv"
  shows "\<exists>c. seal_payload sv ks p = Inr c \<and> open_payload sv ks c = Inr p \<and> (p \<noteq> [] \<longrightarrow> c \<noteq> [])"
proof (cases "active_key ks")
  case None
  then show ?thesis by (simp add: seal_payload_def open_payload_def)
next
  case (Some key)
  obtain k where k: "sv_hkdf sv key (ascii ''natproxy-signaling-key'') (ascii ''aes-256-gcm'') 32 = Inr k" "length k = 32"
    using assms unfolding sig_env_ok_def by blast
  obtain nonce where n: "sv_rnd sv = Inr nonce" "length nonce = 12" using assms unfolding sig_env_ok_def by blast
  define c where "c = nonce @ cr_seal (sv_crypto sv) k nonce p"
  have len: "12 \<le> length c" using n by (simp add: c_def)
  have "DecryptPayload (sv_hkdf sv) (sv_crypto sv) c key = Inr p"
    using assms k n by (simp add: DecryptPayload_def deriveSignalingKey_def aes_key_ok_def c_def sig_env_ok_def aead_ok_def)
  then have "open_payload sv ks (pad_encode std_letter c) = Inr p"
    using Some by (simp add: open_payload_def decryptSDPPayload_def b64_std.pad_roundtrip Check_nonce_def)
  moreover have "seal_payload sv ks p = Inr (pad_encode std_letter c)"
    using Some k n by (simp add: seal_payload_def EncryptPayload_def deriveSignalingKey_def aes_key_ok_def c_def)
  moreover have "pad_encode std_letter c \<noteq> []" using b64_std.pad_roundtrip [of c] len by (auto simp: pad_decode_def strip_pad_def b64_bytes_def)
  ultimately show ?thesis by blast
qed

lemma parse_marshal_sdp: "json_parse (marshal_sdp p) = Some (JObj [(ascii ''sdp'', JStr p)])"
  unfolding marshal_sdp_def by (rule json_parse_enc) (simp_all add: maxNestingDepth_def)

lemma unmarshal_marshal_sdp: "unmarshal_sdp (marshal_sdp p) = Some p"
  by (simp add: unmarshal_sdp_def parse_marshal_sdp field_is_def)

lemma marshal_sdp_not_Nil [simp]: "marshal_sdp p \<noteq> []"
  by (simp add: marshal_sdp_def)

lemma marshal_strings_not_Nil [simp]: "marshal_strings ss \<noteq> []"
  by (simp add: marshal_strings_def)

lemma sdps_of_marshal [simp]: "sdps_of (marshal_strings ss) = ss"
  by (simp add: sdps_of_def unmarshal_marshal_strings)

text \<open>The encoder writes no line breaks.\<close>

lemma quote_byte_printable: "b \<in> set (quote_byte c) \<Longrightarrow> b \<noteq> 10 \<and> b \<noteq> 13"
proof -
  have "\<forall>n \<in> set [0..<16]. hex_lower n \<noteq> 10 \<and> hex_lower n \<noteq> 13" by code_simp
  then have "n < 16 \<Longrightarrow> hex_lower n \<noteq> 10 \<and> hex_lower n \<noteq> 13" for n by simp
  moreover have "unat c div 16 < 16" using unat_byte_lt [of c] by simp
  ultimately show "b \<in> set (quote_byte c) \<Longrightarrow> b \<noteq> 10 \<and> b \<noteq> 13"
    by (auto simp: quote_byte_def split: if_splits)
qed

lemma quote_printable: "b \<in> set (quote s) \<Longrightarrow> b \<noteq> 10 \<and> b \<noteq> 13"
  using quote_byte_printable by (auto simp: quote_def)

lemma marshal_sdp_printable: "b \<in> set (marshal_sdp p) \<Longrightarrow> b \<noteq> 10 \<and> b \<noteq> 13"
  using quote_printable by (auto simp: marshal_sdp_def)

lemma scan_line:
  assumes "\<forall>b \<in> set l. b \<noteq> 10 \<and> b \<noteq> 13" "l \<noteq> []"
  shows "scan_lines (l @ 10 # r) =
           (if 65536 \<le> length l then ([], True) else (l # fst (scan_lines r), snd (scan_lines r)))"
proof -
  have "takeWhile (\<lambda>b. b \<noteq> 10) (l @ 10 # r) = l" "dropWhile (\<lambda>b. b \<noteq> 10) (l @ 10 # r) = 10 # r"
    using assms(1) by (simp_all add: takeWhile_append2 dropWhile_append2)
  moreover have "drop_cr l = l" using assms by (simp add: drop_cr_def)
  ultimately show ?thesis by (subst scan_lines.simps) (simp add: Let_def case_prod_beta)
qed

lemma wait_first_event:
  assumes "open_payload sv ks c = Inr (marshal_strings sdps)" "c \<noteq> []" "sdps \<noteq> []"
  shows "read_answer_stream sv ks ((ascii ''data: '' @ marshal_sdp c @ [10, 10]) @ rest) =
           (if length (marshal_sdp c) < 65530 then Inr sdps else Inl LineTooLong)"
proof -
  let ?l = "ascii ''data: '' @ marshal_sdp c"
  have "\<forall>b \<in> set ?l. b \<noteq> 10 \<and> b \<noteq> 13" using marshal_sdp_printable by (auto simp: ascii_def)
  from scan_line [OF this, of "10 # rest"]
  have "scan_lines (?l @ 10 # 10 # rest) =
      (if 65530 \<le> length (marshal_sdp c) then ([], True) else (?l # fst (scan_lines (10 # rest)), snd (scan_lines (10 # rest))))"
    by simp
  moreover have "sse_line sv ks ?l = Inr sdps"
    using assms by (simp add: sse_line_def unmarshal_marshal_sdp)
  ultimately show ?thesis using assms(3) by (cases sdps) (simp_all add: read_answer_stream_def)
qed


section \<open>The server as the other end\<close>

text \<open>
  The transport to the signalling server at \<open>base\<close>: the path is what follows the base. The
  replies these functions fetch are raw bodies; an opened stream shows its first bytes.
\<close>

fun body_bytes :: "body \<Rightarrow> bytes" where
  "body_bytes (Raw b) = b"
| "body_bytes _ = []"

definition server_transport :: "string \<Rightarrow> (nat \<Rightarrow> nat) \<Rightarrow> instant \<Rightarrow> api_server transport" where
  "server_transport base draw now rq a =
     (case routes True [] draw now
             \<lparr>rq_method = hq_method rq, rq_path = drop (length base) (hq_url rq), rq_room = [], rq_body = hq_body rq, rq_err = False\<rparr> a of
        None \<Rightarrow> (None, a)
      | Some (Reply code b, a') \<Rightarrow> (Some (code, Inr (body_bytes b)), a')
      | Some (Stream ch b, a') \<Rightarrow> (Some (200, Inr (body_bytes b)), a'))"

lemma drop_session_url: "drop (length base) (session_url base sid kind) = session_path sid kind"
  by (simp add: session_url_def session_path_def)

lemma server_session:
  assumes "slash \<notin> set sid" "kind = ''offer'' \<or> kind = ''answer''"
  shows "server_transport base draw now \<lparr>hq_method = ''GET'', hq_url = session_url base sid kind, hq_body = b\<rparr> a =
           (case get_session sid kind (api_sessions a) of
              Reply code b \<Rightarrow> (Some (code, Inr (body_bytes b)), a)
            | Stream ch b \<Rightarrow> (Some (200, Inr (body_bytes b)), a))"
    and "server_transport base draw now \<lparr>hq_method = ''POST'', hq_url = session_url base sid kind, hq_body = b\<rparr> a =
           (case post_session now \<lparr>rq_method = ''POST'', rq_path = session_path sid kind, rq_room = [], rq_body = b, rq_err = False\<rparr> sid kind a of
              None \<Rightarrow> (None, a)
            | Some (Reply code b, a') \<Rightarrow> (Some (code, Inr (body_bytes b)), a')
            | Some (Stream ch b, a') \<Rightarrow> (Some (200, Inr (body_bytes b)), a'))"
proof -
  let ?rq = "\<lparr>rq_method = [], rq_path = [], rq_room = [], rq_body = b, rq_err = False\<rparr>"
  note r = routes_session [where flusher = True and order = "[]" and draw = draw and now = now and sid = sid and tail = kind and a = a]
  show "server_transport base draw now \<lparr>hq_method = ''GET'', hq_url = session_url base sid kind, hq_body = b\<rparr> a =
           (case get_session sid kind (api_sessions a) of
              Reply code b \<Rightarrow> (Some (code, Inr (body_bytes b)), a)
            | Stream ch b \<Rightarrow> (Some (200, Inr (body_bytes b)), a))"
    using handle_kind(2) [OF assms, of True now ?rq a] r [where rq = "?rq\<lparr>rq_method := ''GET''\<rparr>"]
    by (simp add: server_transport_def drop_session_url split: reply.split)
  show "server_transport base draw now \<lparr>hq_method = ''POST'', hq_url = session_url base sid kind, hq_body = b\<rparr> a =
           (case post_session now \<lparr>rq_method = ''POST'', rq_path = session_path sid kind, rq_room = [], rq_body = b, rq_err = False\<rparr> sid kind a of
              None \<Rightarrow> (None, a)
            | Some (Reply code b, a') \<Rightarrow> (Some (code, Inr (body_bytes b)), a')
            | Some (Stream ch b, a') \<Rightarrow> (Some (200, Inr (body_bytes b)), a'))"
    using handle_kind(1) [OF assms, of True now ?rq a] r [where rq = "?rq\<lparr>rq_method := ''POST''\<rparr>"]
    by (simp add: server_transport_def drop_session_url)
qed

lemma post_payload_server:
  assumes "api_inv a os" "slash \<notin> set sid" "kind = ''offer'' \<or> kind = ''answer''" "length (marshal_sdp c) \<le> 524288"
  obtains a' where "post_payload (server_transport base draw now) (session_url base sid kind) c a = (Inr (), a')"
    "get_session sid kind (api_sessions a') = Reply 200 (Raw (marshal_sdp c))"
    "sendSessionSSE sid kind (api_sessions a') = ascii ''data: '' @ marshal_sdp c @ [10, 10]"
proof -
  let ?rq = "\<lparr>rq_method = ''POST'', rq_path = session_path sid kind, rq_room = [], rq_body = marshal_sdp c, rq_err = False\<rparr>"
  obtain a' where "post_session now ?rq sid kind a = Some (Reply 200 NoBody, a')"
    "get_session sid kind (api_sessions a') = Reply 200 (Raw (marshal_sdp c))"
    "sendSessionSSE sid kind (api_sessions a') = ascii ''data: '' @ marshal_sdp c @ [10, 10]"
    using post_session_stores [OF assms(1,3), of ?rq now sid] assms(4) by (auto simp: parse_marshal_sdp)
  then show thesis
    using that [of a'] server_session(2) [OF assms(2,3), of base draw now "marshal_sdp c" a] by (simp add: post_payload_def)
qed

lemma fetch_stored:
  assumes "slash \<notin> set sid" "kind = ''offer'' \<or> kind = ''answer''"
    "get_session sid kind (api_sessions a) = Reply 200 (Raw (marshal_sdp c))" "c \<noteq> []"
    "open_payload sv ks c = Inr (marshal_strings sdps)"
  shows "fetch_sdps sv (server_transport base draw now) (session_url base sid kind) ((False, d) # turns) ks a = (Inr sdps, a)"
  using assms server_session(1) [OF assms(1,2), of base draw now "[]" a]
  by (simp add: fetch_sdps_def unmarshal_marshal_sdp)

text \<open>A stream that goes on with \<open>rest\<close> after its first bytes.\<close>

definition continued :: "bytes \<Rightarrow> 's transport \<Rightarrow> 's transport" where
  "continued rest tr rq st =
     (case tr rq st of
        (Some (code, Inr b), st') \<Rightarrow> (Some (code, Inr (b @ rest)), st')
      | (r, st') \<Rightarrow> (r, st'))"

lemma server_answer_stream:
  assumes "slash \<notin> set sid"
  shows "\<exists>a'. server_transport base draw now \<lparr>hq_method = ''GET'', hq_url = session_url base sid ''answer/stream'', hq_body = []\<rparr> a =
     (Some (200, Inr (sendSessionSSE sid ''answer'' (api_sessions a))), a')"
proof -
  let ?rq = "\<lparr>rq_method = ''GET'', rq_path = session_path sid ''answer/stream'', rq_room = [], rq_body = [], rq_err = False\<rparr>"
  have "split_on slash ''answer/stream'' = [''answer'', ''stream'']" by (simp add: slash_def)
  then have "path_parts (session_path sid ''answer/stream'') = [''session'', sid, ''answer'', ''stream'']"
    using path_parts_session [OF assms, of "''answer/stream''"] by (simp add: slash_def)
  then have h: "handleSession True now ?rq a = handleSessionStream True sid ''answer'' a"
    by (simp add: handleSession_def Let_def)
  have "routes True [] draw now ?rq a = handleSession True now ?rq a"
    using routes_session [where flusher = True and order = "[]" and draw = draw and now = now and sid = sid and tail = "''answer/stream''" and rq = ?rq and a = a]
    by simp
  moreover have "hub_get s (snd (watchAnswer s' h)) = hub_get s h" for s s' h by (simp add: hub_get_def other_sessions)
  ultimately show ?thesis
    by (simp add: server_transport_def drop_session_url h handleSessionStream_def sendSessionSSE_def case_prod_beta)
qed

section \<open>Properties\<close>


definition sig_env0 :: sig_env where
  "sig_env0 = \<lparr>sv_hkdf = (\<lambda>secret salt info n. Inr (replicate n 0)), sv_crypto = toy_crypto, sv_rnd = Inr (replicate 12 7),
     sv_guard = \<lparr>rg_seen = Map.empty\<rparr>\<rparr>"

lemma sig_env0_ok: "sig_env_ok sig_env0"
  by (simp add: sig_env_ok_def sig_env0_def toy_ok)


text \<open>
  Answers arrive over the event stream if they fit a line. After a non-empty list of
  answers is posted, a stream that is opened begins with an event from which the waiting side
  reads exactly that list, whatever follows on the stream; but when the encoded payload is
  65530 bytes or longer, which the signalling server accepts, the line does not fit the
  scanner's buffer and waiting ends with an error.
\<close>

lemma answers_over_stream:
  assumes "sig_env_ok sv" "api_reach a os" "slash \<notin> set sid" "sdps \<noteq> []"
    "seal_payload sv ks (marshal_strings sdps) = Inr c" "length (marshal_sdp c) \<le> 524288"
  shows "\<exists>a' a''. PostSDPAnswers sv (server_transport base draw now) base sid (Some sdps) ks a = (Inr (), a') \<and>
     WaitSDPAnswersSSE sv (continued rest (server_transport base draw now')) base sid ks a' =
       (if length (marshal_sdp c) < 65530 then Inr sdps else Inl LineTooLong, a'')"
proof -
  obtain c' where "seal_payload sv ks (marshal_strings sdps) = Inr c'" "open_payload sv ks c' = Inr (marshal_strings sdps)" "c' \<noteq> []"
    using open_seal [OF assms(1), of ks "marshal_strings sdps"] by auto
  with assms(5) have c: "open_payload sv ks c = Inr (marshal_strings sdps)" "c \<noteq> []" by simp_all
  obtain a' where a': "post_payload (server_transport base draw now) (session_url base sid ''answer'') c a = (Inr (), a')"
    "get_session sid ''answer'' (api_sessions a') = Reply 200 (Raw (marshal_sdp c))"
    "sendSessionSSE sid ''answer'' (api_sessions a') = ascii ''data: '' @ marshal_sdp c @ [10, 10]"
    by (rule post_payload_server [OF api_reach_inv [OF assms(2)] assms(3) disjI2 [OF refl] assms(6)])
  obtain a'' where "server_transport base draw now' \<lparr>hq_method = ''GET'', hq_url = session_url base sid ''answer/stream'', hq_body = []\<rparr> a' =
     (Some (200, Inr (ascii ''data: '' @ marshal_sdp c @ [10, 10])), a'')"
    using server_answer_stream [OF assms(3), of base draw now' a'] a'(3) by auto
  with wait_first_event [OF c assms(4), of rest] a'(1) assms(5) show ?thesis
    by (intro exI [of _ a'] exI [of _ a'']) (simp add: PostSDPAnswers_def WaitSDPAnswersSSE_def open_stream_def continued_def)
qed

end
