(* ===== verification/Discovery_Client.thy ===== *)
theory Discovery_Client
  imports Signal_Client
begin

text \<open>
  The client side of the registry (\<^verbatim>\<open>golib/signaling/signaling.go\<close>, from \<^verbatim>\<open>RegisterServer\<close> on):
  registering, heartbeats, removal and listing over HTTP, and the exchange of single messages,
  endpoints (\<^verbatim>\<open>PostOffer\<close>, \<^verbatim>\<open>GetOffer\<close>) and descriptions (\<^verbatim>\<open>PostSDPOffer\<close>, \<^verbatim>\<open>GetSDPOffer\<close>).
  All of these go to a Supabase project instead when the address says so; those calls
  (\<^verbatim>\<open>supabase_rendezvous.go\<close>, requests to an external service) are an argument. The last section
  follows a registration through the signalling server.
\<close>

section \<open>The registry over HTTP\<close>

datatype disc_error = DTransport | DStatus nat | DParse | DRead | ListingExpired

definition isSupabaseURL :: "string \<Rightarrow> bool" where
  "isSupabaseURL url \<longleftrightarrow> take 11 url = ''supabase://''"

record 's supabase =
  su_upsert :: "string \<Rightarrow> string \<Rightarrow> string \<Rightarrow> bytes \<Rightarrow> 's \<Rightarrow> (sig_error + unit) \<times> 's"
  su_wait :: "string \<Rightarrow> string \<Rightarrow> string \<Rightarrow> 's \<Rightarrow> (sig_error + bytes option) \<times> 's"
  su_register :: "string \<Rightarrow> bytes \<Rightarrow> bytes \<Rightarrow> bytes \<Rightarrow> bytes \<Rightarrow> bytes \<Rightarrow> bytes \<Rightarrow> bytes list \<Rightarrow> 's \<Rightarrow> (disc_error + bytes) \<times> 's"
  su_delete :: "string \<Rightarrow> string \<Rightarrow> 's \<Rightarrow> (disc_error + unit) \<times> 's"
  su_heartbeat :: "string \<Rightarrow> string \<Rightarrow> 's \<Rightarrow> (disc_error + unit) \<times> 's"
  su_list :: "string \<Rightarrow> string \<Rightarrow> 's \<Rightarrow> (disc_error + bytes) \<times> 's"

text \<open>A Go map is encoded with its keys in order; the two NAT entries are there when given.\<close>

definition register_data :: "bytes \<Rightarrow> bytes \<Rightarrow> bytes \<Rightarrow> bytes \<Rightarrow> bytes \<Rightarrow> bytes \<Rightarrow> bytes list \<Rightarrow> (bytes \<times> bytes) list" where
  "register_data name room code meth tport proto natInfo =
     [(ascii ''code'', code), (ascii ''method'', meth), (ascii ''name'', name)] @
     (if 2 \<le> length natInfo \<and> natInfo ! 1 \<noteq> [] then [(ascii ''nat_filtering'', natInfo ! 1)] else []) @
     (if 1 \<le> length natInfo \<and> natInfo ! 0 \<noteq> [] then [(ascii ''nat_mapping'', natInfo ! 0)] else []) @
     [(ascii ''protocol'', proto), (ascii ''room'', room), (ascii ''transport'', tport)]"

definition marshal_map :: "(bytes \<times> bytes) list \<Rightarrow> bytes" where
  "marshal_map data = json_enc (JObj (map (\<lambda>(k, v). (k, JStr v)) data))"

definition id_of_reply :: "bytes \<Rightarrow> bytes option" where
  "id_of_reply b =
     (case json_parse b of
        Some (JObj ms) \<Rightarrow> string_field (ascii ''id'') ms []
      | Some JNull \<Rightarrow> Some []
      | _ \<Rightarrow> None)"

definition RegisterServer ::
  "'s supabase \<Rightarrow> 's transport \<Rightarrow> string \<Rightarrow> bytes \<Rightarrow> bytes \<Rightarrow> bytes \<Rightarrow> bytes \<Rightarrow> bytes \<Rightarrow> bytes \<Rightarrow> bytes list \<Rightarrow> 's \<Rightarrow> (disc_error + bytes) \<times> 's" where
  "RegisterServer su tr base name room code meth tport proto natInfo st =
     (if isSupabaseURL base then su_register su base name room code meth tport proto natInfo st
      else case tr \<lparr>hq_method = ''POST'', hq_url = base @ ''/discovery/register'',
                hq_body = marshal_map (register_data name room code meth tport proto natInfo)\<rparr> st of
        (None, st') \<Rightarrow> (Inl DTransport, st')
      | (Some (status, b), st') \<Rightarrow>
          (let body = (case b of Inl e \<Rightarrow> [] | Inr x \<Rightarrow> x)
           in if status \<noteq> 201 then (Inl (DStatus status), st')
              else (case id_of_reply body of None \<Rightarrow> Inl DParse | Some i \<Rightarrow> Inr i, st')))"

definition DeregisterServer :: "'s supabase \<Rightarrow> 's transport \<Rightarrow> string \<Rightarrow> string \<Rightarrow> 's \<Rightarrow> (disc_error + unit) \<times> 's" where
  "DeregisterServer su tr base listingID st =
     (if isSupabaseURL base then su_delete su base listingID st
      else case tr \<lparr>hq_method = ''DELETE'', hq_url = base @ ''/discovery/'' @ listingID, hq_body = []\<rparr> st of
        (None, st') \<Rightarrow> (Inl DTransport, st')
      | (Some (status, b), st') \<Rightarrow> (if status \<noteq> 200 \<and> status \<noteq> 404 then Inl (DStatus status) else Inr (), st'))"

definition HeartbeatServer :: "'s supabase \<Rightarrow> 's transport \<Rightarrow> string \<Rightarrow> string \<Rightarrow> 's \<Rightarrow> (disc_error + unit) \<times> 's" where
  "HeartbeatServer su tr base listingID st =
     (if isSupabaseURL base then su_heartbeat su base listingID st
      else case tr \<lparr>hq_method = ''POST'', hq_url = base @ ''/discovery/'' @ listingID @ ''/heartbeat'', hq_body = []\<rparr> st of
        (None, st') \<Rightarrow> (Inl DTransport, st')
      | (Some (status, b), st') \<Rightarrow>
          (if status = 404 then Inl ListingExpired else if status \<noteq> 200 then Inl (DStatus status) else Inr (), st'))"

text \<open>The query is put together without escaping its parts.\<close>

definition list_url :: "string \<Rightarrow> string \<Rightarrow> string list \<Rightarrow> string" where
  "list_url base room natInfo =
     (let url = base @ ''/discovery/servers''; sep = ''?'';
          (url, sep) = (if room \<noteq> [] then (url @ sep @ ''room='' @ room, ''&'') else (url, sep));
          (url, sep) = (if 1 \<le> length natInfo \<and> natInfo ! 0 \<noteq> [] then (url @ sep @ ''nat_mapping='' @ natInfo ! 0, ''&'') else (url, sep))
      in if 2 \<le> length natInfo \<and> natInfo ! 1 \<noteq> [] then url @ sep @ ''nat_filtering='' @ natInfo ! 1 else url)"

definition ListServers :: "'s supabase \<Rightarrow> 's transport \<Rightarrow> string \<Rightarrow> string \<Rightarrow> string list \<Rightarrow> 's \<Rightarrow> (disc_error + bytes) \<times> 's" where
  "ListServers su tr base room natInfo st =
     (if isSupabaseURL base then su_list su base room st
      else case tr \<lparr>hq_method = ''GET'', hq_url = list_url base room natInfo, hq_body = []\<rparr> st of
        (None, st') \<Rightarrow> (Inl DTransport, st')
      | (Some (status, Inl e), st') \<Rightarrow> (Inl DRead, st')
      | (Some (status, Inr body), st') \<Rightarrow> (if status \<noteq> 200 then Inl (DStatus status) else Inr body, st'))"

section \<open>Endpoint messages\<close>

definition marshal_peer :: "bytes \<Rightarrow> int \<Rightarrow> bytes" where
  "marshal_peer ip port = json_enc (JObj [(ascii ''ip'', JStr ip), (ascii ''port'', JNum (int_text port))])"

definition unmarshal_peer :: "bytes \<Rightarrow> (bytes \<times> int) option" where
  "unmarshal_peer b =
     (case json_parse b of
        Some (JObj ms) \<Rightarrow>
          (case (string_field (ascii ''ip'') ms [], int_field (ascii ''port'') ms 0) of
             (Some ip, Some port) \<Rightarrow> Some (ip, port) | _ \<Rightarrow> None)
      | Some JNull \<Rightarrow> Some ([], 0)
      | _ \<Rightarrow> None)"

definition post_endpoint :: "string \<Rightarrow> 's supabase \<Rightarrow> 's transport \<Rightarrow> string \<Rightarrow> string \<Rightarrow> bytes \<Rightarrow> int \<Rightarrow> 's \<Rightarrow> (sig_error + unit) \<times> 's" where
  "post_endpoint kind su tr base sid ip port st =
     (if isSupabaseURL base then su_upsert su base sid kind (marshal_peer ip port) st
      else case tr \<lparr>hq_method = ''POST'', hq_url = session_url base sid kind, hq_body = marshal_peer ip port\<rparr> st of
        (None, st') \<Rightarrow> (Inl Transport, st')
      | (Some (code, b), st') \<Rightarrow> (if code \<noteq> 200 then Inl (Status code) else Inr (), st'))"

definition PostOffer :: "'s supabase \<Rightarrow> 's transport \<Rightarrow> string \<Rightarrow> string \<Rightarrow> bytes \<Rightarrow> int \<Rightarrow> 's \<Rightarrow> (sig_error + unit) \<times> 's" where
  "PostOffer = post_endpoint ''offer''"

definition PostAnswer :: "'s supabase \<Rightarrow> 's transport \<Rightarrow> string \<Rightarrow> string \<Rightarrow> bytes \<Rightarrow> int \<Rightarrow> 's \<Rightarrow> (sig_error + unit) \<times> 's" where
  "PostAnswer = post_endpoint ''answer''"

text \<open>The loop of \<^verbatim>\<open>getPeerInfo\<close>, with the number of turns before its deadline.\<close>

fun getPeerInfo :: "'s transport \<Rightarrow> string \<Rightarrow> nat \<Rightarrow> 's \<Rightarrow> (sig_error + bytes \<times> int) \<times> 's" where
  "getPeerInfo tr url 0 st = (Inl Timeout, st)"
| "getPeerInfo tr url (Suc n) st =
     (case tr \<lparr>hq_method = ''GET'', hq_url = url, hq_body = []\<rparr> st of
        (None, st') \<Rightarrow> getPeerInfo tr url n st'
      | (Some (code, b), st') \<Rightarrow>
          if code = 404 then getPeerInfo tr url n st'
          else case b of
                 Inl e \<Rightarrow> (Inl ReadBody, st')
               | Inr body \<Rightarrow> (case unmarshal_peer body of None \<Rightarrow> Inl ParsePayload | Some p \<Rightarrow> Inr p, st'))"

definition get_endpoint :: "string \<Rightarrow> 's supabase \<Rightarrow> 's transport \<Rightarrow> string \<Rightarrow> string \<Rightarrow> nat \<Rightarrow> 's \<Rightarrow> (sig_error + bytes \<times> int) \<times> 's" where
  "get_endpoint kind su tr base sid n st =
     (if isSupabaseURL base then
        (case su_wait su base sid kind st of
           (Inl e, st') \<Rightarrow> (Inl e, st')
         | (Inr None, st') \<Rightarrow> (Inl Timeout, st')
         | (Inr (Some b), st') \<Rightarrow> (case unmarshal_peer b of None \<Rightarrow> Inl ParsePayload | Some p \<Rightarrow> Inr p, st'))
      else getPeerInfo tr (session_url base sid kind) n st)"

definition GetOffer :: "'s supabase \<Rightarrow> 's transport \<Rightarrow> string \<Rightarrow> string \<Rightarrow> nat \<Rightarrow> 's \<Rightarrow> (sig_error + bytes \<times> int) \<times> 's" where
  "GetOffer = get_endpoint ''offer''"

definition GetAnswer :: "'s supabase \<Rightarrow> 's transport \<Rightarrow> string \<Rightarrow> string \<Rightarrow> nat \<Rightarrow> 's \<Rightarrow> (sig_error + bytes \<times> int) \<times> 's" where
  "GetAnswer = get_endpoint ''answer''"

section \<open>Single descriptions\<close>

definition post_sdp :: "string \<Rightarrow> 's supabase \<Rightarrow> 's transport \<Rightarrow> string \<Rightarrow> string \<Rightarrow> bytes \<Rightarrow> 's \<Rightarrow> (sig_error + unit) \<times> 's" where
  "post_sdp kind su tr base sid payload st =
     (if isSupabaseURL base then su_upsert su base sid kind (marshal_sdp payload) st
      else post_payload tr (session_url base sid kind) payload st)"

definition PostSDPOffer ::
  "sig_env \<Rightarrow> 's supabase \<Rightarrow> 's transport \<Rightarrow> string \<Rightarrow> string \<Rightarrow> bytes \<Rightarrow> bytes list \<Rightarrow> 's \<Rightarrow> (sig_error + unit) \<times> 's" where
  "PostSDPOffer sv su tr base sid sdp ks st =
     (case seal_payload sv ks sdp of Inl e \<Rightarrow> (Inl e, st) | Inr payload \<Rightarrow> post_sdp ''offer'' su tr base sid payload st)"

text \<open>An empty answer clears the slot and is not encrypted.\<close>

definition PostSDPAnswer ::
  "sig_env \<Rightarrow> 's supabase \<Rightarrow> 's transport \<Rightarrow> string \<Rightarrow> string \<Rightarrow> bytes \<Rightarrow> bytes list \<Rightarrow> 's \<Rightarrow> (sig_error + unit) \<times> 's" where
  "PostSDPAnswer sv su tr base sid sdp ks st =
     (case (if sdp = [] then Inr sdp else seal_payload sv ks sdp) of
        Inl e \<Rightarrow> (Inl e, st)
      | Inr payload \<Rightarrow> post_sdp ''answer'' su tr base sid payload st)"

text \<open>
  Fetching one payload. A Supabase address of the expected form is taken apart into project,
  session and field; anything else is polled.
\<close>

definition getSDPInfo :: "'s supabase \<Rightarrow> 's transport \<Rightarrow> string \<Rightarrow> nat \<Rightarrow> 's \<Rightarrow> (sig_error + bytes) \<times> 's" where
  "getSDPInfo su tr url n st =
     (let parts = split_on slash (drop 11 url)
      in if isSupabaseURL url \<and> 4 \<le> length parts then
           (case su_wait su (''supabase://'' @ parts ! 0) (parts ! (length parts - 2)) (parts ! (length parts - 1)) st of
              (Inl e, st') \<Rightarrow> (Inl e, st')
            | (Inr None, st') \<Rightarrow> (Inl Timeout, st')
            | (Inr (Some b), st') \<Rightarrow>
                (case unmarshal_sdp b of
                   None \<Rightarrow> Inl ParsePayload
                 | Some sdp \<Rightarrow> if sdp = [] then Inl ParsePayload else Inr sdp, st'))
         else getSDPInfoCtx tr url (replicate n (False, False)) st)"

definition get_sdp ::
  "string \<Rightarrow> sig_env \<Rightarrow> 's supabase \<Rightarrow> 's transport \<Rightarrow> string \<Rightarrow> string \<Rightarrow> nat \<Rightarrow> bytes list \<Rightarrow> 's \<Rightarrow> (sig_error + bytes) \<times> 's" where
  "get_sdp kind sv su tr base sid n ks st =
     (case getSDPInfo su tr (session_url base sid kind) n st of
        (Inl e, st') \<Rightarrow> (Inl e, st')
      | (Inr raw, st') \<Rightarrow> (open_payload sv ks raw, st'))"

definition GetSDPOffer ::
  "sig_env \<Rightarrow> 's supabase \<Rightarrow> 's transport \<Rightarrow> string \<Rightarrow> string \<Rightarrow> nat \<Rightarrow> bytes list \<Rightarrow> 's \<Rightarrow> (sig_error + bytes) \<times> 's" where
  "GetSDPOffer = get_sdp ''offer''"

definition GetSDPAnswer ::
  "sig_env \<Rightarrow> 's supabase \<Rightarrow> 's transport \<Rightarrow> string \<Rightarrow> string \<Rightarrow> nat \<Rightarrow> bytes list \<Rightarrow> 's \<Rightarrow> (sig_error + bytes) \<times> 's" where
  "GetSDPAnswer = get_sdp ''answer''"

definition GetSDPOffers ::
  "sig_env \<Rightarrow> 's supabase \<Rightarrow> 's transport \<Rightarrow> string \<Rightarrow> string \<Rightarrow> nat \<Rightarrow> bytes list \<Rightarrow> 's \<Rightarrow> (sig_error + bytes list) \<times> 's" where
  "GetSDPOffers sv su tr base sid n ks st =
     (case get_sdp ''offer'' sv su tr base sid n ks st of (Inl e, st') \<Rightarrow> (Inl e, st') | (Inr raw, st') \<Rightarrow> (Inr (sdps_of raw), st'))"

definition GetSDPAnswers ::
  "sig_env \<Rightarrow> 's supabase \<Rightarrow> 's transport \<Rightarrow> string \<Rightarrow> string \<Rightarrow> nat \<Rightarrow> bytes list \<Rightarrow> 's \<Rightarrow> (sig_error + bytes list) \<times> 's" where
  "GetSDPAnswers sv su tr base sid n ks st =
     (case get_sdp ''answer'' sv su tr base sid n ks st of (Inl e, st') \<Rightarrow> (Inl e, st') | (Inr raw, st') \<Rightarrow> (Inr (sdps_of raw), st'))"

section \<open>Lemmas\<close>

lemma text_of_ascii [simp]: "text_of (ascii s) = s"
proof -
  have "char_of (unat (of_char c :: byte)) = c" for c :: char
    unfolding of_nat_of_char [symmetric, where 'a = byte] by (simp add: unat_of_nat)
  then show ?thesis by (simp add: text_of_def ascii_def comp_def)
qed

lemma letters_plain: "\<forall>c \<in> set letters. quote_byte (of_char c) = [of_char c] \<and> c \<noteq> slash"
  by code_simp

lemma letters_nth: "d < 62 \<Longrightarrow> letters ! d \<in> set letters"
  by (rule nth_mem) (simp add: letters_def)

lemma randomID_plain:
  assumes "\<And>i. draw i < 62"
  shows "slash \<notin> set (randomID draw n)" "quote (ascii (randomID draw n)) = [34] @ ascii (randomID draw n) @ [34]"
proof -
  have mem: "c \<in> set letters" if "c \<in> set (randomID draw n)" for c
    using that letters_nth assms by (auto simp: randomID_def)
  then show "slash \<notin> set (randomID draw n)" using letters_plain by blast
  have "concat (map quote_byte (ascii s)) = ascii s" if "set s \<subseteq> set letters" for s
    using that letters_plain by (induction s) (auto simp: ascii_def)
  then show "quote (ascii (randomID draw n)) = [34] @ ascii (randomID draw n) @ [34]"
    using mem by (simp add: quote_def subset_iff)
qed

lemma length_randomID [simp]: "length (randomID draw n) = n"
  by (simp add: randomID_def)

text \<open>The reply to a registration is the JSON object it looks like, for the letters of an identifier.\<close>

lemma id_of_register_reply:
  assumes "\<And>i. draw i < 62"
  shows "id_of_reply ([123, 34] @ ascii ''id'' @ [34, 58, 34] @ ascii (randomID draw 12) @ [34, 125]) = Some (ascii (randomID draw 12))"
proof -
  have "quote (ascii ''id'') = [34] @ ascii ''id'' @ [34]" by (simp add: quote_def quote_byte_def ascii_def)
  then have "[123, 34] @ ascii ''id'' @ [34, 58, 34] @ ascii (randomID draw 12) @ [34, 125] =
      json_enc (JObj [(ascii ''id'', JStr (ascii (randomID draw 12)))])"
    using randomID_plain(2) [of draw 12, OF assms] by simp
  moreover have "json_parse (json_enc (JObj [(ascii ''id'', JStr (ascii (randomID draw 12)))])) = Some (JObj [(ascii ''id'', JStr (ascii (randomID draw 12)))])"
    by (rule json_parse_enc) (simp_all add: maxNestingDepth_def)
  ultimately show ?thesis by (simp only: id_of_reply_def option.case json.case) (simp add: field_is_def)
qed


lemma unmarshal_marshal_map: "unmarshal_map (marshal_map data) = Some data"
proof -
  let ?ms = "map (\<lambda>(k, v). (k, JStr v)) data"
  have "foldr max (map (\<lambda>(k, v). jdepth v) ?ms) 0 = 0" by (induction data) auto
  moreover have "json_wf (JObj ?ms)" by (auto simp: list_all_iff)
  ultimately have "json_parse (marshal_map data) = Some (JObj ?ms)"
    unfolding marshal_map_def by (intro json_parse_enc) (simp_all add: maxNestingDepth_def)
  moreover have "string_members ?ms = Some data" by (induction data) auto
  ultimately show ?thesis by (simp add: unmarshal_map_def)
qed

lemma register_data_entries:
  "map_of (rev (register_data name room code meth tport proto natInfo)) (ascii ''name'') = Some name"
  "map_of (rev (register_data name room code meth tport proto natInfo)) (ascii ''code'') = Some code"
  "map_of (rev (register_data name room code meth tport proto natInfo)) (ascii ''room'') = Some room"
  by (simp_all add: register_data_def ascii_def)

lemma listing_of_register:
  "l_Name (listing_of (register_data name room code meth tport proto natInfo)) = trimSpace (text_of name)"
  "l_Code (listing_of (register_data name room code meth tport proto natInfo)) = trimSpace (text_of code)"
  "l_Room (listing_of (register_data name room code meth tport proto natInfo)) = trimSpace (text_of room)"
  "l_ID (listing_of (register_data name room code meth tport proto natInfo)) = []"
  by (simp_all add: listing_of_def trimmed_entry_def register_data_entries)

lemma heartbeat_parts:
  assumes "slash \<notin> set i"
  shows "path_parts (''/discovery/'' @ i @ ''/heartbeat'') = [''discovery'', i, ''heartbeat'']"
proof -
  have path: "''/discovery/'' @ i @ ''/heartbeat'' = slash # ''discovery'' @ slash # i @ slash # ''heartbeat''" by (simp add: slash_def)
  have "trim_with ((=) slash) (''discovery'' @ slash # i @ slash # ''heartbeat'') = ''discovery'' @ slash # i @ slash # ''heartbeat''"
    by (rule trim_with_id) (simp add: slash_def)
  then have "path_parts (''/discovery/'' @ i @ ''/heartbeat'') = split_on slash (''discovery'' @ slash # i @ slash # ''heartbeat'')"
    unfolding path path_parts_def by (simp add: trim_with_front)
  moreover have "slash \<notin> set ''discovery''" "slash \<notin> set ''heartbeat''" by (simp_all add: slash_def)
  ultimately show ?thesis using assms
    by (simp add: split_on_append split_on_none del: append.simps split_on.simps)
qed

text \<open>A heartbeat through the server is the registry's heartbeat.\<close>

lemma heartbeat_server:
  assumes "slash \<notin> set i" "\<not> isSupabaseURL base"
  shows "HeartbeatServer su (server_transport base draw now) base i a =
     (if dh_listings (api_discovery a) i = None then Inl ListingExpired else Inr (),
      a\<lparr>api_discovery := snd (heartbeat i now (api_discovery a))\<rparr>)"
proof -
  let ?p = "''/discovery/'' @ i @ ''/heartbeat''"
  have "?p \<noteq> ''/discovery/register''" "?p \<noteq> ''/discovery/servers''" "?p \<noteq> ''/discovery/stream''"
    by (auto dest!: arg_cong [where f = last])
  then have "routes True [] draw now \<lparr>rq_method = ''POST'', rq_path = ?p, rq_room = [], rq_body = [], rq_err = False\<rparr> a =
      handleDiscoveryItem now \<lparr>rq_method = ''POST'', rq_path = ?p, rq_room = [], rq_body = [], rq_err = False\<rparr> a"
    by (simp add: routes_def)
  also have "\<dots> = Some (if fst (heartbeat i now (api_discovery a)) then Reply 200 NoBody else Reply 404 NoBody,
       a\<lparr>api_discovery := snd (heartbeat i now (api_discovery a))\<rparr>)"
    using heartbeat_parts [OF assms(1)] by (simp add: handleDiscoveryItem_def case_prod_beta)
  finally show ?thesis
    using assms(2) by (simp add: HeartbeatServer_def server_transport_def heartbeat_def split: option.split)
qed


lemma register_server:
  assumes "api_inv a os" "\<forall>i. draw i < 62" "trimSpace (text_of name) \<noteq> []" "trimSpace (text_of code) \<noteq> []"
    "length (marshal_map (register_data name room code meth tport proto natInfo)) \<le> 65536" "\<not> isSupabaseURL base"
  shows "\<exists>a'. RegisterServer su (server_transport base draw now) base name room code meth tport proto natInfo a =
       (Inr (ascii (randomID draw 12)), a') \<and> api_inv a' os \<and>
     dh_listings (api_discovery a') = (dh_listings (api_discovery a))(randomID draw 12 \<mapsto>
       (listing_of (register_data name room code meth tport proto natInfo))\<lparr>l_ID := randomID draw 12, l_UpdatedAt := now\<rparr>)"
proof -
  let ?data = "register_data name room code meth tport proto natInfo"
  let ?rq = "\<lparr>rq_method = ''POST'', rq_path = ''/discovery/register'', rq_room = [], rq_body = marshal_map ?data, rq_err = False\<rparr>"
  let ?d = "snd (register_listing draw now (listing_of ?data) (api_discovery a))"
  from assms(1) have inv: "disc_inv (api_discovery a)" by (simp add: api_inv_def)
  obtain d' where d': "notifyAll ?d = Some d'" "disc_inv d'" "dh_listings d' = dh_listings ?d"
    using notifyAll_ok [OF register_ok(1) [OF inv]] by blast
  have "marshal_map ?data \<noteq> []" by (simp add: marshal_map_def)
  then have "readBodyLimit (64 * 1024) ?rq = Inr (marshal_map ?data)" using assms(5) by (simp add: readBodyLimit_def)
  moreover have "fst (register_listing draw now (listing_of ?data) (api_discovery a)) = randomID draw 12"
    by (simp add: register_listing_def listing_of_register Let_def)
  ultimately have "routes True [] draw now ?rq a =
      Some (Reply 201 (Raw ([123, 34] @ ascii ''id'' @ [34, 58, 34] @ ascii (randomID draw 12) @ [34, 125])), a\<lparr>api_discovery := d'\<rparr>)"
    using assms(3,4) d'(1)
    by (simp add: routes_def handleDiscoveryRegister_def unmarshal_marshal_map listing_of_register case_prod_beta Let_def)
  moreover have "dh_listings d' = (dh_listings (api_discovery a))(randomID draw 12 \<mapsto> (listing_of ?data)\<lparr>l_ID := randomID draw 12, l_UpdatedAt := now\<rparr>)"
    using d'(3) by (simp add: register_listing_def listing_of_register Let_def)
  ultimately show ?thesis
    using assms(1,6) d'(2) id_of_register_reply [of draw] assms(2)
    by (simp add: RegisterServer_def server_transport_def api_inv_def Let_def)
qed

section \<open>Properties\<close>


definition supabase0 :: "'s supabase" where
  "supabase0 = \<lparr>su_upsert = (\<lambda>_ _ _ _ st. (Inr (), st)), su_wait = (\<lambda>_ _ _ st. (Inr None, st)), su_register = (\<lambda>_ _ _ _ _ _ _ _ st. (Inr [], st)),
     su_delete = (\<lambda>_ _ st. (Inr (), st)), su_heartbeat = (\<lambda>_ _ st. (Inr (), st)), su_list = (\<lambda>_ _ st. (Inr [], st))\<rparr>"


end
