(* ===== verification/Dns_Cache.thy ===== *)
theory Dns_Cache
  imports Go_Prelude
begin

text \<open>
  The DNS side of the tunnel (\<^verbatim>\<open>golib/tunnel/tun.go\<close>): the parser that reads the time to live
  of a response, the least-recently-used cache of responses, and the resolution of a query
  through the tunnel with its fallbacks.

  A Go panic (an index or a slice out of range) is the value \<open>None\<close> of a definition, so a
  theorem that the result is \<open>Some\<close> shows that the code does not panic on any input. Times are
  arguments: each call of \<^verbatim>\<open>time.Now\<close> under the lock of the cache is one instant.
\<close>

section \<open>Constants\<close>

definition second :: duration where "second = 1000000000"
definition dnsCacheMaxTTL :: duration where "dnsCacheMaxTTL = 300 * second"
definition dnsCacheNXDomainTTL :: duration where "dnsCacheNXDomainTTL = 30 * second"
definition dnsCacheMaxEntries :: nat where "dnsCacheMaxEntries = 512"
definition dnsPort :: nat where "dnsPort = 53"
definition udpBufSize :: nat where "udpBufSize = 4096"

lemmas dns_consts = second_def dnsCacheMaxTTL_def dnsCacheNXDomainTTL_def

section \<open>The parser\<close>

text \<open>The slice expression \<^verbatim>\<open>data[a : a+n]\<close>.\<close>

definition slice_at :: "bytes \<Rightarrow> nat \<Rightarrow> nat \<Rightarrow> bytes option" where
  "slice_at data a n = (if a + n \<le> length data then Some (take n (drop a data)) else None)"

text \<open>\<^verbatim>\<open>skipDNSName\<close>; the result -1 for malformed data is \<open>None\<close>.\<close>

function skipDNSName :: "bytes \<Rightarrow> nat \<Rightarrow> nat option" where
  "skipDNSName data offset =
     (if length data \<le> offset then None
      else let labelLen = data ! offset in
        if labelLen = 0 then Some (offset + 1)
        else if labelLen AND 0xC0 = 0xC0 then
          (if length data \<le> offset + 1 then None else Some (offset + 2))
        else if labelLen AND 0xC0 \<noteq> 0 then None
        else skipDNSName data (offset + (1 + unat labelLen)))"
  by pat_completeness auto
termination by (relation "measure (\<lambda>(data, offset). length data - offset)") auto

declare skipDNSName.simps [simp del]

text \<open>The question loop of \<^verbatim>\<open>parseDNSTTL\<close>; \<open>None\<close> is its early return.\<close>

fun skip_questions :: "nat \<Rightarrow> bytes \<Rightarrow> nat \<Rightarrow> nat option" where
  "skip_questions 0 resp offset = Some offset"
| "skip_questions (Suc i) resp offset =
     (case skipDNSName resp offset of
        None \<Rightarrow> None
      | Some offset' \<Rightarrow>
          if length resp < offset' + 4 then None else skip_questions i resp (offset' + 4))"

text \<open>The loop over the answer and authority records, with the smallest time to live so far.\<close>

fun walk_records :: "nat \<Rightarrow> bytes \<Rightarrow> nat \<Rightarrow> duration \<times> bool \<Rightarrow> (duration \<times> bool) option" where
  "walk_records 0 resp offset acc = Some acc"
| "walk_records (Suc i) resp offset (minTTL, found) =
     (case skipDNSName resp offset of
        None \<Rightarrow> Some (minTTL, found)
      | Some offset' \<Rightarrow>
          if length resp < offset' + 10 then Some (minTTL, found)
          else case slice_at resp (offset' + 4) 4 of
            None \<Rightarrow> None
          | Some ttlSec \<Rightarrow> (case slice_at resp (offset' + 8) 2 of
              None \<Rightarrow> None
            | Some rdLen \<Rightarrow>
                let offset'' = offset' + (10 + unat (be16 rdLen)) in
                if length resp < offset'' then Some (minTTL, found)
                else let ttl = int (unat (be32 ttlSec)) * second in
                  walk_records i resp offset''
                    (if ttl < minTTL then (ttl, True)
                     else if \<not> found then (minTTL, True) else (minTTL, found))))"

definition parseDNSTTL :: "bytes \<Rightarrow> duration option" where
  "parseDNSTTL resp =
     (if length resp < 12 then Some dnsCacheMaxTTL
      else case (slice_at resp 4 2, slice_at resp 6 2, slice_at resp 8 2) of
        (Some qd, Some an, Some ns) \<Rightarrow>
          (case skip_questions (unat (be16 qd)) resp 12 of
             None \<Rightarrow> Some dnsCacheMaxTTL
           | Some offset \<Rightarrow>
               (case walk_records (unat (be16 an) + unat (be16 ns)) resp offset (dnsCacheMaxTTL, False) of
                  None \<Rightarrow> None
                | Some (minTTL, found) \<Rightarrow>
                    if \<not> found \<or> minTTL \<le> 0 then Some dnsCacheMaxTTL
                    else if minTTL > dnsCacheMaxTTL then Some dnsCacheMaxTTL
                    else Some minTTL))
      | _ \<Rightarrow> None)"

definition isDNSNXDomain :: "bytes \<Rightarrow> bool" where
  "isDNSNXDomain resp \<longleftrightarrow> \<not> length resp < 4 \<and> resp ! 3 AND 0x0F = 3"

section \<open>The cache\<close>

record dns_entry =
  de_response :: bytes
  de_expiry :: instant
  de_ttl :: duration

text \<open>
  An entry and its list element point to each other and the key of an entry never changes, so
  the recency list is the list of the keys, the most recently used first. \<open>dc_prefetching\<close>
  holds the keys a background refresh is running for.
\<close>

record dns_cache =
  dc_entries :: "bytes \<rightharpoonup> dns_entry"
  dc_lru :: "bytes list"
  dc_prefetching :: "bytes set"

definition newDNSCache :: dns_cache where
  "newDNSCache = \<lparr>dc_entries = Map.empty, dc_lru = [], dc_prefetching = {}\<rparr>"

definition move_to_front :: "bytes \<Rightarrow> dns_cache \<Rightarrow> dns_cache" where
  "move_to_front k c = c\<lparr>dc_lru := k # removeAll k (dc_lru c)\<rparr>"

text \<open>
  \<^verbatim>\<open>get\<close>: the response and whether to refresh it. Its test in floating point compares the
  remaining time with a tenth of the time to live. Every stored time to live is a number of
  whole seconds of at most 300, and for those the product with the float 0.10 rounds to
  exactly a tenth, so the comparison is the one on integers.
\<close>

definition dns_get :: "bytes \<Rightarrow> instant \<Rightarrow> dns_cache \<Rightarrow> ((bytes \<times> bool) option \<times> dns_cache) option" where
  "dns_get query now c =
     (if length query < 12 then Some (None, c)
      else let key = drop 2 query in
        case dc_entries c key of
          None \<Rightarrow> Some (None, c)
        | Some entry \<Rightarrow>
            if now > de_expiry entry then
              Some (None, c\<lparr>dc_lru := removeAll key (dc_lru c), dc_entries := (dc_entries c)(key := None)\<rparr>)
            else let c' = move_to_front key c in
              if length (de_response entry) < 2 then None
              else let resp = (de_response entry)[0 := query ! 0, 1 := query ! 1];
                       remaining = de_expiry entry - now in
                Some (Some (resp, de_ttl entry > 0 \<and> 10 * remaining < de_ttl entry), c'))"

text \<open>The eviction loop of \<^verbatim>\<open>put\<close>.\<close>

function evict :: "dns_cache \<Rightarrow> dns_cache" where
  "evict c =
     (if length (dc_lru c) < dnsCacheMaxEntries \<or> dc_lru c = [] then c
      else evict (c\<lparr>dc_lru := butlast (dc_lru c),
                     dc_entries := (dc_entries c)(last (dc_lru c) := None)\<rparr>))"
  by pat_completeness auto
termination by (relation "measure (\<lambda>c. length (dc_lru c))") auto

declare evict.simps [simp del]

definition response_ttl :: "bytes \<Rightarrow> duration option" where
  "response_ttl response =
     (case parseDNSTTL response of
        None \<Rightarrow> None
      | Some ttl \<Rightarrow>
          if isDNSNXDomain response \<and> ttl > dnsCacheNXDomainTTL then Some dnsCacheNXDomainTTL else Some ttl)"

definition dns_put :: "bytes \<Rightarrow> bytes \<Rightarrow> instant \<Rightarrow> dns_cache \<Rightarrow> dns_cache option" where
  "dns_put query response now c =
     (if length query < 12 \<or> length response < 12 then Some c
      else let key = drop 2 query in
        case response_ttl response of
          None \<Rightarrow> None
        | Some ttl \<Rightarrow>
            let entry = \<lparr>de_response = response, de_expiry = now + ttl, de_ttl = ttl\<rparr> in
            case dc_entries c key of
              Some existing \<Rightarrow> Some (move_to_front key (c\<lparr>dc_entries := (dc_entries c)(key \<mapsto> entry)\<rparr>))
            | None \<Rightarrow>
                let c' = evict c in
                Some (c'\<lparr>dc_lru := key # dc_lru c', dc_entries := (dc_entries c')(key \<mapsto> entry)\<rparr>))"

section \<open>Lemmas on the parser\<close>

text \<open>Names: the loop ends, moves forward and stays inside the data.\<close>

lemma skipDNSName_bounds:
  "skipDNSName data offset = Some r \<Longrightarrow> offset < r \<and> r \<le> length data"
proof (induction data offset rule: skipDNSName.induct)
  case (1 data offset)
  show ?case
    using 1 by (subst (asm) (2) skipDNSName.simps) (force simp: Let_def split: if_splits)
qed

lemma skip_questions_bounds:
  "skip_questions n data offset = Some r \<Longrightarrow> offset \<le> length data \<Longrightarrow> offset \<le> r \<and> r \<le> length data"
  by (induction n arbitrary: offset) (force split: option.splits if_splits dest: skipDNSName_bounds)+

lemma slice_at_some: "a + n \<le> length data \<Longrightarrow> slice_at data a n = Some (take n (drop a data))"
  by (simp add: slice_at_def)

lemma walk_records_safe:
  "\<lbrakk>0 \<le> fst acc; fst acc \<le> dnsCacheMaxTTL; second dvd fst acc\<rbrakk> \<Longrightarrow>
     \<exists>m f. walk_records n resp offset acc = Some (m, f) \<and> 0 \<le> m \<and> m \<le> dnsCacheMaxTTL \<and> second dvd m"
proof (induction n resp offset acc rule: walk_records.induct)
  case (1 resp offset acc)
  then show ?case by (cases acc) simp
next
  case (2 i resp offset minTTL found)
  show ?case
  proof (cases "skipDNSName resp offset")
    case None
    then show ?thesis using 2 by simp
  next
    case (Some o')
    show ?thesis
    proof (cases "length resp < o' + 10")
      case True
      then show ?thesis using 2 Some by simp
    next
      case False
      have s: "slice_at resp (o' + 4) 4 = Some (take 4 (drop (o' + 4) resp))"
        "slice_at resp (o' + 8) 2 = Some (take 2 (drop (o' + 8) resp))"
        using False by (simp_all add: slice_at_def)
      show ?thesis
        using 2 Some False s by (auto simp: Let_def second_def)
    qed
  qed
qed

lemma parseDNSTTL_total:
  "\<exists>t. parseDNSTTL resp = Some t \<and> 0 < t \<and> t \<le> dnsCacheMaxTTL \<and> second dvd t"
proof (cases "length resp < 12")
  case True
  then show ?thesis by (simp add: parseDNSTTL_def dns_consts)
next
  case False
  have "\<And>n offset. \<exists>m f. walk_records n resp offset (dnsCacheMaxTTL, False) = Some (m, f) \<and>
      0 \<le> m \<and> m \<le> dnsCacheMaxTTL \<and> second dvd m"
    by (rule walk_records_safe) (simp_all add: dns_consts)
  then obtain m f where "\<And>n offset. walk_records n resp offset (dnsCacheMaxTTL, False) = Some (m n offset, f n offset)"
    "\<And>n offset. 0 \<le> m n offset \<and> m n offset \<le> dnsCacheMaxTTL \<and> second dvd m n offset"
    by metis
  then show ?thesis
    using False by (auto simp: parseDNSTTL_def slice_at_def dns_consts not_le split: option.splits)
qed

lemma response_ttl_total:
  "\<exists>t. response_ttl resp = Some t \<and> 0 < t \<and> t \<le> dnsCacheMaxTTL \<and> second dvd t"
  using parseDNSTTL_total [of resp] by (auto simp: response_ttl_def dns_consts)

section \<open>Responses on the wire\<close>

text \<open>
  The format of RFC 1035 as a reference: a name is a sequence of labels that ends with the
  root or with a pointer, a question adds four bytes and a record adds its type and class,
  its time to live and its data.
\<close>

record wire_name =
  wn_labels :: "bytes list"
  wn_pointer :: "(byte \<times> byte) option"

definition enc_name :: "wire_name \<Rightarrow> bytes" where
  "enc_name n = concat (map (\<lambda>l. of_nat (length l) # l) (wn_labels n)) @
     (case wn_pointer n of None \<Rightarrow> [0] | Some (hi, lo) \<Rightarrow> [0xC0 OR hi, lo])"

definition name_ok :: "wire_name \<Rightarrow> bool" where
  "name_ok n \<longleftrightarrow> list_all (\<lambda>l. 0 < length l \<and> length l < 64) (wn_labels n)"

record wire_record =
  wr_name :: wire_name
  wr_type_class :: u32
  wr_ttl :: u32
  wr_data :: bytes

definition enc_record :: "wire_record \<Rightarrow> bytes" where
  "enc_record r = enc_name (wr_name r) @ put_u32 (wr_type_class r) @ put_u32 (wr_ttl r) @
     put_u16 (u16_len (length (wr_data r))) @ wr_data r"

definition record_ok :: "wire_record \<Rightarrow> bool" where
  "record_ok r \<longleftrightarrow> name_ok (wr_name r) \<and> length (wr_data r) < 65536"

record wire_response =
  wm_id :: u16
  wm_flags :: u16
  wm_questions :: "(wire_name \<times> u32) list"
  wm_answers :: "wire_record list"
  wm_authority :: "wire_record list"
  wm_arcount :: u16
  wm_rest :: bytes

definition enc_response :: "wire_response \<Rightarrow> bytes" where
  "enc_response m =
     put_u16 (wm_id m) @ put_u16 (wm_flags m) @ put_u16 (u16_len (length (wm_questions m))) @
     put_u16 (u16_len (length (wm_answers m))) @ put_u16 (u16_len (length (wm_authority m))) @
     put_u16 (wm_arcount m) @
     concat (map (\<lambda>(n, tc). enc_name n @ put_u32 tc) (wm_questions m)) @
     concat (map enc_record (wm_answers m @ wm_authority m)) @ wm_rest m"

definition response_ok :: "wire_response \<Rightarrow> bool" where
  "response_ok m \<longleftrightarrow> length (wm_questions m) < 65536 \<and> length (wm_answers m) < 65536 \<and>
     length (wm_authority m) < 65536 \<and> list_all (name_ok \<circ> fst) (wm_questions m) \<and>
     list_all record_ok (wm_answers m @ wm_authority m)"

text \<open>The times to live of the answer and authority records, in seconds.\<close>

definition response_ttls :: "wire_response \<Rightarrow> int list" where
  "response_ttls m = map (\<lambda>r. int (unat (wr_ttl r))) (wm_answers m @ wm_authority m)"

lemma label_byte: "\<forall>n\<in>set [0..<64]. (of_nat n :: byte) AND 0xC0 = 0"
  by code_simp

lemma label_byte_plain:
  assumes "0 < n" "n < 64"
  shows "(of_nat n :: byte) AND 0xC0 = 0" "(of_nat n :: byte) \<noteq> 0" "unat (of_nat n :: byte) = n"
proof -
  show u: "unat (of_nat n :: byte) = n" using assms by (simp add: unat_of_nat)
  show "(of_nat n :: byte) AND 0xC0 = 0" using label_byte assms by simp
  show "(of_nat n :: byte) \<noteq> 0" using u assms by auto
qed

lemma pointer_byte: "((0xC0 :: byte) OR b) AND 0xC0 = 0xC0" "(0xC0 :: byte) OR b \<noteq> 0"
proof -
  show e: "((0xC0 :: byte) OR b) AND 0xC0 = 0xC0"
    by (simp add: bit.conj_disj_distrib2 and.commute bit_eq_iff bit_simps)
  show "(0xC0 :: byte) OR b \<noteq> 0"
  proof
    assume "(0xC0 :: byte) OR b = 0"
    then show False using e by simp
  qed
qed

lemma skip_label:
  assumes "0 < length l" "length l < 64"
  shows "skipDNSName (pre @ (of_nat (length l) # l) @ rest) (length pre) =
         skipDNSName (pre @ (of_nat (length l) # l) @ rest) (length pre + (1 + length l))"
  using label_byte_plain [OF assms] by (subst skipDNSName.simps) (simp add: Let_def nth_append)

lemma skip_end:
  "skipDNSName (pre @ (case p of None \<Rightarrow> [0] | Some (hi, lo) \<Rightarrow> [0xC0 OR hi, lo]) @ rest) (length pre) =
     Some (length pre + length (case p of None \<Rightarrow> [0] | Some (hi, lo) \<Rightarrow> [0xC0 OR hi, lo]))"
  using pointer_byte by (subst skipDNSName.simps) (auto simp: Let_def nth_append split: option.splits)

lemma skip_labels:
  "list_all (\<lambda>l. 0 < length l \<and> length l < 64) ls \<Longrightarrow>
   skipDNSName (pre @ concat (map (\<lambda>l. of_nat (length l) # l) ls) @
       (case p of None \<Rightarrow> [0] | Some (hi, lo) \<Rightarrow> [0xC0 OR hi, lo]) @ rest) (length pre) =
     Some (length pre + length (concat (map (\<lambda>l. (of_nat (length l) :: byte) # l) ls) @
       (case p of None \<Rightarrow> [0] | Some (hi, lo) \<Rightarrow> [0xC0 OR hi, lo])))"
proof (induction ls arbitrary: pre)
  case Nil
  then show ?case using skip_end by simp
next
  case (Cons l ls)
  then show ?case
    using skip_label [of l pre] Cons.IH [of "pre @ (of_nat (length l) # l)"] by (simp add: add.assoc)
qed

lemma skip_enc_name:
  "name_ok n \<Longrightarrow>
     skipDNSName (pre @ enc_name n @ rest) (length pre) = Some (length pre + length (enc_name n))"
  using skip_labels [of "wn_labels n" pre "wn_pointer n" rest] by (simp add: enc_name_def name_ok_def)

lemma skip_enc_questions:
  "list_all (name_ok \<circ> fst) qs \<Longrightarrow>
     skip_questions (length qs) (pre @ concat (map (\<lambda>(n, tc). enc_name n @ put_u32 tc) qs) @ rest) (length pre) =
       Some (length pre + length (concat (map (\<lambda>(n, tc). enc_name n @ put_u32 tc) qs)))"
proof (induction qs arbitrary: pre)
  case (Cons q qs)
  obtain n tc where q: "q = (n, tc)" by (cases q)
  let ?qs = "concat (map (\<lambda>(n, tc). enc_name n @ put_u32 tc) qs)"
  have "skipDNSName (pre @ enc_name n @ (put_u32 tc @ ?qs @ rest)) (length pre) = Some (length pre + length (enc_name n))"
    using Cons.prems q by (intro skip_enc_name) simp
  then show ?case using Cons.IH [of "pre @ enc_name n @ put_u32 tc"] Cons.prems q
    by (simp add: add.assoc)
qed simp

lemma walk_enc_records:
  "list_all record_ok rs \<Longrightarrow>
     walk_records (length rs) (pre @ concat (map enc_record rs) @ rest) (length pre) (m, f) =
       Some (fold min (map (\<lambda>r. int (unat (wr_ttl r)) * second) rs) m, f \<or> rs \<noteq> [])"
proof (induction rs arbitrary: pre m f)
  case (Cons r rs)
  let ?more = "concat (map enc_record rs) @ rest"
  let ?n = "enc_name (wr_name r)"
  have ok: "name_ok (wr_name r)" "length (wr_data r) < 65536" using Cons.prems by (simp_all add: record_ok_def)
  let ?d = "pre @ ?n @ (put_u32 (wr_type_class r) @ put_u32 (wr_ttl r) @ put_u16 (u16_len (length (wr_data r))) @ wr_data r @ ?more)"
  let ?o = "length pre + length ?n"
  have sk: "skipDNSName ?d (length pre) = Some ?o" using ok by (intro skip_enc_name)
  have s1: "slice_at ?d (?o + 4) 4 = Some (put_u32 (wr_ttl r))"
    by (simp add: slice_at_def)
  have s2: "slice_at ?d (?o + 8) 2 = Some (put_u16 (u16_len (length (wr_data r))))"
    by (simp add: slice_at_def)
  have d': "?d = (pre @ enc_record r) @ concat (map enc_record rs) @ rest"
    and off: "?o + (10 + length (wr_data r)) = length (pre @ enc_record r)"
    by (simp_all add: enc_record_def)
  have "walk_records (length (r # rs)) ?d (length pre) (m, f) =
    walk_records (length rs) ?d (?o + (10 + length (wr_data r))) (min (int (unat (wr_ttl r)) * second) m, True)"
    using sk s1 s2 ok by (simp add: Let_def min_def)
  also have "\<dots> = Some (fold min (map (\<lambda>r. int (unat (wr_ttl r)) * second) rs) (min (int (unat (wr_ttl r)) * second) m), True)"
    unfolding off d' using Cons.IH [of "pre @ enc_record r" "min (int (unat (wr_ttl r)) * second) m" True] Cons.prems
    by simp
  finally show ?case using d' by simp
qed simp

lemma fold_min_le: "fold min xs (m :: 'a :: linorder) \<le> m"
  unfolding Min.set_eq_fold [symmetric] by simp

lemma fold_min_zero:
  assumes "\<forall>x\<in>set xs. 0 \<le> x" "(0 :: int) < m"
  shows "0 \<le> fold min xs m \<and> (fold min xs m = 0 \<longleftrightarrow> 0 \<in> set xs)"
  unfolding Min.set_eq_fold [symmetric] using assms Min_in [of "set (m # xs)"]
  by (auto intro: antisym [OF Min_le] simp: Min_eq_iff)

lemma fold_min_scale: "fold min (map (\<lambda>x. x * second) xs) (m * second) = fold min xs (m :: int) * second"
proof (induction xs arbitrary: m)
  case (Cons x xs)
  have "min (x * second) (m * second) = min x m * second" by (simp add: min_def second_def)
  then show ?case using Cons.IH [of "min x m"] by simp
qed simp

lemma parse_header:
  "slice_at (enc_response m) 4 2 = Some (put_u16 (u16_len (length (wm_questions m))))"
  "slice_at (enc_response m) 6 2 = Some (put_u16 (u16_len (length (wm_answers m))))"
  "slice_at (enc_response m) 8 2 = Some (put_u16 (u16_len (length (wm_authority m))))"
  "12 \<le> length (enc_response m)"
  by (simp_all add: slice_at_def enc_response_def)

text \<open>
  On every well-formed response \<^verbatim>\<open>parseDNSTTL\<close> gives the smallest time to live of the answer and
  authority records, limited to 300 seconds. With no such record, and also when a record asks
  not to be cached at all (a time to live of 0), it gives 300 seconds.
\<close>

lemma parseDNSTTL_functional:
  assumes "response_ok m"
  shows "parseDNSTTL (enc_response m) =
    Some ((if 0 \<in> set (response_ttls m) then 300 else fold min (response_ttls m) 300) * second)"
proof -
  let ?rs = "wm_answers m @ wm_authority m"
  let ?h = "put_u16 (wm_id m) @ put_u16 (wm_flags m) @ put_u16 (u16_len (length (wm_questions m))) @
     put_u16 (u16_len (length (wm_answers m))) @ put_u16 (u16_len (length (wm_authority m))) @ put_u16 (wm_arcount m)"
  let ?q = "concat (map (\<lambda>(n, tc). enc_name n @ put_u32 tc) (wm_questions m))"
  have ok: "list_all (name_ok \<circ> fst) (wm_questions m)" "list_all record_ok ?rs"
    "length (wm_questions m) < 65536" "length (wm_answers m) < 65536" "length (wm_authority m) < 65536"
    using assms by (simp_all add: response_ok_def)
  have e: "enc_response m = ?h @ ?q @ concat (map enc_record ?rs) @ wm_rest m" by (simp add: enc_response_def)
  have q: "skip_questions (length (wm_questions m)) (enc_response m) 12 = Some (length (?h @ ?q))"
    using skip_enc_questions [OF ok(1), of ?h "concat (map enc_record ?rs) @ wm_rest m"] unfolding e by simp
  have t: "map (\<lambda>r. int (unat (wr_ttl r)) * second) ?rs = map (\<lambda>x. x * second) (response_ttls m)"
    "(?rs \<noteq> []) = (response_ttls m \<noteq> [])"
    by (simp_all add: response_ttls_def)
  have w: "walk_records (length ?rs) (enc_response m) (length (?h @ ?q)) (dnsCacheMaxTTL, False) =
      Some (fold min (response_ttls m) 300 * second, response_ttls m \<noteq> [])"
    unfolding e append_assoc [of ?h ?q, symmetric] walk_enc_records [OF ok(2)] t dnsCacheMaxTTL_def fold_min_scale
    by simp
  have nn: "\<forall>x\<in>set (response_ttls m). 0 \<le> x" by (auto simp: response_ttls_def)
  show ?thesis
    using q w ok parse_header [of m] fold_min_zero [OF nn, of 300] fold_min_le [of "response_ttls m" 300]
    by (auto simp: parseDNSTTL_def dns_consts not_less)
qed

definition demo_response :: "u32 \<Rightarrow> wire_response" where
  "demo_response ttl =
     \<lparr>wm_id = 7, wm_flags = 0x8180,
      wm_questions = [(\<lparr>wn_labels = [[97, 98], [99]], wn_pointer = None\<rparr>, 0x10001)],
      wm_answers = [\<lparr>wr_name = \<lparr>wn_labels = [], wn_pointer = Some (0, 12)\<rparr>, wr_type_class = 0x10001, wr_ttl = ttl, wr_data = [1, 2, 3, 4]\<rparr>],
      wm_authority = [], wm_arcount = 0, wm_rest = []\<rparr>"

section \<open>The cache as a recency list\<close>

definition dns_inv :: "dns_cache \<Rightarrow> bool" where
  "dns_inv c \<longleftrightarrow> distinct (dc_lru c) \<and> dom (dc_entries c) = set (dc_lru c) \<and>
     length (dc_lru c) \<le> dnsCacheMaxEntries \<and>
     (\<forall>k e. dc_entries c k = Some e \<longrightarrow>
        12 \<le> length (de_response e) \<and> 0 < de_ttl e \<and> de_ttl e \<le> dnsCacheMaxTTL \<and> second dvd de_ttl e)"

text \<open>
  The reference: a list of keys with entries, the most recently used first, in which a new or
  refreshed entry goes to the front and at most 512 are kept.
\<close>

type_synonym recency = "(bytes \<times> dns_entry) list"

definition without :: "bytes \<Rightarrow> recency \<Rightarrow> recency" where
  "without k xs = filter (\<lambda>x. fst x \<noteq> k) xs"

definition spec_put :: "bytes \<Rightarrow> bytes \<Rightarrow> instant \<Rightarrow> recency \<Rightarrow> recency" where
  "spec_put query response now xs =
     (if length query < 12 \<or> length response < 12 then xs
      else let ttl = the (response_ttl response); k = drop 2 query in
        take dnsCacheMaxEntries ((k, \<lparr>de_response = response, de_expiry = now + ttl, de_ttl = ttl\<rparr>) # without k xs))"

definition spec_get :: "bytes \<Rightarrow> instant \<Rightarrow> recency \<Rightarrow> (bytes \<times> bool) option \<times> recency" where
  "spec_get query now xs =
     (if length query < 12 then (None, xs)
      else let k = drop 2 query in
        case map_of xs k of
          None \<Rightarrow> (None, xs)
        | Some e \<Rightarrow>
            if now > de_expiry e then (None, without k xs)
            else (Some (take 2 query @ drop 2 (de_response e), 10 * (de_expiry e - now) < de_ttl e), (k, e) # without k xs))"

definition recency_of :: "dns_cache \<Rightarrow> recency" where
  "recency_of c = map (\<lambda>k. (k, the (dc_entries c k))) (dc_lru c)"

lemma recency_new [simp]: "dns_inv newDNSCache" "recency_of newDNSCache = []"
  by (simp_all add: dns_inv_def newDNSCache_def recency_of_def)

lemma recency_lookup:
  assumes "dns_inv c"
  shows "map_of (recency_of c) k = dc_entries c k"
proof -
  have "map_of (recency_of c) k = (if k \<in> set (dc_lru c) then Some (the (dc_entries c k)) else None)"
    unfolding recency_of_def by (simp add: map_of_map_restrict restrict_map_def)
  moreover have "k \<in> set (dc_lru c) \<longleftrightarrow> (\<exists>e. dc_entries c k = Some e)"
    using assms by (auto simp: dns_inv_def simp flip: domIff)
  ultimately show ?thesis by auto
qed

lemma without_map: "without k (map (\<lambda>k. (k, f k)) ks) = map (\<lambda>k. (k, f k)) (removeAll k ks)"
  by (induction ks) (simp_all add: without_def)

lemma recency_update: "k \<notin> set ks \<Longrightarrow> map (\<lambda>x. (x, the ((m(k := v)) x))) ks = map (\<lambda>x. (x, the (m x))) ks"
  by auto

lemma without_recency: "without k (recency_of c) = map (\<lambda>k. (k, the (dc_entries c k))) (removeAll k (dc_lru c))"
  by (simp add: recency_of_def without_map)

lemma evict_spec:
  assumes "dns_inv c"
  shows "dns_inv (evict c) \<and> recency_of (evict c) = take (dnsCacheMaxEntries - 1) (recency_of c) \<and>
    dc_prefetching (evict c) = dc_prefetching c"
proof (cases "length (dc_lru c) < dnsCacheMaxEntries")
  case True
  then have "evict c = c" by (subst evict.simps) simp
  then show ?thesis using assms True by (simp add: recency_of_def)
next
  case False
  let ?c = "c\<lparr>dc_lru := butlast (dc_lru c), dc_entries := (dc_entries c)(last (dc_lru c) := None)\<rparr>"
  have l: "length (dc_lru c) = dnsCacheMaxEntries" "dc_lru c \<noteq> []" "distinct (dc_lru c)"
    using False assms by (auto simp: dns_inv_def dnsCacheMaxEntries_def)
  have "evict c = evict ?c" using False l by (subst evict.simps) simp
  also have "\<dots> = ?c" using l by (subst evict.simps) (simp add: dnsCacheMaxEntries_def)
  finally have e: "evict c = ?c" .
  have b: "dc_lru c = butlast (dc_lru c) @ [last (dc_lru c)]" using l by simp
  have nl: "last (dc_lru c) \<notin> set (butlast (dc_lru c))" using l b by (metis distinct_append distinct.simps(2) disjoint_iff list.set_intros(1))
  have s: "set (dc_lru c) - {last (dc_lru c)} = set (butlast (dc_lru c))" using b nl by (metis Diff_insert_absorb Un_insert_right append_Nil2 list.simps(15) set_append list.set(1) sup_bot_right)
  have "recency_of ?c = map (\<lambda>k. (k, the (dc_entries c k))) (butlast (dc_lru c))"
    using nl by (auto simp: recency_of_def)
  also have "\<dots> = take (dnsCacheMaxEntries - 1) (recency_of c)"
    using l by (simp add: recency_of_def butlast_conv_take take_map)
  finally have r: "recency_of ?c = take (dnsCacheMaxEntries - 1) (recency_of c)" .
  have "dns_inv ?c" using assms l s by (auto simp: dns_inv_def distinct_butlast split: if_splits)
  then show ?thesis using e r by simp
qed

text \<open>One call of \<^verbatim>\<open>put\<close> or \<^verbatim>\<open>get\<close>.\<close>

datatype dns_op = DPut bytes bytes instant | DGet bytes instant

fun dns_exec :: "dns_op \<Rightarrow> dns_cache \<Rightarrow> dns_cache option" where
  "dns_exec (DPut query response now) c = dns_put query response now c"
| "dns_exec (DGet query now) c = map_option snd (dns_get query now c)"

fun dns_run :: "dns_op list \<Rightarrow> dns_cache \<Rightarrow> dns_cache option" where
  "dns_run [] c = Some c"
| "dns_run (u # us) c = Option.bind (dns_exec u c) (dns_run us)"

fun spec_exec :: "dns_op \<Rightarrow> recency \<Rightarrow> recency" where
  "spec_exec (DPut query response now) xs = spec_put query response now xs"
| "spec_exec (DGet query now) xs = snd (spec_get query now xs)"

lemma dns_put_refines:
  assumes "dns_inv c"
  shows "\<exists>c'. dns_put query response now c = Some c' \<and> dns_inv c' \<and>
    recency_of c' = spec_put query response now (recency_of c) \<and> dc_prefetching c' = dc_prefetching c"
proof (cases "length query < 12 \<or> length response < 12")
  case True
  then show ?thesis using assms by (auto simp: dns_put_def spec_put_def)
next
  case False
  let ?k = "drop 2 query"
  obtain ttl where ttl: "response_ttl response = Some ttl" "0 < ttl" "ttl \<le> dnsCacheMaxTTL" "second dvd ttl"
    using response_ttl_total by blast
  let ?e = "\<lparr>de_response = response, de_expiry = now + ttl, de_ttl = ttl\<rparr>"
  show ?thesis
  proof (cases "dc_entries c ?k")
    case None
    let ?c = "evict c"
    have ev: "dns_inv ?c" "recency_of ?c = take (dnsCacheMaxEntries - 1) (recency_of c)" "dc_prefetching ?c = dc_prefetching c"
      using evict_spec [OF assms] by blast+
    have nk: "?k \<notin> set (dc_lru c)" using None assms by (auto simp: dns_inv_def simp flip: domIff)
    moreover have ks: "dc_lru ?c = take (dnsCacheMaxEntries - 1) (dc_lru c)"
      using arg_cong [OF ev(2), of "map fst"] by (simp add: recency_of_def comp_def take_map)
    ultimately have nk': "?k \<notin> set (dc_lru ?c)" using in_set_takeD by fastforce
    let ?c' = "?c\<lparr>dc_lru := ?k # dc_lru ?c, dc_entries := (dc_entries ?c)(?k \<mapsto> ?e)\<rparr>"
    have "recency_of ?c' = (?k, ?e) # recency_of ?c" using nk' by (auto simp: recency_of_def)
    moreover have "without ?k (recency_of c) = recency_of c"
      unfolding without_recency using nk by (simp add: recency_of_def)
    moreover have "length (dc_lru ?c) < dnsCacheMaxEntries" using ks by (simp add: dnsCacheMaxEntries_def)
    then have "dns_inv ?c'" using ev(1) nk' ttl False by (auto simp: dns_inv_def)
    ultimately show ?thesis
      using None False ttl ev by (simp add: dns_put_def spec_put_def Let_def dnsCacheMaxEntries_def)
  next
    case (Some e)
    let ?c' = "move_to_front ?k (c\<lparr>dc_entries := (dc_entries c)(?k \<mapsto> ?e)\<rparr>)"
    have kin: "?k \<in> set (dc_lru c)" using Some assms by (auto simp: dns_inv_def)
    have "length (removeAll ?k (dc_lru c)) < length (dc_lru c)"
      using kin by (metis length_removeAll_less)
    then have l: "length (removeAll ?k (dc_lru c)) < dnsCacheMaxEntries" using assms by (simp add: dns_inv_def)
    have r: "recency_of ?c' = (?k, ?e) # without ?k (recency_of c)"
      unfolding without_recency by (auto simp: recency_of_def move_to_front_def)
    have "dns_inv ?c'"
      using assms kin l ttl False by (auto simp: dns_inv_def move_to_front_def distinct_removeAll)
    moreover have "length (without ?k (recency_of c)) < dnsCacheMaxEntries" using l by (simp add: without_recency)
    ultimately show ?thesis
      using Some False ttl r by (simp add: dns_put_def spec_put_def Let_def move_to_front_def)
  qed
qed

lemma update_front: "2 \<le> length r \<Longrightarrow> 2 \<le> length q \<Longrightarrow> r[0 := q ! 0, Suc 0 := q ! Suc 0] = take 2 q @ drop 2 r"
  by (cases r; cases q; cases "tl r"; cases "tl q") auto

lemma dns_get_refines:
  assumes "dns_inv c"
  shows "\<exists>c'. dns_get query now c = Some (fst (spec_get query now (recency_of c)), c') \<and> dns_inv c' \<and>
    recency_of c' = snd (spec_get query now (recency_of c)) \<and> dc_prefetching c' = dc_prefetching c"
proof (cases "length query < 12 \<or> dc_entries c (drop 2 query) = None")
  case True
  then show ?thesis using assms recency_lookup [OF assms] by (auto simp: dns_get_def spec_get_def)
next
  case False
  let ?k = "drop 2 query"
  obtain e where e: "dc_entries c ?k = Some e" using False by blast
  have kin: "?k \<in> set (dc_lru c)" using e assms by (auto simp: dns_inv_def)
  have l: "length (removeAll ?k (dc_lru c)) < length (dc_lru c)" using kin by (metis length_removeAll_less)
  have i: "12 \<le> length (de_response e)" "0 < de_ttl e" using e assms by (auto simp: dns_inv_def)
  let ?x = "c\<lparr>dc_lru := removeAll ?k (dc_lru c), dc_entries := (dc_entries c)(?k := None)\<rparr>"
  have x: "dns_inv ?x" "recency_of ?x = without ?k (recency_of c)"
    unfolding without_recency using assms l by (auto simp: dns_inv_def recency_of_def distinct_removeAll)
  have h: "dns_inv (move_to_front ?k c)" "recency_of (move_to_front ?k c) = (?k, e) # without ?k (recency_of c)"
    unfolding without_recency using assms l kin e
    by (auto simp: dns_inv_def recency_of_def distinct_removeAll move_to_front_def)
  show ?thesis
    using False e i x h recency_lookup [OF assms, of ?k] update_front [of "de_response e" query]
    by (auto simp: dns_get_def spec_get_def Let_def) (simp_all add: move_to_front_def)
qed

lemma dns_exec_refines:
  assumes "dns_inv c"
  shows "\<exists>c'. dns_exec u c = Some c' \<and> dns_inv c' \<and> recency_of c' = spec_exec u (recency_of c)"
proof (cases u)
  case (DPut query response now)
  then show ?thesis using dns_put_refines [OF assms] by fastforce
next
  case (DGet query now)
  then show ?thesis using dns_get_refines [OF assms, of query now] by fastforce
qed

lemma dns_run_refines:
  "dns_inv c \<Longrightarrow> \<exists>c'. dns_run us c = Some c' \<and> dns_inv c' \<and> recency_of c' = fold spec_exec us (recency_of c)"
proof (induction us arbitrary: c)
  case (Cons u us)
  then show ?case using dns_exec_refines [OF Cons.prems, of u] by fastforce
qed simp

text \<open>
  C34: The cache is a recency list. Every sequence of \<^verbatim>\<open>get\<close> and \<^verbatim>\<open>put\<close> calls with any queries, responses
  and times runs without a panic, the map and the linked list stay consistent, never more
  than 512 entries are held with lifetimes between 1 and 300 whole seconds, and the state is
  the one of the reference list in which each call moves its key to the front.
\<close>

theorem dns_cache_refines:
  "\<exists>c. dns_run us newDNSCache = Some c \<and> dns_inv c \<and> recency_of c = fold spec_exec us []"
  using dns_run_refines [of newDNSCache us] by simp

section \<open>What a cached response is good for\<close>

fun op_key :: "dns_op \<Rightarrow> bytes" where
  "op_key (DPut query response now) = drop 2 query"
| "op_key (DGet query now) = drop 2 query"

fun op_time :: "dns_op \<Rightarrow> instant" where
  "op_time (DPut query response now) = now"
| "op_time (DGet query now) = now"

fun is_put :: "dns_op \<Rightarrow> bool" where
  "is_put (DPut query response now) = True"
| "is_put (DGet query now) = False"

text \<open>An entry is in the list behind keys of a set only.\<close>

definition behind :: "bytes set \<Rightarrow> bytes \<Rightarrow> dns_entry \<Rightarrow> recency \<Rightarrow> bool" where
  "behind K k e xs \<longleftrightarrow>
     (\<exists>ys zs. xs = ys @ (k, e) # zs \<and> distinct (map fst (ys @ (k, e) # zs)) \<and> fst ` set ys \<subseteq> K - {k})"

lemma behind_lookup: "behind K k e xs \<Longrightarrow> map_of xs k = Some e"
  by (fastforce simp: behind_def map_add_def split: option.splits dest: map_of_SomeD)

lemma behind_mono: "behind K k e xs \<Longrightarrow> K \<subseteq> L \<Longrightarrow> behind L k e xs"
  unfolding behind_def by blast

lemma without_distinct: "distinct (map fst xs) \<Longrightarrow> distinct (map fst (without k xs))"
  by (induction xs) (auto simp: without_def)

lemma without_append [simp]:
  "without k (xs @ ys) = without k xs @ without k ys"
  "without k (x # xs) = (if fst x = k then without k xs else x # without k xs)"
  by (simp_all add: without_def)

lemma set_without: "set (without k xs) = {x \<in> set xs. fst x \<noteq> k}"
  by (simp add: without_def)

lemma behind_without: "behind K k e xs \<Longrightarrow> k' \<noteq> k \<Longrightarrow> behind K k e (without k' xs)"
proof -
  assume a: "behind K k e xs" "k' \<noteq> k"
  then obtain ys zs where x: "xs = ys @ (k, e) # zs" "distinct (map fst xs)" "fst ` set ys \<subseteq> K - {k}"
    unfolding behind_def by blast
  have "without k' xs = without k' ys @ (k, e) # without k' zs" using x a by simp
  moreover have "fst ` set (without k' ys) \<subseteq> K - {k}" using x(3) by (auto simp: set_without)
  ultimately show ?thesis unfolding behind_def using without_distinct [OF x(2), of k'] by metis
qed

lemma behind_cons:
  assumes "behind K k e xs" "k' \<noteq> k" "k' \<notin> fst ` set xs"
  shows "behind (insert k' K) k e ((k', v) # xs)"
proof -
  obtain ys zs where x: "xs = ys @ (k, e) # zs" "distinct (map fst xs)" "fst ` set ys \<subseteq> K - {k}"
    using assms(1) unfolding behind_def by blast
  have "(k', v) # xs = ((k', v) # ys) @ (k, e) # zs" using x by simp
  moreover have "distinct (map fst ((k', v) # xs))" using x(2) assms(3) by simp
  moreover have "fst ` set ((k', v) # ys) \<subseteq> insert k' K - {k}" using x(3) assms(2) by auto
  ultimately show ?thesis unfolding behind_def by metis
qed

lemma behind_take:
  assumes "behind K k e xs" "finite K" "card (K - {k}) < n"
  shows "behind K k e (take n xs)"
proof -
  obtain ys zs where x: "xs = ys @ (k, e) # zs" "distinct (map fst xs)" "fst ` set ys \<subseteq> K - {k}"
    using assms(1) unfolding behind_def by blast
  have "length ys = card (fst ` set ys)"
    using x(1,2) by (metis distinct_append distinct_card length_map list.set_map map_append)
  also have "\<dots> \<le> card (K - {k})" using x(3) assms(2) by (intro card_mono) auto
  finally have "length ys < n" using assms(3) by simp
  then have t: "take n xs = ys @ (k, e) # take (n - length ys - 1) zs"
    using x(1) by (simp add: take_Cons')
  have "distinct (map fst (take n xs))" using distinct_take [OF x(2), of n] by (simp add: take_map)
  then show ?thesis unfolding behind_def using t x(3) by metis
qed

lemma behind_put:
  assumes b: "behind K k e xs" and K: "finite K" "card (insert (drop 2 q) K - {k}) < dnsCacheMaxEntries"
    and k: "drop 2 q \<noteq> k"
  shows "behind (insert (drop 2 q) K) k e (spec_put q r now xs)"
proof (cases "length q < 12 \<or> length r < 12")
  case True
  then show ?thesis using behind_mono [OF b, of "insert (drop 2 q) K"] by (auto simp: spec_put_def)
next
  case False
  have "behind (insert (drop 2 q) K) k e (take dnsCacheMaxEntries ((drop 2 q, v) # without (drop 2 q) xs))" for v
  proof (rule behind_take [OF behind_cons])
    show "behind K k e (without (drop 2 q) xs)" using behind_without [OF b k] .
  qed (use K k in \<open>auto simp: set_without\<close>)
  then show ?thesis using False by (simp add: spec_put_def Let_def)
qed

lemma behind_get_other:
  assumes b: "behind K k e xs" and k: "drop 2 q \<noteq> k"
  shows "behind (insert (drop 2 q) K) k e (snd (spec_get q now xs))"
proof -
  have w: "behind (insert (drop 2 q) K) k e (without (drop 2 q) xs)"
    using behind_mono [OF behind_without [OF b k]] by blast
  have "behind (insert (drop 2 q) K) k e ((drop 2 q, v) # without (drop 2 q) xs)" for v
    by (rule behind_cons [OF behind_without [OF b k] k]) (auto simp: set_without)
  then show ?thesis using w behind_mono [OF b, of "insert (drop 2 q) K"]
    by (auto simp: spec_get_def Let_def split: option.splits)
qed

lemma behind_get_same:
  assumes b: "behind K k e xs" and k: "drop 2 q = k" and t: "now \<le> de_expiry e"
  shows "behind (insert (drop 2 q) K) k e (snd (spec_get q now xs))"
proof -
  have "distinct (map fst xs)" using b by (auto simp: behind_def)
  then have "behind (insert k K) k e ((k, e) # without k xs)"
    unfolding behind_def using without_distinct [of xs k]
    by (intro exI [of _ "[]"] exI [of _ "without k xs"]) (auto simp: set_without)
  then show ?thesis using behind_mono [OF b, of "insert k K"] k t behind_lookup [OF b]
    by (auto simp: spec_get_def Let_def)
qed

lemma behind_run:
  "\<lbrakk>behind K k e xs; finite K; card (op_key ` set us \<union> K - {k}) < dnsCacheMaxEntries;
    \<forall>u\<in>set us. op_time u \<le> de_expiry e \<and> (is_put u \<longrightarrow> op_key u \<noteq> k)\<rbrakk> \<Longrightarrow>
   behind (op_key ` set us \<union> K) k e (fold spec_exec us xs)"
proof (induction us arbitrary: K xs)
  case (Cons u us)
  have c: "card (insert (op_key u) K - {k}) < dnsCacheMaxEntries"
    using Cons.prems(2,3) by (elim le_less_trans [rotated], intro card_mono) auto
  have "behind (insert (op_key u) K) k e (spec_exec u xs)"
  proof (cases u)
    case (DPut q r now)
    then show ?thesis using behind_put [OF Cons.prems(1,2)] c Cons.prems(4) by simp
  next
    case (DGet q now)
    then show ?thesis
      using behind_get_other [OF Cons.prems(1)] behind_get_same [OF Cons.prems(1)] Cons.prems(4)
      by (cases "drop 2 q = k") auto
  qed
  then show ?case
    using Cons.IH [of "insert (op_key u) K" "spec_exec u xs"] Cons.prems by (simp add: insert_commute)
qed simp

lemma spec_put_front:
  "12 \<le> length q \<Longrightarrow> 12 \<le> length r \<Longrightarrow> distinct (map fst xs) \<Longrightarrow>
     behind {} (drop 2 q) \<lparr>de_response = r, de_expiry = now + the (response_ttl r), de_ttl = the (response_ttl r)\<rparr>
       (spec_put q r now xs)"
  unfolding spec_put_def behind_def
  by (intro exI [of _ "[]"] exI [of _ "take (dnsCacheMaxEntries - 1) (without (drop 2 q) xs)"])
    (use without_distinct [of xs "drop 2 q"] distinct_take [of "map fst (without (drop 2 q) xs)" "dnsCacheMaxEntries - 1"] in
      \<open>auto simp: Let_def dnsCacheMaxEntries_def take_map set_without dest: in_set_takeD\<close>)

text \<open>Without another \<^verbatim>\<open>put\<close> of its key, the list holds no other entry for it.\<close>

definition only_entry :: "bytes \<Rightarrow> dns_entry \<Rightarrow> recency \<Rightarrow> bool" where
  "only_entry k e xs \<longleftrightarrow> (\<forall>e'. map_of xs k = Some e' \<longrightarrow> e' = e)"

lemma map_of_without: "map_of (without k' xs) k = (if k = k' then None else map_of xs k)"
  by (induction xs) (auto simp: without_def)

lemma map_of_take: "map_of (take n xs) k = Some v \<Longrightarrow> map_of xs k = Some v"
  using map_of_append [of "take n xs" "drop n xs"] by simp

lemma only_entry_exec:
  assumes "only_entry k e xs" "is_put u \<longrightarrow> op_key u \<noteq> k"
  shows "only_entry k e (spec_exec u xs)"
proof (cases u)
  case (DPut q r now)
  then show ?thesis using assms
    by (auto simp: only_entry_def spec_put_def Let_def map_of_without dest!: map_of_take)
next
  case (DGet q now)
  then show ?thesis using assms
    by (auto simp: only_entry_def spec_get_def Let_def map_of_without split: option.splits)
qed

lemma only_entry_run:
  "only_entry k e xs \<Longrightarrow> \<forall>u\<in>set us. is_put u \<longrightarrow> op_key u \<noteq> k \<Longrightarrow> only_entry k e (fold spec_exec us xs)"
  by (induction us arbitrary: xs) (simp_all add: only_entry_exec)

lemma fold_spec_distinct: "distinct (map fst (fold spec_exec us []))"
proof -
  obtain c where "dns_inv c" "recency_of c = fold spec_exec us []"
    using dns_run_refines [of newDNSCache us] by auto
  then show ?thesis by (auto simp: dns_inv_def recency_of_def comp_def dest!: sym [of _ "fold spec_exec us []"])
qed

text \<open>The lookup in the reference list after a \<^verbatim>\<open>put\<close> and calls for other keys.\<close>

lemma spec_hit:
  assumes q: "12 \<le> length q" "12 \<le> length r" and d: "distinct (map fst xs)"
    and us: "\<forall>u\<in>set us. op_time u \<le> now \<and> (is_put u \<longrightarrow> op_key u \<noteq> drop 2 q)"
    and n: "card (op_key ` set us - {drop 2 q}) < dnsCacheMaxEntries"
    and q': "12 \<le> length q'" "drop 2 q' = drop 2 q"
  shows "fst (spec_get q' now (fold spec_exec us (spec_put q r t xs))) =
    (let ttl = the (response_ttl r) in
     if now \<le> t + ttl then Some (take 2 q' @ drop 2 r, 10 * (t + ttl - now) < ttl) else None)"
proof -
  let ?e = "\<lparr>de_response = r, de_expiry = t + the (response_ttl r), de_ttl = the (response_ttl r)\<rparr>"
  let ?xs = "fold spec_exec us (spec_put q r t xs)"
  have f: "behind {} (drop 2 q) ?e (spec_put q r t xs)" using spec_put_front [OF q d] .
  show ?thesis
  proof (cases "now \<le> t + the (response_ttl r)")
    case True
    have "behind (op_key ` set us \<union> {}) (drop 2 q) ?e ?xs"
      by (rule behind_run [OF f]) (use n us True in \<open>auto intro: order_trans\<close>)
    then show ?thesis using q' True behind_lookup by (fastforce simp: spec_get_def Let_def)
  next
    case False
    have "only_entry (drop 2 q) ?e (spec_put q r t xs)" using behind_lookup [OF f] by (simp add: only_entry_def)
    then have "only_entry (drop 2 q) ?e ?xs" using us by (intro only_entry_run) auto
    then show ?thesis using q' False
      by (auto simp: spec_get_def only_entry_def Let_def split: option.splits)
  qed
qed

text \<open>
  A response put into the cache answers every query that differs from its own at most in the
  transaction identifier, which it gets, exactly until the time to live is over. The cache may
  have any history before, and after it fewer than 512 other queries are looked up or stored.
\<close>

lemma dns_cached_until_expiry:
  assumes "12 \<le> length q" "12 \<le> length r"
    and "\<forall>u\<in>set us. op_time u \<le> now \<and> (is_put u \<longrightarrow> op_key u \<noteq> drop 2 q)"
    and "card (op_key ` set us - {drop 2 q}) < 512"
    and "12 \<le> length q'" "drop 2 q' = drop 2 q"
  shows "\<exists>c c' ttl. dns_run (pre @ DPut q r t # us) newDNSCache = Some c \<and> response_ttl r = Some ttl \<and>
    0 < ttl \<and> ttl \<le> 300 * second \<and>
    dns_get q' now c =
      Some (if now \<le> t + ttl then Some (take 2 q' @ drop 2 r, 10 * (t + ttl - now) < ttl) else None, c')"
proof -
  obtain c where c: "dns_run (pre @ DPut q r t # us) newDNSCache = Some c" "dns_inv c"
    "recency_of c = fold spec_exec us (spec_put q r t (fold spec_exec pre []))"
    using dns_run_refines [of newDNSCache "pre @ DPut q r t # us"] by auto
  obtain ttl where ttl: "response_ttl r = Some ttl" "0 < ttl" "ttl \<le> 300 * second"
    using response_ttl_total [of r] by (auto simp: dnsCacheMaxTTL_def)
  have "fst (spec_get q' now (recency_of c)) =
    (if now \<le> t + ttl then Some (take 2 q' @ drop 2 r, 10 * (t + ttl - now) < ttl) else None)"
    unfolding c(3) using spec_hit [OF assms(1,2) fold_spec_distinct [of pre] assms(3) _ assms(5,6)] assms(4) ttl
    by (simp add: dnsCacheMaxEntries_def Let_def)
  then show ?thesis using c ttl dns_get_refines [OF c(2), of q' now] by auto
qed
lemma blank_response_ttl: "response_ttl [0, 0, 0, 0, 0, 0, 0, 0, 0, 0, 0, 0] = Some (300 * second)"
  by code_simp

section \<open>Resolution of a query\<close>

text \<open>
  The error values of the resolution. \<open>DnsRange\<close> is the response length that is out of range.
\<close>

datatype dns_error = DnsDial io_error | DnsIO io_error | DnsRange u16 | DnsProtect

text \<open>
  What the tunnel talks to. \<open>dn_pool\<close> is the channel pool, if there is one, as the answer of
  \<^verbatim>\<open>submitQuery\<close>; \<open>dn_dial\<close> opens a stream to a target (by \<^verbatim>\<open>dialStream\<close> or through SOCKS5)
  that takes a message and gives the bytes that come back. \<open>dn_protect\<close> is the answer of
  \<^verbatim>\<open>protectFn\<close>, if it is set, and \<open>dn_udp\<close> a UDP socket to a target that takes a datagram and
  gives the one that comes back.
\<close>

record dns_net =
  dn_pool :: "(bytes \<Rightarrow> dns_error + bytes) option"
  dn_dial :: "bytes \<Rightarrow> io_error + (bytes \<Rightarrow> io_error + reader)"
  dn_protect :: "bool option"
  dn_udp :: "bytes \<Rightarrow> io_error + (bytes \<Rightarrow> io_error + bytes)"

record tunnel_conf =
  tc_dnsAddr :: bytes
  tc_dns2Addr :: bytes
  tc_allowDirectDNS :: bool

text \<open>\<^verbatim>\<open>dnsViaStream\<close>: DNS over TCP on a stream of its own.\<close>

definition dnsViaStream :: "dns_net \<Rightarrow> bytes \<Rightarrow> bytes \<Rightarrow> dns_error + bytes" where
  "dnsViaStream w dnsAddr query =
     (case dn_dial w (join_host_port dnsAddr (itoa dnsPort)) of
        Inl e \<Rightarrow> Inl (DnsDial e)
      | Inr conn \<Rightarrow>
          (case conn (put_u16 (u16_len (length query)) @ query) of
             Inl e \<Rightarrow> Inl (DnsIO e)
           | Inr rd \<Rightarrow>
               (case read_full 2 rd of
                  (Inl e, _) \<Rightarrow> Inl (DnsIO e)
                | (Inr lenBuf, rd') \<Rightarrow>
                    let respLen = be16 lenBuf in
                    if respLen = 0 \<or> udpBufSize < unat respLen then Inl (DnsRange respLen)
                    else (case read_full (unat respLen) rd' of
                        (Inl e, _) \<Rightarrow> Inl (DnsIO e)
                      | (Inr resp, _) \<Rightarrow> Inr resp))))"

definition dnsViaTunnel :: "dns_net \<Rightarrow> bytes \<Rightarrow> bytes \<Rightarrow> dns_error + bytes" where
  "dnsViaTunnel w dnsAddr query =
     (case dn_pool w of
        Some submitQuery \<Rightarrow>
          (case submitQuery query of
             Inr resp \<Rightarrow> Inr resp
           | Inl _ \<Rightarrow> dnsViaStream w dnsAddr query)
      | None \<Rightarrow> dnsViaStream w dnsAddr query)"

text \<open>
  \<^verbatim>\<open>dnsDirect\<close>: one datagram outside the tunnel. A longer response is cut to the buffer.
\<close>

definition dnsDirect :: "dns_net \<Rightarrow> bytes \<Rightarrow> bytes \<Rightarrow> dns_error + bytes" where
  "dnsDirect w dnsAddr query =
     (if dn_protect w = Some False then Inl DnsProtect
      else case dn_udp w (join_host_port dnsAddr (itoa dnsPort)) of
        Inl e \<Rightarrow> Inl (DnsDial e)
      | Inr conn \<Rightarrow>
          (case conn query of
             Inl e \<Rightarrow> Inl (DnsIO e)
           | Inr resp \<Rightarrow> Inr (take udpBufSize resp)))"

text \<open>
  The cascade of \<^verbatim>\<open>handleUDP\<close>: the result and the way each attempt went, in order.
\<close>

datatype dns_attempt = ViaTunnel bytes | Direct bytes

definition resolve_tunnel :: "dns_net \<Rightarrow> tunnel_conf \<Rightarrow> bytes \<Rightarrow> (dns_error + bytes) \<times> dns_attempt list" where
  "resolve_tunnel w t query =
     (case dnsViaTunnel w (tc_dnsAddr t) query of
        Inr resp \<Rightarrow> (Inr resp, [ViaTunnel (tc_dnsAddr t)])
      | Inl err \<Rightarrow>
          if tc_dns2Addr t \<noteq> [] then
            (dnsViaTunnel w (tc_dns2Addr t) query, [ViaTunnel (tc_dnsAddr t), ViaTunnel (tc_dns2Addr t)])
          else (Inl err, [ViaTunnel (tc_dnsAddr t)]))"

definition resolve :: "dns_net \<Rightarrow> tunnel_conf \<Rightarrow> bytes \<Rightarrow> (dns_error + bytes) \<times> dns_attempt list" where
  "resolve w t query =
     (case resolve_tunnel w t query of
        (Inr resp, tr) \<Rightarrow> (Inr resp, tr)
      | (Inl err, tr) \<Rightarrow>
          if tc_allowDirectDNS t then (dnsDirect w (tc_dnsAddr t) query, tr @ [Direct (tc_dnsAddr t)])
          else (Inl err, tr))"

text \<open>The state of the tunnel: the cache and the byte counters.\<close>

record dns_tunnel =
  dt_cache :: dns_cache
  dt_up :: nat
  dt_down :: nat

text \<open>
  \<^verbatim>\<open>handleUDP\<close> for a query that was read: the packet written back, whether a background refresh
  starts, the attempts and the state. \<open>now\<close> is the time of the lookup and \<open>later\<close> the time
  at which the response is stored. An empty packet is ignored.
\<close>

definition handleUDP :: "dns_net \<Rightarrow> tunnel_conf \<Rightarrow> bytes \<Rightarrow> instant \<Rightarrow> instant \<Rightarrow> dns_tunnel \<Rightarrow>
    (bytes option \<times> bool \<times> dns_attempt list \<times> dns_tunnel) option" where
  "handleUDP w t query now later s =
     (if query = [] then Some (None, False, [], s)
      else let s1 = s\<lparr>dt_up := dt_up s + length query\<rparr> in
        case dns_get query now (dt_cache s1) of
          None \<Rightarrow> None
        | Some (Some (resp, shouldPrefetch), c) \<Rightarrow>
            Some (Some resp, shouldPrefetch, [], s1\<lparr>dt_cache := c, dt_down := dt_down s1 + length resp\<rparr>)
        | Some (None, c) \<Rightarrow>
            (case resolve w t query of
               (Inl err, tr) \<Rightarrow> Some (None, False, tr, s1\<lparr>dt_cache := c\<rparr>)
             | (Inr resp, tr) \<Rightarrow>
                 (case dns_put query resp later c of
                    None \<Rightarrow> None
                  | Some c' \<Rightarrow> Some (Some resp, False, tr, s1\<lparr>dt_cache := c', dt_down := dt_down s1 + length resp\<rparr>))))"

text \<open>
  \<^verbatim>\<open>prefetchDNS\<close> in its two atomic parts: claiming the key, which fails while another refresh of
  it runs, and storing the result and giving the key up.
\<close>

definition prefetch_begin :: "bytes \<Rightarrow> dns_cache \<Rightarrow> dns_cache option" where
  "prefetch_begin query c =
     (if length query < 12 \<or> drop 2 query \<in> dc_prefetching c then None
      else Some (c\<lparr>dc_prefetching := insert (drop 2 query) (dc_prefetching c)\<rparr>))"

definition prefetch_end :: "dns_net \<Rightarrow> tunnel_conf \<Rightarrow> bytes \<Rightarrow> instant \<Rightarrow> dns_cache \<Rightarrow> (dns_attempt list \<times> dns_cache) option" where
  "prefetch_end w t query now c =
     (case resolve_tunnel w t query of
        (Inl err, tr) \<Rightarrow> Some (tr, c\<lparr>dc_prefetching := dc_prefetching c - {drop 2 query}\<rparr>)
      | (Inr resp, tr) \<Rightarrow>
          (case dns_put query resp now c of
             None \<Rightarrow> None
           | Some c' \<Rightarrow> Some (tr, c'\<lparr>dc_prefetching := dc_prefetching c' - {drop 2 query}\<rparr>)))"

section \<open>Lemmas on the resolution\<close>

lemma resolve_tunnel_private: "Direct a \<notin> set (snd (resolve_tunnel w t query))"
  by (simp add: resolve_tunnel_def split: sum.splits)

lemma resolve_direct:
  "Direct a \<in> set (snd (resolve w t query)) \<longleftrightarrow>
     a = tc_dnsAddr t \<and> tc_allowDirectDNS t \<and> isl (fst (resolve_tunnel w t query))"
  using resolve_tunnel_private [of a w t query]
  by (cases "resolve_tunnel w t query") (auto simp: resolve_def split: sum.splits)

lemma resolve_tunnel_fails:
  "isl (fst (resolve_tunnel w t query)) \<longleftrightarrow>
     isl (dnsViaTunnel w (tc_dnsAddr t) query) \<and> (tc_dns2Addr t \<noteq> [] \<longrightarrow> isl (dnsViaTunnel w (tc_dns2Addr t) query))"
  by (auto simp: resolve_tunnel_def isl_def split: sum.splits)

lemma resolve_tries [simp]: "snd (resolve w t query) \<noteq> []"
  by (auto simp: resolve_def resolve_tunnel_def split: sum.splits prod.splits if_splits)

text \<open>A resolver that frames its answer is heard.\<close>

lemma dnsViaStream_answer:
  assumes "dn_dial w (join_host_port a (itoa dnsPort)) = Inr conn"
    and "conn (put_u16 (u16_len (length query)) @ query) =
      Inr \<lparr>rd_data = put_u16 (u16_len (length resp)) @ resp @ tail, rd_err = e\<rparr>"
    and "resp \<noteq> []" "length resp \<le> 4096"
  shows "dnsViaStream w a query = Inr resp"
proof -
  have "unat (u16_len (length resp)) = length resp" using assms(4) by simp
  moreover from this have "u16_len (length resp) \<noteq> 0" using assms(3) by (metis length_0_conv unat_0)
  ultimately show ?thesis using assms by (simp add: dnsViaStream_def Let_def udpBufSize_def)
qed

lemma handleUDP_cases:
  assumes "dns_inv (dt_cache s)"
  shows "\<exists>out pf tr s'. handleUDP w t query now later s = Some (out, pf, tr, s') \<and> dns_inv (dt_cache s') \<and>
    (query \<noteq> [] \<and> fst (spec_get query now (recency_of (dt_cache s))) = None \<and>
       tr = snd (resolve w t query) \<and> out = (case fst (resolve w t query) of Inl _ \<Rightarrow> None | Inr r \<Rightarrow> Some r) \<or>
     (query = [] \<or> fst (spec_get query now (recency_of (dt_cache s))) \<noteq> None) \<and> tr = [] \<and>
       out = (if query = [] then None else map_option fst (fst (spec_get query now (recency_of (dt_cache s))))))"
proof (cases "query = []")
  case True
  then show ?thesis using assms by (auto simp: handleUDP_def)
next
  case False
  obtain c where c: "dns_get query now (dt_cache s) = Some (fst (spec_get query now (recency_of (dt_cache s))), c)" "dns_inv c"
    using dns_get_refines [OF assms] by metis
  show ?thesis
  proof (cases "fst (spec_get query now (recency_of (dt_cache s)))")
    case None
    show ?thesis
    proof (cases "fst (resolve w t query)")
      case (Inl err)
      then show ?thesis using None False c by (cases "resolve w t query") (auto simp: handleUDP_def Let_def)
    next
      case (Inr resp)
      obtain c' where "dns_put query resp later c = Some c'" "dns_inv c'" using dns_put_refines [OF c(2)] by metis
      then show ?thesis using None False c Inr by (cases "resolve w t query") (auto simp: handleUDP_def Let_def)
    qed
  next
    case (Some x)
    then show ?thesis using False c by (cases x) (auto simp: handleUDP_def Let_def)
  qed
qed

text \<open>
  C18: A query leaves the tunnel only as configured. Answering a query never panics, and the direct,
  unprotected resolver is asked exactly when direct DNS is allowed, the cache has no valid
  answer, and the first resolver and the second one, if there is one, failed through the
  tunnel. The background refresh never asks it.
\<close>

theorem dns_no_leak:
  assumes "dns_inv (dt_cache s)"
  shows "\<exists>out pf tr s'. handleUDP w t query now later s = Some (out, pf, tr, s') \<and> dns_inv (dt_cache s') \<and>
    (\<forall>a. Direct a \<in> set tr \<longleftrightarrow>
       a = tc_dnsAddr t \<and> tc_allowDirectDNS t \<and> query \<noteq> [] \<and>
       fst (spec_get query now (recency_of (dt_cache s))) = None \<and>
       isl (dnsViaTunnel w (tc_dnsAddr t) query) \<and>
       (tc_dns2Addr t = [] \<or> isl (dnsViaTunnel w (tc_dns2Addr t) query))) \<and>
    (\<exists>tr' c'. prefetch_end w t query now (dt_cache s) = Some (tr', c') \<and> dns_inv c' \<and> (\<forall>a. Direct a \<notin> set tr'))"
proof -
  have "\<exists>tr' c'. prefetch_end w t query now (dt_cache s) = Some (tr', c') \<and> dns_inv c' \<and> (\<forall>a. Direct a \<notin> set tr')"
  proof (cases "fst (resolve_tunnel w t query)")
    case (Inl err)
    then show ?thesis using assms resolve_tunnel_private [of _ w t query]
      by (cases "resolve_tunnel w t query") (auto simp: prefetch_end_def dns_inv_def)
  next
    case (Inr resp)
    obtain c' where "dns_put query resp now (dt_cache s) = Some c'" "dns_inv c'" using dns_put_refines [OF assms] by metis
    then show ?thesis using Inr resolve_tunnel_private [of _ w t query]
      by (cases "resolve_tunnel w t query") (auto simp: prefetch_end_def dns_inv_def)
  qed
  then show ?thesis
    using handleUDP_cases [OF assms, of w t query now later] resolve_direct [of _ w t query] resolve_tunnel_fails [of w t query]
    by fastforce
qed

definition dead_net :: dns_net where
  "dead_net = \<lparr>dn_pool = None, dn_dial = \<lambda>_. Inl EOF, dn_protect = Some True,
     dn_udp = \<lambda>_. Inr (\<lambda>_. Inr [0, 0, 0, 0, 0, 0, 0, 0, 0, 0, 0, 0])\<rparr>"

definition fresh_tunnel :: dns_tunnel where
  "fresh_tunnel = \<lparr>dt_cache = newDNSCache, dt_up = 0, dt_down = 0\<rparr>"

theorem dns_no_leak_witness:
  "\<exists>out pf tr s'. handleUDP dead_net \<lparr>tc_dnsAddr = ascii ''8.8.8.8'', tc_dns2Addr = [], tc_allowDirectDNS = True\<rparr>
     (replicate 12 1) 0 0 fresh_tunnel = Some (out, pf, tr, s') \<and> Direct (ascii ''8.8.8.8'') \<in> set tr"
  using dns_no_leak [of fresh_tunnel dead_net "\<lparr>tc_dnsAddr = ascii ''8.8.8.8'', tc_dns2Addr = [], tc_allowDirectDNS = True\<rparr>"
      "replicate 12 1" 0 0]
  by (auto simp: fresh_tunnel_def spec_get_def dnsViaTunnel_def dnsViaStream_def dead_net_def)

lemma handleUDP_answered:
  assumes "dns_inv (dt_cache s)" "query \<noteq> []" "fst (spec_get query now (recency_of (dt_cache s))) = None"
    and "fst (resolve w t query) = Inr resp"
  shows "\<exists>tr s'. handleUDP w t query now later s = Some (Some resp, False, tr, s') \<and> dns_inv (dt_cache s') \<and>
    recency_of (dt_cache s') = spec_put query resp later (snd (spec_get query now (recency_of (dt_cache s))))"
proof -
  obtain c where c: "dns_get query now (dt_cache s) = Some (None, c)" "dns_inv c"
    "recency_of c = snd (spec_get query now (recency_of (dt_cache s)))"
    using dns_get_refines [OF assms(1), of query now] assms(3) by metis
  obtain c' where "dns_put query resp later c = Some c'" "dns_inv c'" "recency_of c' = spec_put query resp later (recency_of c)"
    using dns_put_refines [OF c(2)] by metis
  then show ?thesis using c assms by (cases "resolve w t query") (simp add: handleUDP_def Let_def)
qed

lemma recency_distinct: "dns_inv c \<Longrightarrow> distinct (map fst (recency_of c))"
  by (simp add: dns_inv_def recency_of_def comp_def)

lemma spec_get_distinct: "distinct (map fst xs) \<Longrightarrow> distinct (map fst (snd (spec_get query now xs)))"
  using without_distinct [of xs "drop 2 query"]
  by (auto simp: spec_get_def Let_def set_without split: option.splits)

text \<open>
  A name is resolved once. When a query that is not in the cache is answered with a response of
  at least a header, the same query under any transaction identifier is answered from the cache
  until the time to live of the response is over: with the identifier it came with and the rest
  of the response, and without asking any resolver.
\<close>

lemma dns_resolved_once:
  assumes "dns_inv (dt_cache s)" "12 \<le> length query"
    and "fst (spec_get query now (recency_of (dt_cache s))) = None"
    and "fst (resolve w t query) = Inr resp" "12 \<le> length resp"
    and "length query' = length query" "drop 2 query' = drop 2 query"
    and "now' \<le> later + the (response_ttl resp)"
  shows "\<exists>tr s' pf s''. handleUDP w t query now later s = Some (Some resp, False, tr, s') \<and>
    handleUDP w' t' query' now' later' s' = Some (Some (take 2 query' @ drop 2 resp), pf, [], s'')"
proof -
  have q: "query \<noteq> []" "query' \<noteq> []" "12 \<le> length query'" using assms(2,6) by auto
  obtain tr s' where s': "handleUDP w t query now later s = Some (Some resp, False, tr, s')" "dns_inv (dt_cache s')"
    "recency_of (dt_cache s') = spec_put query resp later (snd (spec_get query now (recency_of (dt_cache s))))"
    using handleUDP_answered [OF assms(1) q(1) assms(3,4)] by blast
  have "fst (spec_get query' now' (recency_of (dt_cache s'))) =
      Some (take 2 query' @ drop 2 resp, 10 * (later + the (response_ttl resp) - now') < the (response_ttl resp))"
    unfolding s'(3)
    using spec_hit [OF assms(2,5) spec_get_distinct [OF recency_distinct [OF assms(1)]], of "[]" now' query'] q assms(7,8)
    by (simp add: Let_def dnsCacheMaxEntries_def)
  then show ?thesis using s' q handleUDP_cases [OF s'(2), of w' t' query' now' later'] by fastforce
qed

text \<open>
  C36: Reading a response is safe for every input. Skipping a name always ends, moves forward and stays
  inside the data, and \<^verbatim>\<open>parseDNSTTL\<close> always returns without an index out of range, with a number
  of whole seconds from 1 to 300.
\<close>

theorem dns_parse_terminates_safely:
  "(\<exists>n. parseDNSTTL resp = Some (n * second) \<and> 1 \<le> n \<and> n \<le> 300) \<and>
   (\<forall>offset. case skipDNSName resp offset of None \<Rightarrow> True | Some r \<Rightarrow> offset < r \<and> r \<le> length resp)"
proof -
  obtain t where "parseDNSTTL resp = Some t" "0 < t" "t \<le> dnsCacheMaxTTL" "second dvd t"
    using parseDNSTTL_total by blast
  then have "\<exists>n. parseDNSTTL resp = Some (n * second) \<and> 1 \<le> n \<and> n \<le> 300"
    by (auto simp: dns_consts elim!: dvdE)
  then show ?thesis using skipDNSName_bounds by (auto split: option.splits)
qed

end
