(* ===== verification/Dns_Channel.thy ===== *)
theory Dns_Channel
  imports Dns_Cache "HOL-Library.Multiset"
begin

text \<open>
  DNS over persistent streams: the channel with its read loop and the pool with its batches on
  the client (\<^verbatim>\<open>golib/tunnel/dnschannel.go\<close>), and the relay on the server that reads the
  queries and writes the answers (\<^verbatim>\<open>golib/webrtc/dnsrelay.go\<close>).

  A caller that waits on a response channel is a number; the buffer of its channel holds at
  most one value, where \<open>None\<close> is the \<^verbatim>\<open>nil\<close> that the read loop sends when it ends.
\<close>

section \<open>Frames\<close>

text \<open>A message with its length in two bytes in front, as both sides write it.\<close>

definition dns_frame :: "bytes \<Rightarrow> bytes" where
  "dns_frame msg = put_u16 (u16_len (length msg)) @ msg"

text \<open>One frame from a stream; \<open>None\<close> is the return of the loop.\<close>

definition read_dns_frame :: "reader \<Rightarrow> bytes option \<times> reader" where
  "read_dns_frame rd =
     (case read_full 2 rd of
        (Inl e, rd') \<Rightarrow> (None, rd')
      | (Inr lenBuf, rd') \<Rightarrow>
          let n = be16 lenBuf in
          if n = 0 \<or> 4096 < unat n then (None, rd')
          else (case read_full (unat n) rd' of
              (Inl e, rd'') \<Rightarrow> (None, rd'')
            | (Inr msg, rd'') \<Rightarrow> (Some msg, rd'')))"

lemma read_full_length:
  "read_full n r = (Inr b, r') \<Longrightarrow> length (rd_data r) = n + length (rd_data r')"
  by (metis length_append read_full_InrD(1,2))

lemma read_dns_frame_less:
  "(Some msg, rd') = read_dns_frame rd \<Longrightarrow> length (rd_data rd') < length (rd_data rd)"
  by (auto simp: read_dns_frame_def Let_def split: prod.splits sum.splits if_splits dest!: read_full_length)

section \<open>The channel\<close>

record dns_channel =
  ch_pending :: "u16 \<rightharpoonup> nat"
  ch_box :: "nat \<rightharpoonup> bytes option"
  ch_done :: bool

definition newDNSChannel :: dns_channel where
  "newDNSChannel = \<lparr>ch_pending = Map.empty, ch_box = Map.empty, ch_done = False\<rparr>"

definition dns_txID :: "bytes \<Rightarrow> u16" where
  "dns_txID msg = be16 (take 2 msg)"

text \<open>\<^verbatim>\<open>ch.pending.Store(txID, respCh)\<close>.\<close>

definition ch_register :: "u16 \<Rightarrow> nat \<Rightarrow> dns_channel \<Rightarrow> dns_channel" where
  "ch_register txID w ch = ch\<lparr>ch_pending := (ch_pending ch)(txID \<mapsto> w)\<rparr>"

text \<open>A send to a response channel that does not block: a full buffer drops the value.\<close>

definition ch_offer :: "nat \<Rightarrow> bytes option \<Rightarrow> dns_channel \<Rightarrow> dns_channel" where
  "ch_offer w v ch = (case ch_box ch w of None \<Rightarrow> ch\<lparr>ch_box := (ch_box ch)(w \<mapsto> v)\<rparr> | Some _ \<Rightarrow> ch)"

text \<open>The part of the read loop after a frame was read.\<close>

definition ch_dispatch :: "bytes \<Rightarrow> dns_channel \<Rightarrow> dns_channel" where
  "ch_dispatch resp ch =
     (if length resp < 2 then ch
      else case ch_pending ch (dns_txID resp) of
        None \<Rightarrow> ch
      | Some w \<Rightarrow> ch_offer w (Some resp) (ch\<lparr>ch_pending := (ch_pending ch)(dns_txID resp := None)\<rparr>))"

text \<open>
  The deferred function of the read loop: every caller that is still registered and has
  nothing in its buffer gets \<^verbatim>\<open>nil\<close>.
\<close>

definition ch_shutdown :: "dns_channel \<Rightarrow> dns_channel" where
  "ch_shutdown ch =
     ch\<lparr>ch_done := True, ch_pending := Map.empty,
        ch_box := (\<lambda>w. case ch_box ch w of
            Some v \<Rightarrow> Some v
          | None \<Rightarrow> if w \<in> ran (ch_pending ch) then Some None else None)\<rparr>"

function readLoop :: "reader \<Rightarrow> dns_channel \<Rightarrow> dns_channel" where
  "readLoop rd ch =
     (case read_dns_frame rd of
        (None, rd') \<Rightarrow> ch_shutdown ch
      | (Some resp, rd') \<Rightarrow> readLoop rd' (ch_dispatch resp ch))"
  by pat_completeness auto
termination by (relation "measure (\<lambda>(rd, ch). length (rd_data rd))") (auto intro: read_dns_frame_less)

declare readLoop.simps [simp del]

text \<open>
  \<^verbatim>\<open>query\<close> up to its wait: the caller \<open>w\<close> is registered and the frame is written; \<open>werr\<close> is the
  error of the write, if any, on which the registration is removed again.
\<close>

definition ch_query_send :: "bytes \<Rightarrow> nat \<Rightarrow> io_error option \<Rightarrow> dns_channel \<Rightarrow> (string + bytes) \<times> dns_channel" where
  "ch_query_send dnsQuery w werr ch =
     (if length dnsQuery < 12 then (Inl ''dns query too short'', ch)
      else case werr of
        Some e \<Rightarrow> (Inl ''dns channel write'', ch\<lparr>ch_pending := (ch_pending ch)(dns_txID dnsQuery := None)\<rparr>)
      | None \<Rightarrow> (Inr (dns_frame dnsQuery), ch_register (dns_txID dnsQuery) w ch))"

text \<open>
  How the wait of a caller ends: with the value in its buffer, when the channel is done, or on
  the timer; \<open>None\<close> means that it still waits. The registration is removed in each case, by
  the deferred \<^verbatim>\<open>ch.pending.Delete(txID)\<close>.
\<close>

definition ch_query_wait :: "bytes \<Rightarrow> nat \<Rightarrow> bool \<Rightarrow> dns_channel \<Rightarrow> ((string + bytes) \<times> dns_channel) option" where
  "ch_query_wait dnsQuery w timer ch =
     (let ch' = ch\<lparr>ch_pending := (ch_pending ch)(dns_txID dnsQuery := None)\<rparr> in
      case ch_box ch w of
        Some (Some resp) \<Rightarrow> Some (Inr resp, ch')
      | Some None \<Rightarrow> Some (Inl ''dns channel closed'', ch')
      | None \<Rightarrow>
          if timer then Some (Inl ''dns channel query timeout'', ch')
          else if ch_done ch then Some (Inl ''dns channel closed'', ch')
          else None)"

section \<open>The pool\<close>

definition dnsChannelCount :: nat where "dnsChannelCount = 2"
definition dnsBatchMaxQueries :: nat where "dnsBatchMaxQueries = 16"

text \<open>
  The batching state: the queue of items, each a caller with its query, and whether the timer
  of the batch window is set.
\<close>

record dns_batcher =
  ba_queue :: "(nat \<times> bytes) list"
  ba_timer :: bool

definition newBatcher :: dns_batcher where
  "newBatcher = \<lparr>ba_queue = [], ba_timer = False\<rparr>"

text \<open>\<^verbatim>\<open>submitQuery\<close> up to its wait: the batch that is flushed at once, if any.\<close>

definition submitQuery :: "nat \<times> bytes \<Rightarrow> dns_batcher \<Rightarrow> (nat \<times> bytes) list \<times> dns_batcher" where
  "submitQuery item p =
     (let queue = ba_queue p @ [item] in
      if dnsBatchMaxQueries \<le> length queue then (queue, p\<lparr>ba_queue := [], ba_timer := False\<rparr>)
      else if \<not> ba_timer p then ([], p\<lparr>ba_queue := queue, ba_timer := True\<rparr>)
      else ([], p\<lparr>ba_queue := queue\<rparr>))"

text \<open>The function of the timer.\<close>

definition batch_timer_fires :: "dns_batcher \<Rightarrow> (nat \<times> bytes) list \<times> dns_batcher" where
  "batch_timer_fires p = (ba_queue p, p\<lparr>ba_queue := [], ba_timer := False\<rparr>)"

text \<open>The batching part of \<^verbatim>\<open>close\<close>: the items that fail with the error of the closed pool.\<close>

definition batch_close :: "dns_batcher \<Rightarrow> (nat \<times> bytes) list \<times> dns_batcher" where
  "batch_close p = (ba_queue p, p\<lparr>ba_queue := [], ba_timer := False\<rparr>)"

text \<open>
  \<^verbatim>\<open>pickChannel\<close>. A channel is a number and \<open>dead\<close> says whether it is done; \<open>dials\<close> are the
  results of the dials in order. The round-robin counter has 32 bits.
\<close>

fun open_channels :: "nat list \<Rightarrow> (io_error + nat) list \<Rightarrow> io_error + nat list" where
  "open_channels chs [] = Inr chs"
| "open_channels chs (d # ds) =
     (if dnsChannelCount \<le> length chs then Inr chs
      else case d of
        Inl err \<Rightarrow> if chs \<noteq> [] then Inr chs else Inl err
      | Inr ch \<Rightarrow> open_channels (chs @ [ch]) ds)"

definition pickChannel :: "(nat \<Rightarrow> bool) \<Rightarrow> (io_error + nat) list \<Rightarrow> nat list \<Rightarrow> u32 \<Rightarrow> (string + nat) \<times> nat list \<times> u32" where
  "pickChannel dead dials channels rr =
     (let alive = filter (\<lambda>ch. \<not> dead ch) channels in
      case open_channels alive dials of
        Inl err \<Rightarrow> (Inl ''dial dns channel'', alive, rr)
      | Inr chs \<Rightarrow>
          if chs = [] then (Inl ''no dns channels available'', chs, rr)
          else let rr' = rr + 1; idx = rr' mod of_nat (length chs) in
            (Inr (chs ! unat idx), chs, rr'))"

text \<open>
  \<^verbatim>\<open>flushBatch\<close> on the channel that was picked. A single query takes the direct path. In a batch
  every query of at least two bytes is registered, in order, and all frames are written at
  once; an item with a shorter query gets no waiting goroutine. The bytes written are returned;
  \<open>werr\<close> is the error of the write, which in a batch is only logged.
\<close>

definition register_item :: "nat \<times> bytes \<Rightarrow> dns_channel \<Rightarrow> dns_channel" where
  "register_item item ch =
     (if 2 \<le> length (snd item) then ch_register (dns_txID (snd item)) (fst item) ch else ch)"

definition flushBatch :: "(nat \<times> bytes) list \<Rightarrow> io_error option \<Rightarrow> dns_channel \<Rightarrow> (string + bytes) \<times> dns_channel" where
  "flushBatch batch werr ch =
     (case batch of
        [item] \<Rightarrow> ch_query_send (snd item) (fst item) werr ch
      | _ \<Rightarrow>
        (case werr of
           None \<Rightarrow> Inr (concat (map (dns_frame \<circ> snd) batch))
         | Some _ \<Rightarrow> Inl ''DNS batch write failed'',
         fold register_item batch ch))"

section \<open>The relay on the server\<close>

text \<open>
  The loop of \<^verbatim>\<open>handleDNSStream\<close>: the queries it starts a goroutine for.
\<close>

function handleDNSStream :: "reader \<Rightarrow> bytes list" where
  "handleDNSStream rd =
     (case read_dns_frame rd of
        (None, rd') \<Rightarrow> []
      | (Some query, rd') \<Rightarrow> query # handleDNSStream rd')"
  by pat_completeness auto
termination by (relation "measure (\<lambda>rd. length (rd_data rd))") (auto intro: read_dns_frame_less)

declare handleDNSStream.simps [simp del]

text \<open>
  \<^verbatim>\<open>dnsUDPQuery\<close>, with the exchange of datagrams with a resolver as an argument; a longer
  response is cut to the buffer. \<^verbatim>\<open>resolveDNSUDP\<close> asks a second resolver when the first fails.
\<close>

definition dnsUDPQuery :: "(bytes \<Rightarrow> bytes \<Rightarrow> io_error + bytes) \<Rightarrow> bytes \<Rightarrow> bytes \<Rightarrow> io_error + bytes" where
  "dnsUDPQuery udp addr query = (case udp addr query of Inl e \<Rightarrow> Inl e | Inr resp \<Rightarrow> Inr (take 4096 resp))"

definition resolveDNSUDP :: "(bytes \<Rightarrow> bytes \<Rightarrow> io_error + bytes) \<Rightarrow> bytes \<Rightarrow> io_error + bytes" where
  "resolveDNSUDP udp query =
     (case dnsUDPQuery udp (ascii ''8.8.8.8:53'') query of
        Inr resp \<Rightarrow> Inr resp
      | Inl _ \<Rightarrow> dnsUDPQuery udp (ascii ''1.1.1.1:53'') query)"

text \<open>What the goroutine of a query writes to the stream.\<close>

definition relay_answer :: "(bytes \<Rightarrow> bytes \<Rightarrow> io_error + bytes) \<Rightarrow> bytes \<Rightarrow> bytes" where
  "relay_answer udp query =
     (case resolveDNSUDP udp query of Inl err \<Rightarrow> [] | Inr resp \<Rightarrow> dns_frame resp)"

section \<open>Lemmas on frames\<close>

definition dns_msg_ok :: "bytes \<Rightarrow> bool" where
  "dns_msg_ok msg \<longleftrightarrow> msg \<noteq> [] \<and> length msg \<le> 4096"

lemma u16_len_pos: "0 < n \<Longrightarrow> n < 65536 \<Longrightarrow> u16_len n \<noteq> 0"
  by (metis less_numeral_extra(3) unat_0 unat_u16_len_small)

lemma read_dns_frame_ok:
  assumes "dns_msg_ok msg"
  shows "read_dns_frame \<lparr>rd_data = dns_frame msg @ r, rd_err = e\<rparr> = (Some msg, \<lparr>rd_data = r, rd_err = e\<rparr>)"
  using assms u16_len_pos [of "length msg"]
  by (simp add: dns_msg_ok_def read_dns_frame_def dns_frame_def Let_def)

definition dec_dns :: "bytes \<Rightarrow> (bytes \<times> bytes) option" where
  "dec_dns bs = (case read_dns_frame \<lparr>rd_data = bs, rd_err = EOF\<rparr> of
     (None, _) \<Rightarrow> None | (Some msg, rd) \<Rightarrow> Some (msg, rd_data rd))"

lemma dns_frame_nonempty [simp]: "dns_frame msg \<noteq> []"
  by (simp add: dns_frame_def put_u16_def)

interpretation dnsf: frame_codec dns_frame dec_dns dns_msg_ok
  by unfold_locales (simp_all add: dec_dns_def read_dns_frame_ok)

lemma read_dns_frame_end: "read_dns_frame \<lparr>rd_data = [], rd_err = e\<rparr> = (None, \<lparr>rd_data = [], rd_err = e\<rparr>)"
  by (simp add: read_dns_frame_def read_full_nil)

lemma handleDNSStream_frames:
  "list_all dns_msg_ok ms \<Longrightarrow> handleDNSStream \<lparr>rd_data = concat (map dns_frame ms), rd_err = e\<rparr> = ms"
  by (induction ms) (subst handleDNSStream.simps; simp add: read_dns_frame_end read_dns_frame_ok)+

lemma readLoop_frames:
  "list_all dns_msg_ok ms \<Longrightarrow>
     readLoop \<lparr>rd_data = concat (map dns_frame ms), rd_err = e\<rparr> ch = ch_shutdown (fold ch_dispatch ms ch)"
proof (induction ms arbitrary: ch)
  case Nil
  then show ?case by (subst readLoop.simps) (simp add: read_dns_frame_end)
next
  case (Cons m ms)
  then show ?case by (subst readLoop.simps) (simp add: read_dns_frame_ok)
qed

section \<open>Lemmas on the dispatch\<close>

lemma dispatch_box_stays: "ch_box ch w = Some v \<Longrightarrow> ch_box (ch_dispatch r ch) w = Some v"
  by (auto simp: ch_dispatch_def ch_offer_def split: option.splits)

lemma dispatch_all_box_stays: "ch_box ch w = Some v \<Longrightarrow> ch_box (fold ch_dispatch rs ch) w = Some v"
  by (induction rs arbitrary: ch) (simp_all add: dispatch_box_stays)

text \<open>A caller that waits for an identifier on its own.\<close>

definition waits_for :: "dns_channel \<Rightarrow> u16 \<Rightarrow> nat \<Rightarrow> bool" where
  "waits_for ch t w \<longleftrightarrow> ch_pending ch t = Some w \<and> ch_box ch w = None \<and> (\<forall>t'. ch_pending ch t' = Some w \<longrightarrow> t' = t)"

lemma dispatch_hit:
  "waits_for ch (dns_txID r) w \<Longrightarrow> 2 \<le> length r \<Longrightarrow> ch_box (ch_dispatch r ch) w = Some (Some r)"
  by (simp add: waits_for_def ch_dispatch_def ch_offer_def)

lemma dispatch_miss:
  "waits_for ch t w \<Longrightarrow> dns_txID r \<noteq> t \<Longrightarrow> waits_for (ch_dispatch r ch) t w"
  by (auto simp: waits_for_def ch_dispatch_def ch_offer_def split: option.splits)

lemma dispatch_all:
  "\<lbrakk>waits_for ch t w; distinct (map dns_txID rs); \<forall>r\<in>set rs. 2 \<le> length r\<rbrakk> \<Longrightarrow>
     (\<forall>r\<in>set rs. dns_txID r = t \<longrightarrow> ch_box (fold ch_dispatch rs ch) w = Some (Some r)) \<and>
     (t \<notin> dns_txID ` set rs \<longrightarrow> waits_for (fold ch_dispatch rs ch) t w)"
proof (induction rs arbitrary: ch)
  case (Cons r rs)
  show ?case
  proof (cases "dns_txID r = t")
    case True
    have "ch_box (ch_dispatch r ch) w = Some (Some r)" using Cons.prems True by (simp add: dispatch_hit)
    then have "ch_box (fold ch_dispatch (r # rs) ch) w = Some (Some r)" by (simp add: dispatch_all_box_stays)
    moreover have "x = r" if "x \<in> set (r # rs)" "dns_txID x = t" for x
      using that True Cons.prems(2) by force
    ultimately show ?thesis using True by auto
  next
    case False
    then have "waits_for (ch_dispatch r ch) t w" using Cons.prems by (intro dispatch_miss) simp_all
    then show ?thesis using Cons.IH [of "ch_dispatch r ch"] Cons.prems False by auto
  qed
qed simp

lemma register_items:
  "list_all (\<lambda>i. 2 \<le> length (snd i)) batch \<Longrightarrow>
     ch_pending (fold register_item batch ch) = ch_pending ch ++ map_of (rev (map (\<lambda>i. (dns_txID (snd i), fst i)) batch)) \<and>
     ch_box (fold register_item batch ch) = ch_box ch"
  by (induction batch arbitrary: ch) (auto simp: register_item_def ch_register_def)

lemma register_waits:
  assumes "list_all (\<lambda>i. 2 \<le> length (snd i)) batch" "distinct (map fst batch)" "distinct (map (dns_txID \<circ> snd) batch)"
    and "(w, q) \<in> set batch"
  shows "waits_for (fold register_item batch newDNSChannel) (dns_txID q) w"
proof -
  let ?xs = "rev (map (\<lambda>i. (dns_txID (snd i), fst i)) batch)"
  have "map fst ?xs = rev (map (dns_txID \<circ> snd) batch)" by (induction batch) simp_all
  then have d: "distinct (map fst ?xs)" using assms(3) by (simp only: distinct_rev)
  have r: "ch_pending (fold register_item batch newDNSChannel) = map_of ?xs" "ch_box (fold register_item batch newDNSChannel) = Map.empty"
    using register_items [OF assms(1), of newDNSChannel] by (simp_all add: newDNSChannel_def)
  have i: "(dns_txID q, w) \<in> set ?xs" using assms(4) by force
  have "t' = dns_txID q" if t': "map_of ?xs t' = Some w" for t'
  proof -
    obtain q' where "(w, q') \<in> set batch" "t' = dns_txID q'" using map_of_SomeD [OF t'] by auto
    then show ?thesis using eq_key_imp_eq_value [OF assms(2) _ assms(4)] by blast
  qed
  then show ?thesis unfolding waits_for_def r map_of_eq_Some_iff [OF d] using i by blast
qed

lemma flushBatch_frames:
  assumes "list_all (\<lambda>i. 12 \<le> length (snd i)) batch"
  shows "flushBatch batch None ch = (Inr (concat (map dns_frame (map snd batch))), fold register_item batch ch)"
  using assms by (auto simp: flushBatch_def ch_query_send_def register_item_def split: list.splits)

section \<open>From one end to the other\<close>

text \<open>What resolvers promise: a response carries the identifier of its query.\<close>

definition resolver_ok :: "(bytes \<Rightarrow> bytes \<Rightarrow> io_error + bytes) \<Rightarrow> bool" where
  "resolver_ok udp \<longleftrightarrow>
     (\<forall>a q r. udp a q = Inr r \<longrightarrow> take 2 r = take 2 q \<and> 2 \<le> length r)"

definition answers :: "(bytes \<Rightarrow> bytes \<Rightarrow> io_error + bytes) \<Rightarrow> bytes list \<Rightarrow> bytes list" where
  "answers udp qs = concat (map (\<lambda>q. case resolveDNSUDP udp q of Inl _ \<Rightarrow> [] | Inr r \<Rightarrow> [r]) qs)"

lemma answers_frames: "concat (map (relay_answer udp) qs) = concat (map dns_frame (answers udp qs))"
  by (induction qs) (auto simp: answers_def relay_answer_def split: sum.splits)

lemma resolve_ok:
  "resolver_ok udp \<Longrightarrow> resolveDNSUDP udp q = Inr r \<Longrightarrow> dns_txID r = dns_txID q \<and> 2 \<le> length r \<and> length r \<le> 4096"
  unfolding resolver_ok_def resolveDNSUDP_def dnsUDPQuery_def dns_txID_def by (fastforce simp: min_def split: sum.splits)

lemma set_answers: "r \<in> set (answers udp qs) \<longleftrightarrow> (\<exists>q\<in>set qs. resolveDNSUDP udp q = Inr r)"
  by (induction qs) (auto simp: answers_def split: sum.splits)

lemma answers_distinct:
  assumes "resolver_ok udp"
  shows "distinct (map dns_txID qs) \<Longrightarrow> distinct (map dns_txID (answers udp qs))"
proof (induction qs)
  case (Cons q qs)
  show ?case
  proof (cases "resolveDNSUDP udp q")
    case (Inr r)
    have "dns_txID r \<notin> dns_txID ` set (answers udp qs)"
      using resolve_ok [OF assms] Inr Cons.prems by (force simp: set_answers)
    then show ?thesis using Cons Inr by (simp add: answers_def)
  qed (use Cons in \<open>simp add: answers_def\<close>)
qed (simp add: answers_def)


text \<open>
  Two callers must not use the same transaction identifier at the same time. When a batch has two
  queries with one identifier, only the later caller is registered for it: it is handed the
  first response with this identifier, which may be the one to the query of the other caller,
  and the earlier caller gets nothing.
\<close>

lemma dns_duplicate_ids_mixed:
  assumes "2 \<le> length qa" "2 \<le> length qb" "take 2 qb = take 2 qa" "a \<noteq> b"
    and "dns_msg_ok ra" "2 \<le> length ra" "take 2 ra = take 2 qa"
  shows "\<exists>bs ch. flushBatch [(a, qa), (b, qb)] None newDNSChannel = (Inr bs, ch) \<and>
    ch_query_wait qb b False (ch_dispatch ra ch) \<noteq> None \<and>
    fst (the (ch_query_wait qb b False (ch_dispatch ra ch))) = Inr ra \<and>
    ch_query_wait qa a False (ch_dispatch ra ch) = None"
proof -
  have t: "dns_txID qb = dns_txID qa" "dns_txID ra = dns_txID qa" using assms by (simp_all add: dns_txID_def)
  show ?thesis using assms t
    by (simp add: flushBatch_def register_item_def ch_register_def newDNSChannel_def ch_dispatch_def ch_offer_def
        ch_query_wait_def Let_def)
qed


definition echo_resolver :: "bytes \<Rightarrow> bytes \<Rightarrow> io_error + bytes" where
  "echo_resolver a q = (if length q \<le> 4096 \<and> 2 \<le> length q then Inr (take 2 q @ drop 2 q) else Inl EOF)"

lemma echo_resolver_ok: "resolver_ok echo_resolver"
  by (auto simp: resolver_ok_def echo_resolver_def split: if_splits)

definition demo_query :: "byte \<Rightarrow> bytes" where
  "demo_query b = [b, b, 1, 0, 0, 1, 0, 0, 0, 0, 0, 0, 0]"


section \<open>Batches\<close>

text \<open>The events of the batching state, with the items that leave the queue.\<close>

datatype batch_event = Submit nat bytes | TimerFires | ClosePool

fun batch_step :: "batch_event \<Rightarrow> dns_batcher \<Rightarrow> (nat \<times> bytes) list \<times> dns_batcher" where
  "batch_step (Submit w q) p = submitQuery (w, q) p"
| "batch_step TimerFires p = batch_timer_fires p"
| "batch_step ClosePool p = batch_close p"

fun batch_run :: "batch_event list \<Rightarrow> dns_batcher \<Rightarrow> (nat \<times> bytes) list list \<times> dns_batcher" where
  "batch_run [] p = ([], p)"
| "batch_run (e # es) p =
     (let (b, p') = batch_step e p; (bs, p'') = batch_run es p' in (b # bs, p''))"

fun submitted :: "batch_event list \<Rightarrow> (nat \<times> bytes) list" where
  "submitted [] = []"
| "submitted (Submit w q # es) = (w, q) # submitted es"
| "submitted (_ # es) = submitted es"

definition batch_inv :: "dns_batcher \<Rightarrow> bool" where
  "batch_inv p \<longleftrightarrow> length (ba_queue p) < dnsBatchMaxQueries \<and> (ba_queue p = [] \<or> ba_timer p)"

lemma batch_step_inv: "batch_inv p \<Longrightarrow> batch_inv (snd (batch_step e p)) \<and> length (fst (batch_step e p)) \<le> dnsBatchMaxQueries"
  by (cases e) (auto simp: batch_inv_def submitQuery_def batch_timer_fires_def batch_close_def dnsBatchMaxQueries_def Let_def)

lemma batch_step_keeps:
  "fst (batch_step e p) @ ba_queue (snd (batch_step e p)) = ba_queue p @ submitted [e]"
  by (cases e) (auto simp: submitQuery_def batch_timer_fires_def batch_close_def Let_def)

lemma submitted_Cons: "submitted (e # es) = submitted [e] @ submitted es"
  by (cases e) simp_all

lemma batch_run_all:
  "batch_inv p \<Longrightarrow>
     concat (fst (batch_run es p)) @ ba_queue (snd (batch_run es p)) = ba_queue p @ submitted es \<and>
     list_all (\<lambda>b. length b \<le> dnsBatchMaxQueries) (fst (batch_run es p)) \<and> batch_inv (snd (batch_run es p))"
proof (induction es arbitrary: p)
  case (Cons e es)
  obtain b p' where s: "batch_step e p = (b, p')" by (cases "batch_step e p")
  have "b @ ba_queue p' = ba_queue p @ submitted [e]" using batch_step_keeps [of e p] s by simp
  then show ?case
    using Cons.IH [of p'] batch_step_inv [OF Cons.prems, of e] s submitted_Cons [of e es]
    by (auto simp: split_beta)
qed simp

text \<open>
  No query is lost in a batch. For every order of submissions, expired windows and closing, the
  batches that leave the queue, in order and followed by the queue, are exactly the submitted
  queries; a batch has at most 16 of them, and whenever queries are queued the timer that will
  flush them is set.
\<close>

lemma dns_batches_complete:
  "concat (fst (batch_run es newBatcher)) @ ba_queue (snd (batch_run es newBatcher)) = submitted es \<and>
   list_all (\<lambda>b. length b \<le> 16) (fst (batch_run es newBatcher)) \<and>
   (ba_queue (snd (batch_run es newBatcher)) = [] \<or> ba_timer (snd (batch_run es newBatcher)))"
  using batch_run_all [of newBatcher es]
  by (simp add: newBatcher_def batch_inv_def dnsBatchMaxQueries_def)

lemma open_channels_alive:
  "open_channels chs ds = Inr cs \<Longrightarrow> set chs \<subseteq> set cs \<and> set cs \<subseteq> set chs \<union> {c. Inr c \<in> set ds} \<and> length cs \<le> max 2 (length chs)"
proof (induction chs ds rule: open_channels.induct)
  case (2 chs d ds)
  then show ?case by (cases d) (fastforce simp: dnsChannelCount_def split: if_splits)+
qed simp

text \<open>
  The pool never holds more than two channels, and the channel that is picked is alive or was
  just opened, whatever the value of the counter.
\<close>

lemma pickChannel_alive:
  assumes "pickChannel dead dials channels rr = (Inr c, chs, rr')" "length channels \<le> 2"
  shows "c \<in> set chs \<and> length chs \<le> 2 \<and> (c \<in> set channels \<and> \<not> dead c \<or> Inr c \<in> set dials)"
proof -
  let ?al = "filter (\<lambda>ch. \<not> dead ch) channels"
  have o: "open_channels ?al dials = Inr chs" "chs \<noteq> []" and c: "c = chs ! unat ((rr + 1) mod of_nat (length chs))"
    using assms(1) by (auto simp: pickChannel_def Let_def split: sum.splits if_splits)
  have "length ?al \<le> 2" using assms(2) length_filter_le [of "\<lambda>ch. \<not> dead ch" channels] by linarith
  then have l: "length chs \<le> 2" using open_channels_alive [OF o(1)] by simp
  then have "unat (of_nat (length chs) :: u32) = length chs" by (simp add: unat_of_nat)
  then have "unat ((rr + 1) mod of_nat (length chs)) < length chs"
    using o(2) by (simp add: unat_mod_distrib)
  then have "c \<in> set chs" using c by simp
  then show ?thesis using open_channels_alive [OF o(1)] l by auto
qed

end
