(* ===== verification/Dtls_Record.thy ===== *)
theory Dtls_Record
  imports Go_Prelude
begin

text \<open>
  The record layer of the DTLS library the program builds with (\<^verbatim>\<open>golib/replace/dtls\<close>): the
  big-endian integers of 24 and 48 bits, the headers of records and of handshake messages,
  and the split of a datagram into records.
\<close>

section \<open>Integers of 24 and 48 bits\<close>

definition put_u24 :: "u32 \<Rightarrow> bytes" where
  "put_u24 w = drop 1 (put_u32 w)"

definition be24 :: "bytes \<Rightarrow> u32" where
  "be24 raw = (if length raw < 3 then 0 else be32 (0 # take 3 raw))"

definition put_u48 :: "u64 \<Rightarrow> bytes" where
  "put_u48 w = drop 2 (put_u64 w)"

definition be48 :: "bytes \<Rightarrow> u64" where
  "be48 raw = be64 (0 # 0 # take 6 raw)"

section \<open>Record headers\<close>

datatype dtls_error =
    ErrBufferTooSmall | ErrSequenceNumberOverflow | ErrUnsupportedProtocolVersion
  | ErrInvalidPacketLength | ErrFragmentBufferOverflow | ErrInvalidContentType | ErrInvalidCipherSpec
  | ErrNotEnoughRoomForNonce | ErrDecryptPacket | ErrInvalidMAC | ErrRandom | ErrCipherSuiteNotInit | PanicSeal

record rec_header =
  rh_ContentType :: byte
  rh_ContentLen :: u16
  rh_Major :: byte
  rh_Minor :: byte
  rh_Epoch :: u16
  rh_SequenceNumber :: u64
  rh_ConnectionID :: bytes

definition ContentTypeChangeCipherSpec :: byte where "ContentTypeChangeCipherSpec = 20"
definition ContentTypeAlert :: byte where "ContentTypeAlert = 21"
definition ContentTypeHandshake :: byte where "ContentTypeHandshake = 22"
definition ContentTypeApplicationData :: byte where "ContentTypeApplicationData = 23"
definition ContentTypeConnectionID :: byte where "ContentTypeConnectionID = 25"

lemmas content_types = ContentTypeChangeCipherSpec_def ContentTypeAlert_def ContentTypeHandshake_def
  ContentTypeApplicationData_def ContentTypeConnectionID_def

definition FixedHeaderSize :: nat where "FixedHeaderSize = 13"
definition MaxSequenceNumber :: u64 where "MaxSequenceNumber = 0x0000FFFFFFFFFFFF"

text \<open>The zero value of the struct.\<close>

definition rec_header0 :: rec_header where
  "rec_header0 = \<lparr>rh_ContentType = 0, rh_ContentLen = 0, rh_Major = 0, rh_Minor = 0, rh_Epoch = 0,
     rh_SequenceNumber = 0, rh_ConnectionID = []\<rparr>"

definition version_ok :: "byte \<Rightarrow> byte \<Rightarrow> bool" where
  "version_ok major minor \<longleftrightarrow> (major = 0xfe \<and> minor = 0xff) \<or> (major = 0xfe \<and> minor = 0xfd)"

definition rec_Marshal :: "rec_header \<Rightarrow> dtls_error + bytes" where
  "rec_Marshal h =
     (if MaxSequenceNumber < rh_SequenceNumber h then Inl ErrSequenceNumberOverflow
      else Inr ([rh_ContentType h, rh_Major h, rh_Minor h] @ put_u16 (rh_Epoch h) @ put_u48 (rh_SequenceNumber h) @
        rh_ConnectionID h @ put_u16 (rh_ContentLen h)))"

text \<open>
  \<^verbatim>\<open>Unmarshal\<close> into a header \<open>h\<close>, whose connection identifier gives the length to expect in a
  record with one. The length of the content is not read.
\<close>

definition rec_Unmarshal :: "bytes \<Rightarrow> rec_header \<Rightarrow> dtls_error + rec_header" where
  "rec_Unmarshal data h =
     (if length data < FixedHeaderSize then Inl ErrBufferTooSmall
      else let ct = data ! 0; n = length (rh_ConnectionID h) in
        if ct = ContentTypeConnectionID \<and> length data < FixedHeaderSize + n then Inl ErrBufferTooSmall
        else let h' = h\<lparr>rh_ContentType := ct,
                  rh_ConnectionID := if ct = ContentTypeConnectionID then take n (drop 11 data) else rh_ConnectionID h,
                  rh_Major := data ! 1, rh_Minor := data ! 2, rh_Epoch := be16 (drop 3 data),
                  rh_SequenceNumber := be48 (take 6 (drop 5 data))\<rparr>
          in if \<not> version_ok (rh_Major h') (rh_Minor h') then Inl ErrUnsupportedProtocolVersion else Inr h')"

definition rec_Size :: "rec_header \<Rightarrow> nat" where
  "rec_Size h = FixedHeaderSize + length (rh_ConnectionID h)"

section \<open>Datagrams\<close>

text \<open>The loop of \<^verbatim>\<open>UnpackDatagram\<close> from an offset.\<close>

function unpack_from :: "bytes \<Rightarrow> nat \<Rightarrow> dtls_error + bytes list" where
  "unpack_from buf offset =
     (if length buf = offset then Inr []
      else if length buf - offset \<le> FixedHeaderSize then Inl ErrInvalidPacketLength
      else let pktLen = FixedHeaderSize + unat (be16 (drop (offset + 11) buf)) in
        if length buf < offset + pktLen then Inl ErrInvalidPacketLength
        else case unpack_from buf (offset + pktLen) of
          Inl e \<Rightarrow> Inl e
        | Inr out \<Rightarrow> Inr (take pktLen (drop offset buf) # out))"
  by pat_completeness auto
termination by (relation "measure (\<lambda>(buf, offset). length buf - offset)") (auto simp: FixedHeaderSize_def)

definition UnpackDatagram :: "bytes \<Rightarrow> dtls_error + bytes list" where
  "UnpackDatagram buf = unpack_from buf 0"

text \<open>The loop of \<^verbatim>\<open>ContentAwareUnpackDatagram\<close>.\<close>

function unpack_aware_from :: "nat \<Rightarrow> bytes \<Rightarrow> nat \<Rightarrow> dtls_error + bytes list" where
  "unpack_aware_from cidLength buf offset =
     (if length buf \<le> offset then (if length buf = offset then Inr [] else Inl ErrInvalidPacketLength)
      else let withCid = (buf ! offset = ContentTypeConnectionID);
               headerSize = FixedHeaderSize + (if withCid then cidLength else 0);
               lenIdx = 11 + (if withCid then cidLength else 0) in
        if length buf - offset \<le> headerSize then Inl ErrInvalidPacketLength
        else let pktLen = headerSize + unat (be16 (drop (offset + lenIdx) buf)) in
          if length buf < offset + pktLen then Inl ErrInvalidPacketLength
          else case unpack_aware_from cidLength buf (offset + pktLen) of
            Inl e \<Rightarrow> Inl e
          | Inr out \<Rightarrow> Inr (take pktLen (drop offset buf) # out))"
  by pat_completeness auto
termination by (relation "measure (\<lambda>(n, buf, offset). length buf - offset)") (auto simp: FixedHeaderSize_def Let_def)

definition ContentAwareUnpackDatagram :: "bytes \<Rightarrow> nat \<Rightarrow> dtls_error + bytes list" where
  "ContentAwareUnpackDatagram buf cidLength = unpack_aware_from cidLength buf 0"

declare unpack_from.simps [simp del] unpack_aware_from.simps [simp del]

section \<open>Handshake headers\<close>

definition HeaderLength :: nat where "HeaderLength = 12"

record hs_header =
  hh_Type :: byte
  hh_Length :: u32
  hh_MessageSequence :: u16
  hh_FragmentOffset :: u32
  hh_FragmentLength :: u32

definition hs_Marshal :: "hs_header \<Rightarrow> bytes" where
  "hs_Marshal h = hh_Type h # put_u24 (hh_Length h) @ put_u16 (hh_MessageSequence h) @
     put_u24 (hh_FragmentOffset h) @ put_u24 (hh_FragmentLength h)"

definition hs_Unmarshal :: "bytes \<Rightarrow> dtls_error + hs_header" where
  "hs_Unmarshal data =
     (if length data < HeaderLength then Inl ErrBufferTooSmall
      else Inr \<lparr>hh_Type = data ! 0, hh_Length = be24 (drop 1 data), hh_MessageSequence = be16 (drop 4 data),
        hh_FragmentOffset = be24 (drop 6 data), hh_FragmentLength = be24 (drop 9 data)\<rparr>)"

section \<open>Lemmas on the integers\<close>

lemma length_put_u24 [simp]: "length (put_u24 w) = 3"
  by (simp add: put_u24_def)

lemma length_put_u48 [simp]: "length (put_u48 w) = 6"
  by (simp add: put_u48_def)

lemma be24_put_u24 [codec_simps]:
  assumes "w < 2 ^ 24"
  shows "be24 (put_u24 w @ r) = w"
proof -
  have "drop_bit 24 w = 0" using assms by (simp add: drop_bit_eq_div div_word_less)
  then have p: "put_u32 w = 0 # put_u24 w" by (simp add: put_u32_def put_u24_def)
  show ?thesis using be32_put_u32 [of w "[]"] by (simp add: be24_def p)
qed

lemma be48_put_u48 [codec_simps]:
  assumes "w \<le> MaxSequenceNumber"
  shows "be48 (put_u48 w @ r) = w"
proof -
  have "w < 2 ^ 48" using assms by (simp add: MaxSequenceNumber_def word_le_nat_alt word_less_nat_alt)
  then have "drop_bit 48 w = 0" by (simp add: drop_bit_eq_div div_word_less)
  moreover have "drop_bit 56 w = drop_bit 8 (drop_bit 48 w)" by (simp add: drop_bit_drop_bit)
  ultimately have p: "put_u64 w = 0 # 0 # put_u48 w" by (simp add: put_u64_def put_u48_def)
  show ?thesis using be64_put_u64 [of w "[]"] by (simp add: be48_def p)
qed

lemmas be24_put_u24_nil [codec_simps] = be24_put_u24 [where r = "[]", simplified]
lemmas be48_put_u48_nil [codec_simps] = be48_put_u48 [where r = "[]", simplified]

lemma be24_less: "be24 raw < 2 ^ 24"
proof (cases "length raw < 3")
  case False
  then obtain a b c where "take 3 raw = [a, b, c]"
    by (cases raw; cases "tl raw"; cases "tl (tl raw)") (auto simp: numeral_3_eq_3)
  then have e: "be24 raw = push_bit 16 (ucast a) OR push_bit 8 (ucast b) OR ucast c"
    using False by (simp add: be24_def)
  have "take_bit 24 (be24 raw) = be24 raw"
    unfolding e by (rule bit_word_eqI) (auto simp: bit_simps dest: bit_imp_le_length)
  then have "unat (be24 raw) = take_bit 24 (unat (be24 raw))" by (metis unsigned_take_bit_eq)
  also have "\<dots> < 2 ^ 24" by (rule take_bit_nat_less_exp)
  finally show ?thesis by (simp add: word_less_nat_alt)
qed (simp add: be24_def)

section \<open>Headers survive the wire\<close>

lemma hs_Unmarshal_Marshal:
  assumes "hh_Length h < 2 ^ 24" "hh_FragmentOffset h < 2 ^ 24" "hh_FragmentLength h < 2 ^ 24"
  shows "hs_Unmarshal (hs_Marshal h @ r) = Inr h" and "length (hs_Marshal h) = HeaderLength"
  using assms by (simp_all add: hs_Unmarshal_def hs_Marshal_def HeaderLength_def codec_simps)

lemma hs_Unmarshal_bounds:
  "hs_Unmarshal data = Inr h \<Longrightarrow>
     hh_Length h < 2 ^ 24 \<and> hh_FragmentOffset h < 2 ^ 24 \<and> hh_FragmentLength h < 2 ^ 24 \<and> HeaderLength \<le> length data"
  using be24_less by (auto simp: hs_Unmarshal_def split: if_splits)

text \<open>
  A record header that is written is read back with everything behind it left alone: the type,
  the version, the epoch, the 48-bit sequence number and the connection identifier, whose length
  the reader knows. The field with the length of the content is the only one not read.
\<close>

lemma rec_Unmarshal_Marshal:
  assumes "rh_SequenceNumber h \<le> MaxSequenceNumber" "version_ok (rh_Major h) (rh_Minor h)"
    and "if rh_ContentType h = ContentTypeConnectionID then length (rh_ConnectionID h0) = length (rh_ConnectionID h)
      else rh_ConnectionID h = [] \<and> rh_ConnectionID h0 = []"
  shows "\<exists>bs. rec_Marshal h = Inr bs \<and> length bs = rec_Size h \<and>
    rec_Unmarshal (bs @ content) h0 = Inr (h\<lparr>rh_ContentLen := rh_ContentLen h0\<rparr>)"
  using assms
  by (cases h; cases h0) (auto simp: rec_Marshal_def rec_Unmarshal_def rec_Size_def FixedHeaderSize_def Let_def codec_simps not_less
      nth_append split: if_splits)

text \<open>
  Header codecs. A record header and a handshake header that are written are read back unchanged,
  whatever follows them; the content length of a record header is the one field its reader
  does not set. A sequence number of more than 48 bits is refused.
\<close>

lemma dtls_headers_roundtrip:
  assumes "version_ok (rh_Major h) (rh_Minor h)"
    and "if rh_ContentType h = ContentTypeConnectionID then length (rh_ConnectionID h0) = length (rh_ConnectionID h)
      else rh_ConnectionID h = [] \<and> rh_ConnectionID h0 = []"
    and "hh_Length g < 2 ^ 24" "hh_FragmentOffset g < 2 ^ 24" "hh_FragmentLength g < 2 ^ 24"
  shows "(case rec_Marshal h of
      Inr bs \<Rightarrow> rh_SequenceNumber h < 2 ^ 48 \<and> rec_Unmarshal (bs @ r) h0 = Inr (h\<lparr>rh_ContentLen := rh_ContentLen h0\<rparr>)
    | Inl e \<Rightarrow> 2 ^ 48 \<le> rh_SequenceNumber h) \<and>
    hs_Unmarshal (hs_Marshal g @ r) = Inr g"
proof -
  have m: "rh_SequenceNumber h \<le> MaxSequenceNumber \<longleftrightarrow> rh_SequenceNumber h < 2 ^ 48"
    by (auto simp: MaxSequenceNumber_def word_le_nat_alt word_less_nat_alt)
  show ?thesis
  proof (cases "rh_SequenceNumber h \<le> MaxSequenceNumber")
    case True
    then show ?thesis using rec_Unmarshal_Marshal [OF True assms(1,2), of r] hs_Unmarshal_Marshal(1) [OF assms(3-5)] m by auto
  next
    case False
    then have "rec_Marshal h = Inl ErrSequenceNumberOverflow" by (simp add: rec_Marshal_def not_le)
    then show ?thesis using False hs_Unmarshal_Marshal(1) [OF assms(3-5)] m by (simp add: not_less)
  qed
qed

definition demo_header :: rec_header where
  "demo_header = \<lparr>rh_ContentType = 22, rh_ContentLen = 5, rh_Major = 0xfe, rh_Minor = 0xfd, rh_Epoch = 1,
     rh_SequenceNumber = 0x10203, rh_ConnectionID = []\<rparr>"

definition demo_hs :: hs_header where
  "demo_hs = \<lparr>hh_Type = 1, hh_Length = 70000, hh_MessageSequence = 3, hh_FragmentOffset = 1200, hh_FragmentLength = 1200\<rparr>"

section \<open>Splitting a datagram\<close>

text \<open>The size of the header of a record and whether its length field is right.\<close>

definition rec_hsize :: "nat \<Rightarrow> bytes \<Rightarrow> nat" where
  "rec_hsize n p = FixedHeaderSize + (if p ! 0 = ContentTypeConnectionID then n else 0)"

definition rec_sized :: "nat \<Rightarrow> bytes \<Rightarrow> bool" where
  "rec_sized n p \<longleftrightarrow> rec_hsize n p \<le> length p \<and> length p = rec_hsize n p + unat (be16 (drop (rec_hsize n p - 2) p))"

text \<open>Where the first record of a datagram ends, if it is complete.\<close>

definition rec_cut :: "nat \<Rightarrow> bytes \<Rightarrow> nat option" where
  "rec_cut n p =
     (let k = rec_hsize n p + unat (be16 (drop (rec_hsize n p - 2) p))
      in if length p \<le> rec_hsize n p \<or> length p < k then None else Some k)"

lemma rec_cut_pos: "rec_cut n p = Some k \<Longrightarrow> 0 < k \<and> k \<le> length p"
  by (auto simp: rec_cut_def Let_def rec_hsize_def FixedHeaderSize_def split: if_splits)

lemma unpack_aware_step:
  assumes "off < length buf"
  shows "unpack_aware_from n buf off =
    (case rec_cut n (drop off buf) of
       None \<Rightarrow> Inl ErrInvalidPacketLength
     | Some k \<Rightarrow> (case unpack_aware_from n buf (off + k) of
         Inl e \<Rightarrow> Inl e | Inr out \<Rightarrow> Inr (take k (drop off buf) # out)))"
proof -
  have h: "rec_hsize n (drop off buf) = FixedHeaderSize + (if buf ! off = ContentTypeConnectionID then n else 0)"
    "rec_hsize n (drop off buf) - 2 = 11 + (if buf ! off = ContentTypeConnectionID then n else 0)"
    using assms by (simp_all add: rec_hsize_def FixedHeaderSize_def)
  have l: "length buf < off + k \<longleftrightarrow> length (drop off buf) < k" for k using assms by auto
  show ?thesis
    unfolding unpack_aware_from.simps [of n buf off] rec_cut_def
    using assms by (simp add: h(1) [symmetric] h(2) [symmetric] l Let_def add.commute [of off])
qed

lemma rec_hsize_append: "p \<noteq> [] \<Longrightarrow> rec_hsize n (p @ r) = rec_hsize n p"
  by (cases p) (simp_all add: rec_hsize_def)

lemma be16_append: "2 \<le> length xs \<Longrightarrow> be16 (xs @ ys) = be16 xs"
  by (cases xs; cases "tl xs") auto

lemma rec_length_append:
  assumes "rec_hsize n p \<le> length p"
  shows "be16 (drop (rec_hsize n p - 2) (p @ r)) = be16 (drop (rec_hsize n p - 2) p)"
proof -
  have "2 \<le> rec_hsize n p" by (simp add: rec_hsize_def FixedHeaderSize_def)
  then show ?thesis using assms be16_append [of "drop (rec_hsize n p - 2) p" r] by simp
qed

lemma rec_hsize_pos: "13 \<le> rec_hsize n p"
  by (simp add: rec_hsize_def FixedHeaderSize_def)

lemma rec_cut_append:
  "rec_cut n (p @ r) = Some (length p) \<and> p \<noteq> [] \<longleftrightarrow> rec_sized n p \<and> rec_hsize n p < length (p @ r)"
proof (cases "p = [] \<or> length p < rec_hsize n p")
  case True
  have "length p < rec_hsize n p" if "p = []" using that rec_hsize_pos [of n p] by simp
  then show ?thesis using True
    by (auto simp: rec_sized_def rec_cut_def Let_def rec_hsize_append split: if_splits)
next
  case False
  then show ?thesis using rec_length_append [of n p r] rec_hsize_append [of p n r]
    by (auto simp: rec_sized_def rec_cut_def Let_def)
qed

lemma rec_cut_split:
  assumes "rec_cut n d = Some k"
  shows "d = take k d @ drop k d" and "rec_sized n (take k d)" and "rec_hsize n (take k d) < length d"
proof -
  show e: "d = take k d @ drop k d" by simp
  have k: "0 < k" "k \<le> length d" using rec_cut_pos [OF assms] by simp_all
  then have "rec_cut n (take k d @ drop k d) = Some (length (take k d))" "take k d \<noteq> []" using assms by auto
  then have "rec_sized n (take k d) \<and> rec_hsize n (take k d) < length (take k d @ drop k d)"
    using rec_cut_append by blast
  then show "rec_sized n (take k d)" "rec_hsize n (take k d) < length d" by simp_all
qed

lemma sized_nonempty: "rec_sized n p \<Longrightarrow> 13 \<le> length p"
  using rec_hsize_pos [of n p] by (simp add: rec_sized_def)

lemma unpack_aware_iff:
  "off \<le> length buf \<Longrightarrow>
     unpack_aware_from n buf off = Inr ps \<longleftrightarrow>
       concat ps = drop off buf \<and> list_all (rec_sized n) ps \<and> (ps = [] \<or> rec_hsize n (last ps) < length (last ps))"
proof (induction ps arbitrary: off)
  case Nil
  then show ?case
    by (cases "off = length buf")
      (simp_all add: unpack_aware_from.simps [of n buf "length buf"] unpack_aware_step split: option.splits sum.splits)
next
  case (Cons p ps)
  show ?case
  proof (cases "off = length buf")
    case True
    then show ?thesis using sized_nonempty [of n p] by (auto simp: unpack_aware_from.simps)
  next
    case False
    let ?d = "drop off buf"
    let ?last = "\<lambda>ps. ps = [] \<or> rec_hsize n (last ps) < length (last ps)"
    have ih: "unpack_aware_from n buf (off + length p) = Inr ps \<longleftrightarrow>
      concat ps = drop (off + length p) buf \<and> list_all (rec_sized n) ps \<and> ?last ps" if "off + length p \<le> length buf"
      by (rule Cons.IH [OF that])
    have "unpack_aware_from n buf off = Inr (p # ps) \<longleftrightarrow>
      rec_cut n ?d = Some (length p) \<and> take (length p) ?d = p \<and> unpack_aware_from n buf (off + length p) = Inr ps"
      using False Cons.prems by (auto simp: unpack_aware_step split: option.splits sum.splits dest: rec_cut_pos)
    also have "\<dots> \<longleftrightarrow> (rec_sized n p \<and> rec_hsize n p < length ?d \<and> ?d = p @ drop (length p) ?d) \<and>
        unpack_aware_from n buf (off + length p) = Inr ps"
      using rec_cut_split [of n ?d "length p"] rec_cut_append [of n p "drop (length p) ?d"] sized_nonempty [of n p]
      by (metis append_eq_conv_conj)
    also have "\<dots> \<longleftrightarrow> concat (p # ps) = ?d \<and> list_all (rec_sized n) (p # ps) \<and> ?last (p # ps)"
    proof (intro iffI; elim conjE)
      assume a: "rec_sized n p" "rec_hsize n p < length ?d" "?d = p @ drop (length p) ?d"
        "unpack_aware_from n buf (off + length p) = Inr ps"
      have "off + length p \<le> length buf" using Cons.prems arg_cong [OF a(3), of length] by simp
      with ih a(4) have "concat ps = drop (length p) ?d" "list_all (rec_sized n) ps" "?last ps" by (simp_all add: add.commute)
      then show "concat (p # ps) = ?d \<and> list_all (rec_sized n) (p # ps) \<and> ?last (p # ps)"
        using a by (cases ps) auto
    next
      assume a: "concat (p # ps) = ?d" "list_all (rec_sized n) (p # ps)" "?last (p # ps)"
      have d: "?d = p @ concat ps" using a(1) by simp
      have "off + length p \<le> length buf" using Cons.prems arg_cong [OF d, of length] by simp
      moreover have "concat ps = drop (off + length p) buf" using arg_cong [OF d, of "drop (length p)"] by (simp add: add.commute)
      moreover have "rec_hsize n p < length ?d"
        using a(2,3) sized_nonempty [of n "hd ps"] unfolding d by (cases ps) (auto simp: rec_sized_def)
      moreover have "?last ps" using a(3) by (cases ps) auto
      ultimately show "(rec_sized n p \<and> rec_hsize n p < length ?d \<and> ?d = p @ drop (length p) ?d) \<and>
          unpack_aware_from n buf (off + length p) = Inr ps"
        using ih a(2) d by (simp add: add.commute)
    qed
    finally show ?thesis .
  qed
qed



section \<open>Inner plaintext of records with a connection identifier\<close>

record inner_plain =
  ip_Content :: bytes
  ip_RealType :: byte
  ip_Zeros :: nat

definition inner_Marshal :: "inner_plain \<Rightarrow> bytes" where
  "inner_Marshal p = ip_Content p @ [ip_RealType p] @ replicate (ip_Zeros p) 0"

text \<open>
  The loop of \<^verbatim>\<open>Unmarshal\<close> that looks for the last byte that is not zero; \<open>None\<close> is the index -1
  that it reaches when there is none.
\<close>

definition last_nonzero :: "bytes \<Rightarrow> nat option" where
  "last_nonzero data =
     (let n = length (dropWhile (\<lambda>b. b = 0) (rev data)) in if n = 0 then None else Some (n - 1))"

text \<open>
  \<^verbatim>\<open>Unmarshal\<close>: the outer \<open>None\<close> is the panic of \<^verbatim>\<open>data[i]\<close> at the index -1. The field with the
  number of zeros is set only when the loop found a byte.
\<close>

definition inner_Unmarshal :: "bytes \<Rightarrow> (dtls_error + inner_plain) option" where
  "inner_Unmarshal data =
     (case last_nonzero data of
        None \<Rightarrow> None
      | Some i \<Rightarrow>
          if i = 0 then Some (Inl ErrBufferTooSmall)
          else Some (Inr \<lparr>ip_Content = take i data, ip_RealType = data ! i, ip_Zeros = length data - 1 - i\<rparr>))"

lemma last_nonzero_app: "t \<noteq> 0 \<Longrightarrow> last_nonzero (xs @ [t] @ replicate k 0) = Some (length xs)"
proof -
  assume "t \<noteq> 0"
  then have "dropWhile (\<lambda>b. b = 0) (replicate k 0 @ t # rev xs) = t # rev xs" by (induction k) simp_all
  then show ?thesis by (simp add: last_nonzero_def)
qed

lemma last_nonzero_None: "last_nonzero data = None \<longleftrightarrow> data = replicate (length data) 0"
proof -
  have "last_nonzero data = None \<longleftrightarrow> (\<forall>b\<in>set data. b = 0)"
    by (auto simp: last_nonzero_def Let_def dropWhile_eq_Nil_conv)
  then show ?thesis by (metis in_set_replicate replicate_length_same)
qed

text \<open>
  The inner plaintext of a record with a connection identifier. Content that is not empty is read
  back with its type and padding; empty content is refused; and a plaintext that is all zeros or
  has no bytes at all, which only the peer that holds the keys can send, makes the reader index
  the slice at -1, which panics.
\<close>

lemma inner_plaintext_cases:
  "(ip_RealType p = 0 \<or>
     inner_Unmarshal (inner_Marshal p) = Some (if ip_Content p = [] then Inl ErrBufferTooSmall else Inr p)) \<and>
   (inner_Unmarshal data = None \<longleftrightarrow> data = replicate (length data) 0)"
proof -
  have "inner_Unmarshal (inner_Marshal p) = Some (if ip_Content p = [] then Inl ErrBufferTooSmall else Inr p)"
    if "ip_RealType p \<noteq> 0"
    using last_nonzero_app [OF that, of "ip_Content p" "ip_Zeros p"]
    by (cases p) (simp add: inner_Unmarshal_def inner_Marshal_def nth_append)
  moreover have "inner_Unmarshal data = None \<longleftrightarrow> last_nonzero data = None"
    by (simp add: inner_Unmarshal_def split: option.splits)
  ultimately show ?thesis using last_nonzero_None [of data] by (cases "ip_RealType p = 0") simp_all
qed

section \<open>Contents\<close>

text \<open>The contents a record is decoded into; handshakes are handled before and stay raw.\<close>

datatype dtls_content = CCS | AlertMsg byte byte | HandshakeRaw bytes | AppData bytes

fun content_type :: "dtls_content \<Rightarrow> byte" where
  "content_type CCS = ContentTypeChangeCipherSpec"
| "content_type (AlertMsg _ _) = ContentTypeAlert"
| "content_type (HandshakeRaw _) = ContentTypeHandshake"
| "content_type (AppData _) = ContentTypeApplicationData"

fun content_Marshal :: "dtls_content \<Rightarrow> bytes" where
  "content_Marshal CCS = [1]"
| "content_Marshal (AlertMsg level desc) = [level, desc]"
| "content_Marshal (HandshakeRaw raw) = raw"
| "content_Marshal (AppData d) = d"

definition record_Marshal :: "rec_header \<Rightarrow> dtls_content \<Rightarrow> (dtls_error + bytes) \<times> rec_header" where
  "record_Marshal h c =
     (let raw = content_Marshal c;
          h' = h\<lparr>rh_ContentLen := u16_len (length raw), rh_ContentType := content_type c\<rparr>
      in (case rec_Marshal h' of Inl e \<Rightarrow> Inl e | Inr hdr \<Rightarrow> Inr (hdr @ raw), h'))"

text \<open>
  \<^verbatim>\<open>RecordLayer.Unmarshal\<close> into an empty record. The offset adds the length of the connection
  identifier twice, which is harmless here because it is empty.
\<close>

definition record_Unmarshal :: "bytes \<Rightarrow> dtls_error + rec_header \<times> dtls_content" where
  "record_Unmarshal data =
     (case rec_Unmarshal data rec_header0 of
        Inl e \<Rightarrow> Inl e
      | Inr h \<Rightarrow>
          let body = drop (rec_Size h + length (rh_ConnectionID h)) data; ct = rh_ContentType h in
          if ct = ContentTypeChangeCipherSpec then
            (if length body = 1 \<and> body ! 0 = 1 then Inr (h, CCS) else Inl ErrInvalidCipherSpec)
          else if ct = ContentTypeAlert then
            (if length body \<noteq> 2 then Inl ErrBufferTooSmall else Inr (h, AlertMsg (body ! 0) (body ! 1)))
          else if ct = ContentTypeHandshake then Inr (h, HandshakeRaw body)
          else if ct = ContentTypeApplicationData then Inr (h, AppData body)
          else Inl ErrInvalidContentType)"

lemma record_Unmarshal_Marshal:
  assumes "rh_SequenceNumber h \<le> MaxSequenceNumber" "version_ok (rh_Major h) (rh_Minor h)" "rh_ConnectionID h = []"
  shows "\<exists>bs. record_Marshal h c = (Inr bs, h\<lparr>rh_ContentLen := u16_len (length (content_Marshal c)), rh_ContentType := content_type c\<rparr>) \<and>
    record_Unmarshal bs = Inr (h\<lparr>rh_ContentLen := 0, rh_ContentType := content_type c\<rparr>, c)"
proof -
  let ?h = "h\<lparr>rh_ContentLen := u16_len (length (content_Marshal c)), rh_ContentType := content_type c\<rparr>"
  have "content_type c \<noteq> ContentTypeConnectionID" by (cases c) (simp_all add: content_types)
  then obtain hd where hd: "rec_Marshal ?h = Inr hd" "length hd = 13"
    "rec_Unmarshal (hd @ content_Marshal c) rec_header0 = Inr (?h\<lparr>rh_ContentLen := 0\<rparr>)"
    using rec_Unmarshal_Marshal [of ?h rec_header0 "content_Marshal c"] assms
    by (auto simp: rec_header0_def rec_Size_def FixedHeaderSize_def)
  have "record_Unmarshal (hd @ content_Marshal c) = Inr (h\<lparr>rh_ContentLen := 0, rh_ContentType := content_type c\<rparr>, c)"
    using hd assms(3) by (cases c) (simp_all add: record_Unmarshal_def rec_Size_def FixedHeaderSize_def content_types)
  then show ?thesis using hd by (simp add: record_Marshal_def Let_def)
qed

end
