(* ===== verification/Dtls_Fragment.thy ===== *)
theory Dtls_Fragment
  imports Dtls_Record
begin

text \<open>
  Fragmentation of handshake messages (\<^verbatim>\<open>golib/replace/dtls\<close>): the sender splits a message
  (\<^verbatim>\<open>conn.go\<close>, \<^verbatim>\<open>util.go\<close>) and the receiver keeps the fragments that arrive in any order and
  puts the messages together in the order of their sequence numbers
  (\<^verbatim>\<open>fragment_buffer.go\<close>).
\<close>

section \<open>The receiver\<close>

definition fragmentBufferMaxSize :: nat where "fragmentBufferMaxSize = 2000000"

record dtls_fragment =
  fr_rec :: rec_header
  fr_hs :: hs_header
  fr_data :: bytes

text \<open>The cache is an association list from message sequence numbers to fragments in the order of arrival.\<close>

record frag_buffer =
  fb_cache :: "(u16 \<times> dtls_fragment list) list"
  fb_current :: u16

definition newFragmentBuffer :: frag_buffer where
  "newFragmentBuffer = \<lparr>fb_cache = [], fb_current = 0\<rparr>"

definition frags_size :: "dtls_fragment list \<Rightarrow> nat" where
  "frags_size fs = sum_list (map (\<lambda>f. length (fr_data f)) fs)"

definition fb_size :: "frag_buffer \<Rightarrow> nat" where
  "fb_size f = sum_list (map (\<lambda>(i, fs). frags_size fs) (fb_cache f))"

text \<open>\<^verbatim>\<open>f.cache[seq] = append(f.cache[seq], frag)\<close>.\<close>

fun cache_append :: "u16 \<Rightarrow> dtls_fragment \<Rightarrow> (u16 \<times> dtls_fragment list) list \<Rightarrow> (u16 \<times> dtls_fragment list) list" where
  "cache_append s fr [] = [(s, [fr])]"
| "cache_append s fr ((t, fs) # xs) = (if t = s then (t, fs @ [fr]) # xs else (t, fs) # cache_append s fr xs)"

text \<open>
  The loop of \<^verbatim>\<open>push\<close> over the handshake messages of a record. Only the first of them keeps the
  record header: the loop continues with a new, empty fragment. A fragment takes everything
  up to the full length of its message, or to the end of the record.
\<close>

function push_loop :: "rec_header \<Rightarrow> bytes \<Rightarrow> bool \<Rightarrow> frag_buffer \<Rightarrow> (dtls_error + bool) \<times> frag_buffer" where
  "push_loop rh buf isRetransmit f =
     (if buf = [] then (Inr isRetransmit, f)
      else case hs_Unmarshal buf of
        Inl e \<Rightarrow> (Inl e, f)
      | Inr h \<Rightarrow>
          let rt = (hh_FragmentOffset h = 0 \<and> hh_MessageSequence h < fb_current f);
              end0 = HeaderLength + unat (hh_Length h);
              end = (if length buf < end0 then length buf else end0);
              frag = \<lparr>fr_rec = rh, fr_hs = h, fr_data = take (end - HeaderLength) (drop HeaderLength buf)\<rparr>
          in push_loop rec_header0 (drop end buf) rt (f\<lparr>fb_cache := cache_append (hh_MessageSequence h) frag (fb_cache f)\<rparr>))"
  by pat_completeness auto
termination
  by (relation "measure (\<lambda>(rh, buf, rt, f). length buf)") (auto simp: HeaderLength_def hs_Unmarshal_def)

declare push_loop.simps [simp del]

text \<open>\<^verbatim>\<open>push\<close>: whether the record is a handshake and whether it is a retransmission, or the error.\<close>

definition fb_push :: "bytes \<Rightarrow> frag_buffer \<Rightarrow> (dtls_error + bool \<times> bool) \<times> frag_buffer" where
  "fb_push buf f =
     (if fragmentBufferMaxSize \<le> fb_size f + length buf then (Inl ErrFragmentBufferOverflow, f)
      else case rec_Unmarshal buf rec_header0 of
        Inl e \<Rightarrow> (Inl e, f)
      | Inr rh \<Rightarrow>
          if rh_ContentType rh \<noteq> ContentTypeHandshake then (Inr (False, False), f)
          else case push_loop rh (drop FixedHeaderSize buf) False f of
            (Inl e, f') \<Rightarrow> (Inl e, f')
          | (Inr rt, f') \<Rightarrow> (Inr (True, rt), f'))"

text \<open>
  The recursive closure \<^verbatim>\<open>appendMessage\<close> of \<^verbatim>\<open>pop\<close>: the first fragment at the offset decides.
  The result \<open>None\<close> says that the fuel ran out, \<open>Some None\<close> is the answer \<^verbatim>\<open>false\<close>.
\<close>

fun appendMessage :: "nat \<Rightarrow> dtls_fragment list \<Rightarrow> u32 \<Rightarrow> bytes option option" where
  "appendMessage 0 frags target = None"
| "appendMessage (Suc fuel) frags target =
     (case find (\<lambda>f. hh_FragmentOffset (fr_hs f) = target) frags of
        None \<Rightarrow> Some None
      | Some f \<Rightarrow>
          let fragmentEnd = hh_FragmentOffset (fr_hs f) + hh_FragmentLength (fr_hs f) in
          if fragmentEnd \<noteq> hh_Length (fr_hs f) \<and> hh_FragmentLength (fr_hs f) \<noteq> 0
          then (case appendMessage fuel frags fragmentEnd of
              None \<Rightarrow> None
            | Some None \<Rightarrow> Some None
            | Some (Some raw) \<Rightarrow> Some (Some (fr_data f @ raw)))
          else Some (Some (fr_data f)))"

text \<open>
  \<^verbatim>\<open>pop\<close>: the next message with its header made whole and its epoch, if it is complete. The
  recursion goes through a fragment at most once, so the fuel is the number of fragments and
  one more.
\<close>

definition fb_pop :: "frag_buffer \<Rightarrow> ((bytes \<times> u16) option \<times> frag_buffer) option" where
  "fb_pop f =
     (case map_of (fb_cache f) (fb_current f) of
        None \<Rightarrow> Some (None, f)
      | Some frags \<Rightarrow>
          (case appendMessage (Suc (length frags)) frags 0 of
             None \<Rightarrow> None
           | Some None \<Rightarrow> Some (None, f)
           | Some (Some rawMessage) \<Rightarrow>
               let h0 = fr_hs (frags ! 0);
                   firstHeader = h0\<lparr>hh_FragmentOffset := 0, hh_FragmentLength := hh_Length h0\<rparr>;
                   messageEpoch = rh_Epoch (fr_rec (frags ! 0))
               in Some (Some (hs_Marshal firstHeader @ rawMessage, messageEpoch),
                    f\<lparr>fb_cache := filter (\<lambda>x. fst x \<noteq> fb_current f) (fb_cache f), fb_current := fb_current f + 1\<rparr>)))"

section \<open>The sender\<close>

text \<open>\<^verbatim>\<open>splitBytes\<close>; a length of 0 would make the loop run forever.\<close>

function splitBytes :: "bytes \<Rightarrow> nat \<Rightarrow> bytes list" where
  "splitBytes bs n = (if bs = [] \<or> n = 0 then [] else take n bs # splitBytes (drop n bs) n)"
  by pat_completeness auto
termination by (relation "measure (\<lambda>(bs, n). length bs)") auto

declare splitBytes.simps [simp del]

text \<open>The loop of \<^verbatim>\<open>fragmentHandshake\<close> over the pieces, from an offset.\<close>

fun fragments_from :: "hs_header \<Rightarrow> nat \<Rightarrow> bytes list \<Rightarrow> bytes list" where
  "fragments_from h offset [] = []"
| "fragments_from h offset (c # cs) =
     (hs_Marshal (h\<lparr>hh_FragmentOffset := of_nat offset, hh_FragmentLength := of_nat (length c)\<rparr>) @ c) #
     fragments_from h (offset + length c) cs"

definition fragmentHandshake :: "hs_header \<Rightarrow> bytes \<Rightarrow> nat \<Rightarrow> bytes list" where
  "fragmentHandshake h content mtu =
     (let cs = splitBytes content mtu in fragments_from h 0 (if length cs = 0 then [[]] else cs))"

section \<open>Lemmas on the cache\<close>

lemma map_of_cache_append:
  "map_of (cache_append s fr xs) t =
     (if t = s then Some (case map_of xs s of None \<Rightarrow> [fr] | Some fs \<Rightarrow> fs @ [fr]) else map_of xs t)"
  by (induction xs) auto

lemma size_cache_append:
  "sum_list (map (\<lambda>(i, fs). frags_size fs) (cache_append s fr xs)) = sum_list (map (\<lambda>(i, fs). frags_size fs) xs) + length (fr_data fr)"
  by (induction s fr xs rule: cache_append.induct) (auto simp: frags_size_def)

definition frags_of :: "u16 \<Rightarrow> frag_buffer \<Rightarrow> dtls_fragment list" where
  "frags_of s f = (case map_of (fb_cache f) s of None \<Rightarrow> [] | Some fs \<Rightarrow> fs)"

text \<open>The cache never holds an empty list, and every header in it has fields of 24 bits.\<close>

definition frag_ok :: "dtls_fragment \<Rightarrow> bool" where
  "frag_ok fr \<longleftrightarrow> hh_Length (fr_hs fr) < 2 ^ 24 \<and> hh_FragmentOffset (fr_hs fr) < 2 ^ 24 \<and> hh_FragmentLength (fr_hs fr) < 2 ^ 24"

definition cache_ok :: "(u16 \<times> dtls_fragment list) list \<Rightarrow> bool" where
  "cache_ok xs \<longleftrightarrow> list_all (\<lambda>x. snd x \<noteq> [] \<and> list_all frag_ok (snd x)) xs \<and> distinct (map fst xs)"

definition fb_inv :: "frag_buffer \<Rightarrow> bool" where
  "fb_inv f \<longleftrightarrow> cache_ok (fb_cache f)"

lemma cache_append_keys:
  "map fst (cache_append s fr xs) = (if s \<in> set (map fst xs) then map fst xs else map fst xs @ [s])"
proof (induction xs)
  case (Cons x xs)
  then show ?case by (cases x) (simp del: set_map)
qed simp

lemma cache_append_ok: "cache_ok xs \<Longrightarrow> frag_ok fr \<Longrightarrow> cache_ok (cache_append s fr xs)"
proof -
  assume a: "cache_ok xs" "frag_ok fr"
  have "list_all (\<lambda>x. snd x \<noteq> [] \<and> list_all frag_ok (snd x)) xs \<Longrightarrow>
    list_all (\<lambda>x. snd x \<noteq> [] \<and> list_all frag_ok (snd x)) (cache_append s fr xs)"
    using a(2) by (induction xs) auto
  then show ?thesis using a(1) by (simp add: cache_ok_def cache_append_keys del: set_map)
qed

lemma push_loop_inv: "fb_inv f \<Longrightarrow> fb_inv (snd (push_loop rh buf rt f))"
proof (induction rh buf rt f rule: push_loop.induct)
  case (1 rh buf rt f)
  show ?case
  proof (cases "buf = [] \<or> isl (hs_Unmarshal buf)")
    case True
    then show ?thesis using 1(2) by (subst push_loop.simps) (auto split: sum.splits)
  next
    case False
    then obtain h where h: "hs_Unmarshal buf = Inr h" by (cases "hs_Unmarshal buf") auto
    have ok: "frag_ok \<lparr>fr_rec = rh, fr_hs = h, fr_data = d\<rparr>" for d
      using hs_Unmarshal_bounds [OF h] by (simp add: frag_ok_def)
    have inv: "fb_inv (f\<lparr>fb_cache := cache_append (hh_MessageSequence h) \<lparr>fr_rec = rh, fr_hs = h, fr_data = d\<rparr> (fb_cache f)\<rparr>)" for d
      using 1(2) ok by (simp add: fb_inv_def cache_append_ok)
    show ?thesis
      by (subst push_loop.simps) (use False h in \<open>simp add: Let_def 1(1) inv\<close>)
  qed
qed

lemma fb_push_inv: "fb_inv f \<Longrightarrow> fb_inv (snd (fb_push buf f))"
  using push_loop_inv by (auto simp: fb_push_def split: sum.splits prod.splits) (metis snd_conv)+

lemma fb_push_current [simp]: "fb_current (snd (fb_push buf f)) = fb_current f"
proof -
  have "fb_current (snd (push_loop rh bs rt f)) = fb_current f" for rh bs rt f
    by (induction rh bs rt f rule: push_loop.induct) (subst push_loop.simps, simp add: Let_def split: sum.splits)
  then show ?thesis by (auto simp: fb_push_def split: sum.splits prod.splits) (metis snd_conv)+
qed

section \<open>The assembly ends\<close>

lemma unat_add24:
  fixes a b :: u32
  assumes "a < 2 ^ 24" "b < 2 ^ 24"
  shows "unat (a + b) = unat a + unat b"
  using assms by (simp add: word_less_nat_alt unat_word_ariths)

lemma length_filter_shrink:
  assumes "x \<in> set xs" "Q x" "\<not> P x" "\<And>y. P y \<Longrightarrow> Q y"
  shows "length (filter P xs) < length (filter Q xs)"
proof -
  have "filter P xs = filter P (filter Q xs)" using assms(4) by (simp add: conj_commute) (metis (mono_tags, lifting) filter_cong)
  then show ?thesis using length_filter_less [of x "filter Q xs" P] assms by simp
qed

lemma appendMessage_fuel:
  "\<lbrakk>list_all frag_ok frags; length (filter (\<lambda>f. target \<le> hh_FragmentOffset (fr_hs f)) frags) < fuel\<rbrakk> \<Longrightarrow>
     appendMessage fuel frags target \<noteq> None"
proof (induction fuel arbitrary: target)
  case (Suc fuel)
  show ?case
  proof (cases "find (\<lambda>f. hh_FragmentOffset (fr_hs f) = target) frags")
    case (Some f)
    let ?t = "hh_FragmentOffset (fr_hs f) + hh_FragmentLength (fr_hs f)"
    have f: "f \<in> set frags" "hh_FragmentOffset (fr_hs f) = target" using Some by (auto simp: find_Some_iff)
    have lt: "target < ?t" if "hh_FragmentLength (fr_hs f) \<noteq> 0"
    proof -
      have "frag_ok f" using Suc.prems(1) f(1) by (auto simp: list_all_iff)
      moreover have "0 < unat (hh_FragmentLength (fr_hs f))" using that by (simp add: unat_gt_0)
      ultimately show ?thesis using f(2) unat_add24 by (simp add: frag_ok_def word_less_nat_alt)
    qed
    have "length (filter (\<lambda>f. ?t \<le> hh_FragmentOffset (fr_hs f)) frags) < length (filter (\<lambda>f. target \<le> hh_FragmentOffset (fr_hs f)) frags)"
      if "hh_FragmentLength (fr_hs f) \<noteq> 0"
      by (rule length_filter_shrink [of f]) (use f lt [OF that] in \<open>auto\<close>)
    then have "appendMessage fuel frags ?t \<noteq> None" if "hh_FragmentLength (fr_hs f) \<noteq> 0"
      using Suc.IH [of ?t] Suc.prems that by auto
    then show ?thesis using Some by (auto simp: Let_def split: option.splits)
  qed simp
qed simp

lemma fb_pop_total: "fb_inv f \<Longrightarrow> fb_pop f \<noteq> None"
proof (cases "map_of (fb_cache f) (fb_current f)")
  case (Some frags)
  assume "fb_inv f"
  then have "list_all frag_ok frags"
    using map_of_SomeD [OF Some] by (auto simp: fb_inv_def cache_ok_def list_all_iff)
  then have "appendMessage (Suc (length frags)) frags 0 \<noteq> None"
    by (intro appendMessage_fuel) (auto simp: less_Suc_eq_le)
  then show ?thesis using Some by (auto simp: fb_pop_def Let_def split: option.splits)
qed (simp add: fb_pop_def)

lemma fb_pop_inv: "fb_inv f \<Longrightarrow> fb_pop f = Some (r, f') \<Longrightarrow> fb_inv f'"
  by (auto simp: fb_pop_def fb_inv_def cache_ok_def Let_def list_all_iff distinct_map_filter split: option.splits)

lemma fb_pop_shrinks:
  assumes "fb_pop f = Some (Some x, f')"
  shows "length (fb_cache f') < length (fb_cache f)"
proof -
  have m: "map_of (fb_cache f) (fb_current f) \<noteq> None" and c: "fb_cache f' = filter (\<lambda>x. fst x \<noteq> fb_current f) (fb_cache f)"
    using assms by (auto simp: fb_pop_def Let_def split: option.splits)
  then obtain y where "y \<in> set (fb_cache f)" "fst y = fb_current f" by (auto simp: map_of_eq_None_iff)
  then show ?thesis unfolding c using length_filter_less [of y "fb_cache f" "\<lambda>x. fst x \<noteq> fb_current f"] by simp
qed

section \<open>A fragment in a record\<close>

lemma map_of_filter_ne: "map_of (filter (\<lambda>x. fst x \<noteq> k) xs) t = (if t = k then None else map_of xs t)"
  by (induction xs) auto

text \<open>A record that carries one fragment of a message.\<close>

definition frag_record :: "rec_header \<Rightarrow> hs_header \<Rightarrow> bytes \<Rightarrow> bytes \<Rightarrow> bool" where
  "frag_record rh h d p \<longleftrightarrow>
     (\<exists>hd. rec_Unmarshal p rec_header0 = Inr rh \<and> rh_ContentType rh = ContentTypeHandshake \<and>
        length hd = FixedHeaderSize \<and> p = hd @ hs_Marshal h @ d \<and>
        hh_Length h < 2 ^ 24 \<and> hh_FragmentOffset h < 2 ^ 24 \<and> hh_FragmentLength h < 2 ^ 24 \<and>
        length d \<le> unat (hh_Length h))"

lemma push_frag_record:
  assumes "frag_record rh h d p" "fb_size f + length p < fragmentBufferMaxSize"
  shows "fb_push p f =
    (Inr (True, hh_FragmentOffset h = 0 \<and> hh_MessageSequence h < fb_current f),
     f\<lparr>fb_cache := cache_append (hh_MessageSequence h) \<lparr>fr_rec = rh, fr_hs = h, fr_data = d\<rparr> (fb_cache f)\<rparr>)"
proof -
  obtain hd where p: "rec_Unmarshal p rec_header0 = Inr rh" "rh_ContentType rh = ContentTypeHandshake"
    "length hd = FixedHeaderSize" "p = hd @ hs_Marshal h @ d" "length d \<le> unat (hh_Length h)"
    and b: "hh_Length h < 2 ^ 24" "hh_FragmentOffset h < 2 ^ 24" "hh_FragmentLength h < 2 ^ 24"
    using assms(1) unfolding frag_record_def by blast
  note m = hs_Unmarshal_Marshal [OF b]
  have ne: "hs_Marshal h \<noteq> []" using m(2) by (auto simp: HeaderLength_def)
  have "push_loop rh (hs_Marshal h @ d) False f =
    (Inr (hh_FragmentOffset h = 0 \<and> hh_MessageSequence h < fb_current f),
     f\<lparr>fb_cache := cache_append (hh_MessageSequence h) \<lparr>fr_rec = rh, fr_hs = h, fr_data = d\<rparr> (fb_cache f)\<rparr>)"
    using p(5) m ne by (subst push_loop.simps) (simp add: Let_def push_loop.simps [of _ "[]"])
  then show ?thesis using assms(2) p by (simp add: fb_push_def)
qed

section \<open>Messages are put together\<close>

text \<open>The offset of a piece, and the header of its fragment.\<close>

definition piece_off :: "bytes list \<Rightarrow> nat \<Rightarrow> nat" where
  "piece_off cs i = length (concat (take i cs))"

definition piece_hdr :: "hs_header \<Rightarrow> bytes list \<Rightarrow> nat \<Rightarrow> hs_header" where
  "piece_hdr h cs i = h\<lparr>hh_FragmentOffset := of_nat (piece_off cs i), hh_FragmentLength := of_nat (length (cs ! i))\<rparr>"

definition pieces_ok :: "hs_header \<Rightarrow> bytes list \<Rightarrow> bool" where
  "pieces_ok h cs \<longleftrightarrow> cs \<noteq> [] \<and> (list_all (\<lambda>c. c \<noteq> []) cs \<or> cs = [[]]) \<and>
     length (concat cs) < 2 ^ 24 \<and> hh_Length h = of_nat (length (concat cs))"

lemma piece_off_Suc: "i < length cs \<Longrightarrow> piece_off cs (Suc i) = piece_off cs i + length (cs ! i)"
  by (simp add: piece_off_def take_Suc_conv_app_nth)

lemma piece_off_le: "piece_off cs i \<le> length (concat cs)"
proof -
  have "concat cs = concat (take i cs) @ concat (drop i cs)" by (metis append_take_drop_id concat_append)
  then show ?thesis by (simp add: piece_off_def)
qed

lemma piece_off_mono: "i \<le> j \<Longrightarrow> piece_off cs i \<le> piece_off cs j"
  using piece_off_le [of "take j cs" i] by (simp add: piece_off_def min_absorb1)

lemma piece_off_less:
  assumes "list_all (\<lambda>c. c \<noteq> []) cs" "i < j" "i < length cs"
  shows "piece_off cs i < piece_off cs j"
proof -
  have "piece_off cs i < piece_off cs (Suc i)" using assms by (simp add: piece_off_Suc list_all_length)
  also have "\<dots> \<le> piece_off cs j" using assms(2) by (intro piece_off_mono) simp
  finally show ?thesis .
qed

lemma unat_u32_of_nat: "n < 2 ^ 32 \<Longrightarrow> unat (of_nat n :: u32) = n"
  by (simp add: unat_of_nat)

lemma of_nat_u32_inj: "a < 2 ^ 32 \<Longrightarrow> b < 2 ^ 32 \<Longrightarrow> (of_nat a :: u32) = of_nat b \<Longrightarrow> a = b"
  by (metis unat_u32_of_nat)

lemma piece_off_inj:
  assumes "pieces_ok h cs" "i < length cs" "j < length cs" "(of_nat (piece_off cs i) :: u32) = of_nat (piece_off cs j)"
  shows "i = j"
proof (cases "cs = [[]]")
  case False
  then have ne: "list_all (\<lambda>c. c \<noteq> []) cs" using assms(1) by (simp add: pieces_ok_def)
  have lt: "piece_off cs k < 2 ^ 32" for k
    using piece_off_le [of cs k] assms(1) by (simp add: pieces_ok_def)
  have "piece_off cs i = piece_off cs j" using of_nat_u32_inj [OF lt lt assms(4)] .
  then show ?thesis using piece_off_less [OF ne] assms(2,3) by (metis less_irrefl linorder_neqE_nat)
qed (use assms in simp)

lemma appendMessage_mono:
  "appendMessage n frags t = Some r \<Longrightarrow> n \<le> m \<Longrightarrow> appendMessage m frags t = Some r"
proof (induction n arbitrary: m t r)
  case (Suc n)
  then obtain m' where m: "m = Suc m'" "n \<le> m'" by (cases m) auto
  show ?case
  proof (cases "find (\<lambda>f. hh_FragmentOffset (fr_hs f) = t) frags")
    case None
    then show ?thesis using Suc.prems(1) m by simp
  next
    case (Some f)
    let ?e = "hh_FragmentOffset (fr_hs f) + hh_FragmentLength (fr_hs f)"
    show ?thesis
    proof (cases "appendMessage n frags ?e")
      case None
      then show ?thesis using Suc.prems(1) m Some by (auto simp: Let_def split: if_splits)
    next
      case s: (Some x)
      then show ?thesis using Suc.prems(1) m Some Suc.IH [OF s m(2)] by (auto simp: Let_def split: if_splits)
    qed
  qed
qed simp

lemma find_SomeD: "find P xs = Some x \<Longrightarrow> x \<in> set xs \<and> P x"
  by (auto simp: find_Some_iff)

text \<open>The fragments of one message: all of them are pieces of it, and every piece is among them.\<close>

definition frags_cover :: "hs_header \<Rightarrow> bytes list \<Rightarrow> dtls_fragment list \<Rightarrow> bool" where
  "frags_cover h cs frags \<longleftrightarrow>
     (\<forall>f\<in>set frags. \<exists>i<length cs. fr_hs f = piece_hdr h cs i \<and> fr_data f = cs ! i) \<and>
     (\<forall>i<length cs. \<exists>f\<in>set frags. fr_hs f = piece_hdr h cs i)"

lemma find_piece:
  assumes "pieces_ok h cs" "frags_cover h cs frags" "i < length cs"
  shows "\<exists>f. find (\<lambda>f. hh_FragmentOffset (fr_hs f) = of_nat (piece_off cs i)) frags = Some f \<and>
    fr_hs f = piece_hdr h cs i \<and> fr_data f = cs ! i"
proof -
  obtain g where g: "g \<in> set frags" "fr_hs g = piece_hdr h cs i" using assms(2,3) by (auto simp: frags_cover_def)
  then have "find (\<lambda>f. hh_FragmentOffset (fr_hs f) = of_nat (piece_off cs i)) frags \<noteq> None"
    by (auto simp: find_None_iff piece_hdr_def)
  then obtain f where f0: "find (\<lambda>f. hh_FragmentOffset (fr_hs f) = of_nat (piece_off cs i)) frags = Some f" by auto
  have f: "f \<in> set frags" "hh_FragmentOffset (fr_hs f) = of_nat (piece_off cs i)" using find_SomeD [OF f0] by simp_all
  obtain j where j: "j < length cs" "fr_hs f = piece_hdr h cs j" "fr_data f = cs ! j"
    using assms(2) f(1) by (auto simp: frags_cover_def)
  have "j = i" using piece_off_inj [OF assms(1) j(1) assms(3)] f(2) j(2) by (simp add: piece_hdr_def)
  then show ?thesis using f0 j by simp
qed

lemma append_pieces:
  assumes "pieces_ok h cs" "frags_cover h cs frags"
  shows "i < length cs \<Longrightarrow> appendMessage (length cs - i) frags (of_nat (piece_off cs i)) = Some (Some (concat (drop i cs)))"
proof (induction "length cs - i" arbitrary: i)
  case (Suc n)
  obtain f where f: "find (\<lambda>f. hh_FragmentOffset (fr_hs f) = of_nat (piece_off cs i)) frags = Some f"
    "fr_hs f = piece_hdr h cs i" "fr_data f = cs ! i"
    using find_piece [OF assms Suc.prems] by blast
  have fuel: "length cs - i = Suc n" "n = length cs - Suc i" using Suc.hyps(2) Suc.prems by simp_all
  have e: "hh_FragmentOffset (fr_hs f) + hh_FragmentLength (fr_hs f) = of_nat (piece_off cs (Suc i))"
    using f(2) Suc.prems by (simp add: piece_hdr_def piece_off_Suc)
  have dr: "concat (drop i cs) = cs ! i @ concat (drop (Suc i) cs)" using Suc.prems by (simp add: Cons_nth_drop_Suc [symmetric])
  have L: "hh_Length (fr_hs f) = of_nat (length (concat cs))" "hh_FragmentLength (fr_hs f) = of_nat (length (cs ! i))"
    using f(2) assms(1) by (simp_all add: piece_hdr_def pieces_ok_def)
  show ?case
  proof (cases "Suc i < length cs")
    case True
    have ne: "list_all (\<lambda>c. c \<noteq> []) cs" using assms(1) True by (auto simp: pieces_ok_def)
    have lt: "length (concat cs) < 2 ^ 24" using assms(1) by (simp add: pieces_ok_def)
    have "piece_off cs (Suc i) < piece_off cs (Suc (Suc i))" by (rule piece_off_less [OF ne _ True]) simp
    then have p: "piece_off cs (Suc i) < length (concat cs)" using piece_off_le [of cs "Suc (Suc i)"] by simp
    have "(of_nat (piece_off cs (Suc i)) :: u32) \<noteq> of_nat (length (concat cs))"
      using of_nat_u32_inj [of "piece_off cs (Suc i)" "length (concat cs)"] p lt by auto
    moreover have "(of_nat (length (cs ! i)) :: u32) \<noteq> of_nat 0"
      using of_nat_u32_inj [of "length (cs ! i)" 0] ne Suc.prems lt piece_off_Suc [OF Suc.prems] p by (auto simp: list_all_length)
    ultimately show ?thesis
      using f e L dr Suc.hyps(1) [OF fuel(2) True] fuel by (simp add: Let_def)
  next
    case False
    then have "Suc i = length cs" using Suc.prems by simp
    then have "piece_off cs (Suc i) = length (concat cs)" by (simp add: piece_off_def)
    then show ?thesis using f e L dr fuel False by (simp add: Let_def)
  qed
qed simp

lemma fb_pop_cover:
  assumes "fb_inv f" "pieces_ok h cs" "frags_cover h cs (frags_of (fb_current f) f)"
  shows "\<exists>epoch. fb_pop f =
    Some (Some (hs_Marshal (h\<lparr>hh_FragmentOffset := 0, hh_FragmentLength := hh_Length h\<rparr>) @ concat cs, epoch),
      f\<lparr>fb_cache := filter (\<lambda>x. fst x \<noteq> fb_current f) (fb_cache f), fb_current := fb_current f + 1\<rparr>)"
proof -
  let ?frags = "frags_of (fb_current f) f"
  have cs: "0 < length cs" using assms(2) by (simp add: pieces_ok_def)
  then have ne: "?frags \<noteq> []" using assms(3) by (fastforce simp: frags_cover_def)
  then have m: "map_of (fb_cache f) (fb_current f) = Some ?frags" by (auto simp: frags_of_def split: option.splits)
  have "list_all frag_ok ?frags" using map_of_SomeD [OF m] assms(1) by (auto simp: fb_inv_def cache_ok_def list_all_iff)
  then have nn: "appendMessage (Suc (length ?frags)) ?frags 0 \<noteq> None"
    by (intro appendMessage_fuel) (auto simp: less_Suc_eq_le)
  then obtain r where r: "appendMessage (Suc (length ?frags)) ?frags 0 = Some r" by blast
  have "appendMessage (length cs) ?frags 0 = Some (Some (concat cs))"
    using append_pieces [OF assms(2,3) cs] by (simp add: piece_off_def)
  then have "r = Some (concat cs)"
    using r appendMessage_mono [of "length cs" ?frags 0 _ "max (length cs) (Suc (length ?frags))"]
      appendMessage_mono [OF r, of "max (length cs) (Suc (length ?frags))"] by simp
  moreover have "?frags ! 0 \<in> set ?frags" using ne by simp
  then obtain i where "fr_hs (?frags ! 0) = piece_hdr h cs i"
    using assms(3) unfolding frags_cover_def by blast
  ultimately show ?thesis using m r by (simp add: fb_pop_def Let_def piece_hdr_def)
qed

text \<open>A record around a handshake fragment, as \<^verbatim>\<open>processHandshakePacket\<close> builds it.\<close>

definition carries :: "bytes \<Rightarrow> bytes \<Rightarrow> bool" where
  "carries fr p \<longleftrightarrow>
     (\<exists>rh hd. rec_Marshal rh = Inr hd \<and> rh_ContentType rh = ContentTypeHandshake \<and>
        version_ok (rh_Major rh) (rh_Minor rh) \<and> rh_ConnectionID rh = [] \<and> p = hd @ fr)"

lemma carries_frag_record:
  assumes "carries (hs_Marshal g @ d) p"
    and "hh_Length g < 2 ^ 24" "hh_FragmentOffset g < 2 ^ 24" "hh_FragmentLength g < 2 ^ 24" "length d \<le> unat (hh_Length g)"
  shows "\<exists>rh. frag_record rh g d p"
proof -
  obtain rh hd where r: "rec_Marshal rh = Inr hd" "rh_ContentType rh = ContentTypeHandshake"
    "version_ok (rh_Major rh) (rh_Minor rh)" "rh_ConnectionID rh = []" "p = hd @ hs_Marshal g @ d"
    using assms(1) unfolding carries_def by blast
  have "rh_SequenceNumber rh \<le> MaxSequenceNumber" using r(1) by (auto simp: rec_Marshal_def not_less split: if_splits)
  then have "length hd = FixedHeaderSize \<and> rec_Unmarshal (hd @ hs_Marshal g @ d) rec_header0 = Inr (rh\<lparr>rh_ContentLen := 0\<rparr>)"
    using rec_Unmarshal_Marshal [of rh rec_header0 "hs_Marshal g @ d"] r
    by (auto simp: content_types rec_header0_def rec_Size_def)
  then show ?thesis unfolding frag_record_def using r assms(2-) by (intro exI [of _ "rh\<lparr>rh_ContentLen := 0\<rparr>"]) auto
qed

lemma frag_record_unique:
  assumes "frag_record rh h d p" "frag_record rh' h' d' p"
  shows "rh = rh' \<and> h = h' \<and> d = d'"
proof -
  obtain hd hd' where p: "rec_Unmarshal p rec_header0 = Inr rh" "p = hd @ hs_Marshal h @ d" "length hd = FixedHeaderSize"
    "rec_Unmarshal p rec_header0 = Inr rh'" "p = hd' @ hs_Marshal h' @ d'" "length hd' = FixedHeaderSize"
    and b: "hh_Length h < 2 ^ 24" "hh_FragmentOffset h < 2 ^ 24" "hh_FragmentLength h < 2 ^ 24"
    and b': "hh_Length h' < 2 ^ 24" "hh_FragmentOffset h' < 2 ^ 24" "hh_FragmentLength h' < 2 ^ 24"
    using assms unfolding frag_record_def by blast
  have e: "hs_Marshal h @ d = hs_Marshal h' @ d'" using p(2,3,5,6) by simp
  have "Inr h = (Inr h' :: dtls_error + hs_header)"
    using hs_Unmarshal_Marshal(1) [OF b, of d] hs_Unmarshal_Marshal(1) [OF b', of d'] e by simp
  then show ?thesis using e p by simp
qed

definition fb_pushes :: "bytes list \<Rightarrow> frag_buffer \<Rightarrow> frag_buffer" where
  "fb_pushes ps f = fold (\<lambda>p f. snd (fb_push p f)) ps f"

lemma frags_of_append:
  "frags_of s (f\<lparr>fb_cache := cache_append t fr (fb_cache f)\<rparr>) = (if s = t then frags_of s f @ [fr] else frags_of s f)"
  by (simp add: frags_of_def map_of_cache_append split: option.splits)

text \<open>The fragments with a sequence number that a list of records carries.\<close>

definition frag_set :: "u16 \<Rightarrow> bytes list \<Rightarrow> dtls_fragment set" where
  "frag_set s ps = {fr. \<exists>p\<in>set ps. frag_record (fr_rec fr) (fr_hs fr) (fr_data fr) p \<and> hh_MessageSequence (fr_hs fr) = s}"

lemma frag_set_Cons:
  assumes "frag_record rh g d p"
  shows "frag_set s (p # ps) =
    (if hh_MessageSequence g = s then {\<lparr>fr_rec = rh, fr_hs = g, fr_data = d\<rparr>} else {}) \<union> frag_set s ps"
proof -
  have "frag_record (fr_rec fr) (fr_hs fr) (fr_data fr) p \<longleftrightarrow> fr = \<lparr>fr_rec = rh, fr_hs = g, fr_data = d\<rparr>" for fr
  proof
    assume "frag_record (fr_rec fr) (fr_hs fr) (fr_data fr) p"
    from frag_record_unique [OF assms this] show "fr = \<lparr>fr_rec = rh, fr_hs = g, fr_data = d\<rparr>" by simp
  next
    assume "fr = \<lparr>fr_rec = rh, fr_hs = g, fr_data = d\<rparr>"
    then show "frag_record (fr_rec fr) (fr_hs fr) (fr_data fr) p" using assms by simp
  qed
  then have "frag_set s (p # ps) = {fr. fr = \<lparr>fr_rec = rh, fr_hs = g, fr_data = d\<rparr> \<and> hh_MessageSequence (fr_hs fr) = s} \<union> frag_set s ps"
    unfolding frag_set_def by auto
  also have "{fr. fr = \<lparr>fr_rec = rh, fr_hs = g, fr_data = d\<rparr> \<and> hh_MessageSequence (fr_hs fr) = s} =
      (if hh_MessageSequence g = s then {\<lparr>fr_rec = rh, fr_hs = g, fr_data = d\<rparr>} else {})"
    by (cases "hh_MessageSequence g = s") auto
  finally show ?thesis .
qed

lemma pushes_frags:
  "\<lbrakk>\<forall>p\<in>set ps. \<exists>rh g d. frag_record rh g d p; fb_size f + sum_list (map length ps) < fragmentBufferMaxSize; fb_inv f\<rbrakk> \<Longrightarrow>
   set (frags_of s (fb_pushes ps f)) = set (frags_of s f) \<union> frag_set s ps \<and>
   fb_current (fb_pushes ps f) = fb_current f \<and> fb_inv (fb_pushes ps f)"
proof (induction ps arbitrary: f)
  case Nil
  then show ?case by (simp add: fb_pushes_def frag_set_def)
next
  case (Cons p ps)
  obtain rh g d where p: "frag_record rh g d p" using Cons.prems(1) by auto
  let ?f = "f\<lparr>fb_cache := cache_append (hh_MessageSequence g) \<lparr>fr_rec = rh, fr_hs = g, fr_data = d\<rparr> (fb_cache f)\<rparr>"
  have pu: "snd (fb_push p f) = ?f" using push_frag_record [OF p] Cons.prems(2) by simp
  have "length d \<le> length p" using p by (auto simp: frag_record_def)
  then have sz: "fb_size ?f + sum_list (map length ps) < fragmentBufferMaxSize"
    using Cons.prems(2) by (simp add: fb_size_def size_cache_append)
  have inv: "fb_inv ?f" using fb_push_inv [OF Cons.prems(3), of p] pu by simp
  have e: "fb_pushes (p # ps) f = fb_pushes ps ?f" using pu by (simp add: fb_pushes_def)
  have ih: "set (frags_of s (fb_pushes ps ?f)) = set (frags_of s ?f) \<union> frag_set s ps \<and>
    fb_current (fb_pushes ps ?f) = fb_current ?f \<and> fb_inv (fb_pushes ps ?f)"
    using Cons.prems(1) by (intro Cons.IH [OF _ sz inv]) simp
  have "set (frags_of s ?f) \<union> frag_set s ps = set (frags_of s f) \<union> frag_set s (p # ps)"
    unfolding frags_of_append frag_set_Cons [OF p] by (simp add: Un_assoc)
  moreover have "fb_current ?f = fb_current f" by simp
  ultimately show ?case unfolding e using ih by (simp only:)
qed

section \<open>From the sender to the receiver\<close>

lemma splitBytes_concat: "0 < n \<Longrightarrow> concat (splitBytes bs n) = bs"
  by (induction bs n rule: splitBytes.induct) (subst splitBytes.simps, simp)

lemma splitBytes_nonempty: "list_all (\<lambda>c. c \<noteq> [] \<and> length c \<le> n) (splitBytes bs n)"
  by (induction bs n rule: splitBytes.induct) (subst splitBytes.simps, simp)

lemma splitBytes_Nil: "0 < n \<Longrightarrow> splitBytes bs n = [] \<longleftrightarrow> bs = []"
  by (subst splitBytes.simps) simp

definition message_pieces :: "bytes \<Rightarrow> nat \<Rightarrow> bytes list" where
  "message_pieces content mtu = (if splitBytes content mtu = [] then [[]] else splitBytes content mtu)"

lemma fragments_from_eq:
  "fragments_from h off cs =
     map (\<lambda>i. hs_Marshal (h\<lparr>hh_FragmentOffset := of_nat (off + piece_off cs i), hh_FragmentLength := of_nat (length (cs ! i))\<rparr>) @ cs ! i)
       [0..<length cs]"
proof (induction cs arbitrary: off)
  case (Cons c cs)
  show ?case
    unfolding fragments_from.simps Cons.IH
    by (simp add: piece_off_def add.assoc map_Suc_upt [symmetric] upt_conv_Cons del: upt_Suc map_Suc_upt)
qed simp

lemma fragmentHandshake_pieces:
  "fragmentHandshake h content mtu =
     map (\<lambda>i. hs_Marshal (piece_hdr h (message_pieces content mtu) i) @ message_pieces content mtu ! i)
       [0..<length (message_pieces content mtu)]"
  by (simp add: fragmentHandshake_def fragments_from_eq piece_hdr_def message_pieces_def Let_def)

lemma message_pieces_ok:
  assumes "0 < mtu" "length content < 2 ^ 24" "hh_Length h = of_nat (length content)"
  shows "pieces_ok h (message_pieces content mtu)" and "concat (message_pieces content mtu) = content"
  using assms splitBytes_concat [OF assms(1), of content] splitBytes_nonempty [of mtu content] splitBytes_Nil [OF assms(1), of content]
  by (auto simp: pieces_ok_def message_pieces_def list_all_iff)

lemma piece_record:
  assumes "pieces_ok h cs" "i < length cs" "carries (hs_Marshal (piece_hdr h cs i) @ cs ! i) p"
  shows "\<exists>rh. frag_record rh (piece_hdr h cs i) (cs ! i) p"
proof (rule carries_frag_record [OF assms(3)])
  have t: "length (concat cs) < 2 ^ 24" "hh_Length h = of_nat (length (concat cs))" using assms(1) by (simp_all add: pieces_ok_def)
  have l: "piece_off cs i + length (cs ! i) \<le> length (concat cs)"
    using piece_off_Suc [OF assms(2)] piece_off_le [of cs "Suc i"] by simp
  have w: "(of_nat n :: u32) < 2 ^ 24 \<and> unat (of_nat n :: u32) = n" if "n \<le> length (concat cs)" for n
    using that t(1) by (simp add: word_less_nat_alt unat_of_nat)
  show "hh_Length (piece_hdr h cs i) < 2 ^ 24" using w [of "length (concat cs)"] t by (simp add: piece_hdr_def)
  show "hh_FragmentOffset (piece_hdr h cs i) < 2 ^ 24" using w [of "piece_off cs i"] l by (simp add: piece_hdr_def)
  show "hh_FragmentLength (piece_hdr h cs i) < 2 ^ 24" using w [of "length (cs ! i)"] l by (simp add: piece_hdr_def)
  show "length (cs ! i) \<le> unat (hh_Length (piece_hdr h cs i))"
    using w [of "length (concat cs)"] t l by (simp add: piece_hdr_def)
qed

text \<open>A record with a fragment of another message.\<close>

definition foreign_record :: "u16 \<Rightarrow> bytes \<Rightarrow> bool" where
  "foreign_record s p \<longleftrightarrow>
     (\<exists>g d. carries (hs_Marshal g @ d) p \<and> hh_Length g < 2 ^ 24 \<and> hh_FragmentOffset g < 2 ^ 24 \<and>
        hh_FragmentLength g < 2 ^ 24 \<and> length d \<le> unat (hh_Length g) \<and> hh_MessageSequence g \<noteq> s)"

text \<open>
  Handshake messages survive fragmentation, loss of order and duplication. A message of less than
  2^24 bytes that the sender splits for any packet size is put together again by the receiver
  from records that arrive in any order, any number of times each and mixed with records of
  other messages: once every fragment arrived, \<^verbatim>\<open>pop\<close> returns the message with its whole header
  and goes on to the next sequence number.
\<close>

lemma handshake_reassembled:
  assumes "0 < mtu" "length content < 2 ^ 24" "hh_Length h = of_nat (length content)"
    and "fb_inv f" "fb_current f = hh_MessageSequence h" "frags_of (hh_MessageSequence h) f = []"
    and "\<forall>p\<in>set ps. (\<exists>fr\<in>set (fragmentHandshake h content mtu). carries fr p) \<or> foreign_record (hh_MessageSequence h) p"
    and "\<forall>fr\<in>set (fragmentHandshake h content mtu). \<exists>p\<in>set ps. carries fr p"
    and "fb_size f + sum_list (map length ps) < fragmentBufferMaxSize"
  shows "\<exists>epoch f'. fb_pop (fb_pushes ps f) =
      Some (Some (hs_Marshal (h\<lparr>hh_FragmentOffset := 0, hh_FragmentLength := hh_Length h\<rparr>) @ content, epoch), f') \<and>
    fb_current f' = hh_MessageSequence h + 1 \<and> fb_inv f'"
proof -
  let ?cs = "message_pieces content mtu" and ?s = "hh_MessageSequence h"
  have ok: "pieces_ok h ?cs" and cc: "concat ?cs = content" using message_pieces_ok [OF assms(1-3)] by simp_all
  have seq: "hh_MessageSequence (piece_hdr h ?cs i) = ?s" for i by (simp add: piece_hdr_def)
  have ours: "(\<exists>fr\<in>set (fragmentHandshake h content mtu). carries fr p) \<Longrightarrow>
      \<exists>i<length ?cs. \<exists>rh. frag_record rh (piece_hdr h ?cs i) (?cs ! i) p" for p
    using piece_record [OF ok, of _ p] by (auto simp: fragmentHandshake_pieces)
  have foreign: "foreign_record ?s p \<Longrightarrow> \<exists>rh g d. frag_record rh g d p \<and> hh_MessageSequence g \<noteq> ?s" for p
    unfolding foreign_record_def using carries_frag_record by meson
  have all: "\<forall>p\<in>set ps. \<exists>rh g d. frag_record rh g d p" using assms(7) ours foreign by meson
  note pf = pushes_frags [OF all assms(9,4), of ?s]
  have "frags_cover h ?cs (frags_of ?s (fb_pushes ps f))"
    unfolding frags_cover_def
  proof (intro conjI ballI allI impI)
    fix fr assume "fr \<in> set (frags_of ?s (fb_pushes ps f))"
    then obtain p where p: "p \<in> set ps" "frag_record (fr_rec fr) (fr_hs fr) (fr_data fr) p" "hh_MessageSequence (fr_hs fr) = ?s"
      using pf assms(6) by (auto simp: frag_set_def)
    then have "\<not> foreign_record ?s p" using foreign frag_record_unique by metis
    then obtain i rh where i: "i < length ?cs" "frag_record rh (piece_hdr h ?cs i) (?cs ! i) p" using ours assms(7) p(1) by blast
    show "\<exists>i<length ?cs. fr_hs fr = piece_hdr h ?cs i \<and> fr_data fr = ?cs ! i"
      using i(1) frag_record_unique [OF p(2) i(2)] by blast
  next
    fix i assume i: "i < length ?cs"
    then have "hs_Marshal (piece_hdr h ?cs i) @ ?cs ! i \<in> set (fragmentHandshake h content mtu)"
      by (simp add: fragmentHandshake_pieces)
    then obtain p where "p \<in> set ps" "carries (hs_Marshal (piece_hdr h ?cs i) @ ?cs ! i) p" using assms(8) by blast
    then obtain rh where "p \<in> set ps" "frag_record rh (piece_hdr h ?cs i) (?cs ! i) p" using piece_record [OF ok i] by blast
    then have "\<lparr>fr_rec = rh, fr_hs = piece_hdr h ?cs i, fr_data = ?cs ! i\<rparr> \<in> frag_set ?s ps" (is "?fr \<in> _")
      by (auto simp: frag_set_def seq)
    then have "?fr \<in> set (frags_of ?s (fb_pushes ps f))" using pf by simp
    then show "\<exists>fr\<in>set (frags_of ?s (fb_pushes ps f)). fr_hs fr = piece_hdr h ?cs i"
      by (rule rev_bexI) simp
  qed
  moreover have "fb_inv (fb_pushes ps f)" "fb_current (fb_pushes ps f) = ?s" using pf assms(5) by simp_all
  ultimately obtain epoch where "fb_pop (fb_pushes ps f) =
    Some (Some (hs_Marshal (h\<lparr>hh_FragmentOffset := 0, hh_FragmentLength := hh_Length h\<rparr>) @ content, epoch),
      (fb_pushes ps f)\<lparr>fb_cache := filter (\<lambda>x. fst x \<noteq> ?s) (fb_cache (fb_pushes ps f)), fb_current := ?s + 1\<rparr>)" (is "_ = Some (_, ?f)")
    using fb_pop_cover [OF _ ok, of "fb_pushes ps f"] cc by auto
  moreover from this have "fb_inv ?f" using pf fb_pop_inv by blast
  ultimately show ?thesis by (intro exI [of _ epoch] exI [of _ ?f]) simp
qed

definition demo_rh :: rec_header where
  "demo_rh = \<lparr>rh_ContentType = 22, rh_ContentLen = 14, rh_Major = 0xfe, rh_Minor = 0xfd, rh_Epoch = 0,
     rh_SequenceNumber = 5, rh_ConnectionID = []\<rparr>"

definition demo_hd :: bytes where
  "demo_hd = [22, 0xfe, 0xfd, 0, 0, 0, 0, 0, 0, 0, 5, 0, 14]"

lemma demo_carries: "carries fr (demo_hd @ fr)"
proof -
  have "rec_Marshal demo_rh = Inr demo_hd" by code_simp
  then show ?thesis unfolding carries_def
    by (intro exI [of _ demo_rh] exI [of _ demo_hd]) (simp add: demo_rh_def version_ok_def content_types)
qed

definition demo_msg :: hs_header where
  "demo_msg = \<lparr>hh_Type = 1, hh_Length = 3, hh_MessageSequence = 0, hh_FragmentOffset = 0, hh_FragmentLength = 3\<rparr>"

section \<open>Fragments of old messages are never removed\<close>

lemma stale_pushes:
  "\<lbrakk>\<forall>p\<in>set ps. \<exists>rh. frag_record rh h d p; \<forall>p\<in>set ps. length p = k;
    \<forall>x\<in>set (fb_cache f). fst x = hh_MessageSequence h\<rbrakk> \<Longrightarrow>
   (\<forall>x\<in>set (fb_cache (fb_pushes ps f)). fst x = hh_MessageSequence h) \<and> fb_current (fb_pushes ps f) = fb_current f \<and>
   (fb_size f + length ps * length d \<le> fb_size (fb_pushes ps f) \<or> fragmentBufferMaxSize \<le> fb_size (fb_pushes ps f) + k)"
proof (induction ps arbitrary: f)
  case (Cons p ps)
  obtain rh where p: "frag_record rh h d p" using Cons.prems(1) by auto
  have e: "fb_pushes (p # ps) f = fb_pushes ps (snd (fb_push p f))" by (simp add: fb_pushes_def)
  show ?case
  proof (cases "fb_size f + length p < fragmentBufferMaxSize")
    case True
    let ?f = "f\<lparr>fb_cache := cache_append (hh_MessageSequence h) \<lparr>fr_rec = rh, fr_hs = h, fr_data = d\<rparr> (fb_cache f)\<rparr>"
    have pu: "snd (fb_push p f) = ?f" using push_frag_record [OF p True] by simp
    have keys: "\<forall>x\<in>set (fb_cache ?f). fst x = hh_MessageSequence h"
    proof -
      have "set (map fst (fb_cache ?f)) \<subseteq> insert (hh_MessageSequence h) (set (map fst (fb_cache f)))"
        by (auto simp: cache_append_keys simp del: set_map)
      then show ?thesis using Cons.prems(3) by auto
    qed
    have "fb_size ?f = fb_size f + length d" by (simp add: fb_size_def size_cache_append)
    then show ?thesis unfolding e pu using Cons.IH [OF _ _ keys] Cons.prems(1,2) by auto
  next
    case False
    have "snd (fb_push p f) = f" using False by (simp add: fb_push_def)
    moreover have "fb_pushes qs f = f" if "\<forall>q\<in>set qs. length q = k" for qs
      using that False Cons.prems(2) by (induction qs) (auto simp: fb_pushes_def fb_push_def)
    ultimately show ?thesis unfolding e using Cons.prems(2,3) False by simp
  qed
qed (simp add: fb_pushes_def)

text \<open>
  Records of a message that was already put together are kept for good. After enough of them the
  buffer refuses every record that is not shorter, whatever it contains, and taking messages
  out does not help, since the old fragments have no number that is still waited for. The
  buffer is filled from records that are not encrypted, and every record passes through it, so
  a connection stops receiving.
\<close>

lemma stale_fragments_block:
  assumes "\<forall>p\<in>set ps. \<exists>rh. frag_record rh h d p" "\<forall>p\<in>set ps. length p = k" "d \<noteq> []" "2000000 \<le> length ps"
    and "hh_MessageSequence h < fb_current f" "fb_cache f = []"
  shows "let g = fb_pushes ps f in
    fb_pop g = Some (None, g) \<and> (\<forall>q. k \<le> length q \<longrightarrow> fb_push q g = (Inl ErrFragmentBufferOverflow, g))"
proof -
  let ?g = "fb_pushes ps f"
  have s: "\<forall>x\<in>set (fb_cache ?g). fst x = hh_MessageSequence h" "fb_current ?g = fb_current f"
    "fb_size f + length ps * length d \<le> fb_size ?g \<or> fragmentBufferMaxSize \<le> fb_size ?g + k"
    using stale_pushes [OF assms(1,2), of f] assms(6) by simp_all
  have "2000000 * 1 \<le> length ps * length d" using assms(3,4) by (intro mult_le_mono) (auto simp: Suc_le_eq)
  then have full: "fragmentBufferMaxSize \<le> fb_size ?g + k" using s(3) by (auto simp: fragmentBufferMaxSize_def)
  have "map_of (fb_cache ?g) (fb_current ?g) = None"
    using s(1,2) assms(5) by (force simp: map_of_eq_None_iff)
  then show ?thesis using full by (auto simp: fb_pop_def fb_push_def Let_def)
qed

end
