(* ===== verification/Dtls_Conn.thy ===== *)
theory Dtls_Conn
  imports Dtls_Fragment
begin

text \<open>
  The receiving side of a DTLS connection (\<^verbatim>\<open>golib/replace/dtls/conn.go\<close>): the handler of a
  record with its checks of epoch, replay, encryption and connection identifier, the hand-over
  to the fragment buffer and to the cache of handshake messages (\<^verbatim>\<open>handshake_cache.go\<close>), the
  queue of early records, and the delivery of application data.

  The cipher suite and the replay detector (a package outside the program) are arguments.
\<close>

section \<open>The handshake cache\<close>

record hs_item =
  hi_typ :: byte
  hi_isClient :: bool
  hi_epoch :: u16
  hi_messageSequence :: u16
  hi_data :: bytes

record pull_rule =
  pr_typ :: byte
  pr_epoch :: u16
  pr_isClient :: bool

definition hc_push :: "bytes \<Rightarrow> u16 \<Rightarrow> u16 \<Rightarrow> byte \<Rightarrow> bool \<Rightarrow> hs_item list \<Rightarrow> hs_item list" where
  "hc_push d epoch seq typ isClient h =
     h @ [\<lparr>hi_typ = typ, hi_isClient = isClient, hi_epoch = epoch, hi_messageSequence = seq, hi_data = d\<rparr>]"

text \<open>The item a rule selects: among the matching ones the last with a higher sequence number wins.\<close>

definition pull_match :: "pull_rule \<Rightarrow> hs_item \<Rightarrow> bool" where
  "pull_match r c \<longleftrightarrow> hi_typ c = pr_typ r \<and> hi_isClient c = pr_isClient r \<and> hi_epoch c = pr_epoch r"

definition pull_pick :: "pull_rule \<Rightarrow> hs_item \<Rightarrow> hs_item option \<Rightarrow> hs_item option" where
  "pull_pick r c out =
     (if pull_match r c
      then (case out of
          None \<Rightarrow> Some c
        | Some x \<Rightarrow> if hi_messageSequence x < hi_messageSequence c then Some c else out)
      else out)"

definition hc_pull :: "pull_rule list \<Rightarrow> hs_item list \<Rightarrow> hs_item option list" where
  "hc_pull rules h = map (\<lambda>r. fold (pull_pick r) h None) rules"

definition hc_pullAndMerge :: "pull_rule list \<Rightarrow> hs_item list \<Rightarrow> bytes" where
  "hc_pullAndMerge rules h = concat (map (\<lambda>p. case p of None \<Rightarrow> [] | Some x \<Rightarrow> hi_data x) (hc_pull rules h))"

section \<open>The connection\<close>

text \<open>
  The environment: the replay detector with its test of a number and its acceptance, which says
  whether the number is the latest, and the decryption, given the length of the connection
  identifier to expect.
\<close>

record 'r dtls_env =
  dv_new :: 'r
  dv_check :: "u64 \<Rightarrow> 'r \<Rightarrow> bool"
  dv_accept :: "u64 \<Rightarrow> 'r \<Rightarrow> bool \<times> 'r"
  dv_decrypt :: "nat \<Rightarrow> bytes \<Rightarrow> bytes option"

definition maxAppDataPacketQueueSize :: nat where "maxAppDataPacketQueueSize = 100"

record 'r dtls_conn =
  dx_isClient :: bool
  dx_localCID :: bytes
  dx_remoteEpoch :: u16
  dx_cipherReady :: bool
  dx_detectors :: "'r list"
  dx_frag :: frag_buffer
  dx_hsCache :: "hs_item list"
  dx_queue :: "(nat \<times> bytes) list"
  dx_decrypted :: "bytes list"
  dx_rAddr :: nat

definition enqueueEncryptedPackets :: "nat \<times> bytes \<Rightarrow> 'r dtls_conn \<Rightarrow> 'r dtls_conn" where
  "enqueueEncryptedPackets pkt c =
     (if length (dx_queue c) < maxAppDataPacketQueueSize then c\<lparr>dx_queue := dx_queue c @ [pkt]\<rparr> else c)"

text \<open>The detectors up to an epoch.\<close>

definition grow_detectors :: "'r dtls_env \<Rightarrow> u16 \<Rightarrow> 'r dtls_conn \<Rightarrow> 'r dtls_conn" where
  "grow_detectors v e c =
     c\<lparr>dx_detectors := dx_detectors c @ replicate (unat e + 1 - length (dx_detectors c)) (dv_new v)\<rparr>"

definition markPacketAsValid :: "'r dtls_env \<Rightarrow> rec_header \<Rightarrow> 'r dtls_conn \<Rightarrow> bool \<times> 'r dtls_conn" where
  "markPacketAsValid v h c =
     (let e = unat (rh_Epoch h); a = dv_accept v (rh_SequenceNumber h) (dx_detectors c ! e)
      in (fst a, c\<lparr>dx_detectors := (dx_detectors c)[e := snd a]\<rparr>))"

text \<open>
  The record is marked, and the address of the peer follows the latest record with a
  connection identifier.
\<close>

definition accept_record :: "'r dtls_env \<Rightarrow> rec_header \<Rightarrow> bool \<Rightarrow> nat \<Rightarrow> 'r dtls_conn \<Rightarrow> 'r dtls_conn" where
  "accept_record v h originalCID addr c =
     (let m = markPacketAsValid v h c
      in if originalCID \<and> fst m then (snd m)\<lparr>dx_rAddr := addr\<rparr> else snd m)"

text \<open>
  The decryption part of the handler. A record is discarded, with or without being queued for
  later, or goes on as the plain record with the flag that it had a connection identifier.
\<close>

datatype decrypted = Discard | Later | Plain bytes bool | DecPanic

definition decrypt_record :: "'r dtls_env \<Rightarrow> 'r dtls_conn \<Rightarrow> rec_header \<Rightarrow> bytes \<Rightarrow> decrypted" where
  "decrypt_record v c h buf =
     (if rh_Epoch h = 0 then Plain buf False
      else if \<not> dx_cipherReady c then Later
      else if 0 < length (dx_localCID c) \<and> rh_ContentType h \<noteq> ContentTypeConnectionID then Discard
      else case dv_decrypt v (if rh_ContentType h = ContentTypeConnectionID then length (dx_localCID c) else 0) buf of
        None \<Rightarrow> Discard
      | Some b \<Rightarrow>
          if rh_ContentType h = ContentTypeConnectionID then
            (if length b < rec_Size h then DecPanic
             else case inner_Unmarshal (drop (rec_Size h) b) of
               None \<Rightarrow> DecPanic
             | Some (Inl _) \<Rightarrow> Discard
             | Some (Inr ip) \<Rightarrow>
                 (case rec_Marshal \<lparr>rh_ContentType = ip_RealType ip, rh_ContentLen = u16_len (length (ip_Content ip)),
                     rh_Major = rh_Major h, rh_Minor = rh_Minor h, rh_Epoch = rh_Epoch h,
                     rh_SequenceNumber = rh_SequenceNumber h, rh_ConnectionID = []\<rparr> of
                    Inl _ \<Rightarrow> Discard
                  | Inr hdr \<Rightarrow>
                      if dx_localCID c \<noteq> rh_ConnectionID h then Discard else Plain (hdr @ ip_Content ip) True))
          else if dx_localCID c \<noteq> rh_ConnectionID h then Discard
          else Plain b False)"

text \<open>The loop that takes the complete messages out of the fragment buffer.\<close>

function pop_all :: "bool \<Rightarrow> frag_buffer \<Rightarrow> hs_item list \<Rightarrow> frag_buffer \<times> hs_item list" where
  "pop_all fromClient f hc =
     (case fb_pop f of
        None \<Rightarrow> (f, hc)
      | Some (None, f') \<Rightarrow> (f', hc)
      | Some (Some (out, epoch), f') \<Rightarrow>
          (case hs_Unmarshal out of
             Inl _ \<Rightarrow> pop_all fromClient f' hc
           | Inr h \<Rightarrow> pop_all fromClient f' (hc_push out epoch (hh_MessageSequence h) (hh_Type h) fromClient hc)))"
  by pat_completeness auto
termination by (relation "measure (\<lambda>(i, f, hc). length (fb_cache f))") (auto intro: fb_pop_shrinks)

declare pop_all.simps [simp del]

text \<open>
  What the handler returns: whether the record was a handshake, whether it was a retransmission,
  the alert to send and the error.
\<close>

datatype dtls_fault = AlertReceived byte byte | DecodeFault dtls_error | AppDataEpochZero

record dtls_reply =
  re_handshake :: bool
  re_retransmit :: bool
  re_alert :: "(byte \<times> byte) option"
  re_fault :: "dtls_fault option"

definition silent :: dtls_reply where
  "silent = \<lparr>re_handshake = False, re_retransmit = False, re_alert = None, re_fault = None\<rparr>"

text \<open>The part of the handler for a plain record that is not a handshake.\<close>

definition handle_content ::
    "'r dtls_env \<Rightarrow> rec_header \<Rightarrow> bytes \<Rightarrow> bool \<Rightarrow> nat \<Rightarrow> bool \<Rightarrow> 'r dtls_conn \<Rightarrow> dtls_reply \<times> 'r dtls_conn" where
  "handle_content v h buf originalCID addr enqueue c =
     (case record_Unmarshal buf of
        Inl e \<Rightarrow> (silent\<lparr>re_alert := Some (2, 50), re_fault := Some (DecodeFault e)\<rparr>, c)
      | Inr (_, AlertMsg level desc) \<Rightarrow>
          (silent\<lparr>re_alert := if desc = 0 then Some (1, 0) else None, re_fault := Some (AlertReceived level desc)\<rparr>,
           snd (markPacketAsValid v h c))
      | Inr (_, CCS) \<Rightarrow>
          if \<not> dx_cipherReady c then
            (silent, if enqueue then enqueueEncryptedPackets (addr, buf) c else c)
          else let newRemoteEpoch = rh_Epoch h + 1 in
            if dx_remoteEpoch c + 1 = newRemoteEpoch then
              (silent, accept_record v h originalCID addr (c\<lparr>dx_remoteEpoch := newRemoteEpoch\<rparr>))
            else (silent, c)
      | Inr (_, AppData d) \<Rightarrow>
          if rh_Epoch h = 0 then (silent\<lparr>re_alert := Some (2, 10), re_fault := Some AppDataEpochZero\<rparr>, c)
          else (silent, accept_record v h originalCID addr (c\<lparr>dx_decrypted := dx_decrypted c @ [d]\<rparr>))
      | Inr (_, HandshakeRaw _) \<Rightarrow> (silent\<lparr>re_alert := Some (2, 10), re_fault := Some (DecodeFault ErrInvalidContentType)\<rparr>, c))"

text \<open>\<^verbatim>\<open>handleIncomingPacket\<close>; \<open>None\<close> is a panic.\<close>

definition handleIncomingPacket ::
    "'r dtls_env \<Rightarrow> bytes \<Rightarrow> nat \<Rightarrow> bool \<Rightarrow> 'r dtls_conn \<Rightarrow> (dtls_reply \<times> 'r dtls_conn) option" where
  "handleIncomingPacket v buf addr enqueue c =
     (case rec_Unmarshal buf (rec_header0\<lparr>rh_ConnectionID := replicate (length (dx_localCID c)) 0\<rparr>) of
        Inl _ \<Rightarrow> Some (silent, c)
      | Inr h \<Rightarrow>
          if dx_remoteEpoch c < rh_Epoch h then
            (if dx_remoteEpoch c + 1 < rh_Epoch h then Some (silent, c)
             else Some (silent, if enqueue then enqueueEncryptedPackets (addr, buf) c else c))
          else let c1 = grow_detectors v (rh_Epoch h) c in
            if \<not> dv_check v (rh_SequenceNumber h) (dx_detectors c1 ! unat (rh_Epoch h)) then Some (silent, c1)
            else case decrypt_record v c1 h buf of
              DecPanic \<Rightarrow> None
            | Discard \<Rightarrow> Some (silent, c1)
            | Later \<Rightarrow> Some (silent, if enqueue then enqueueEncryptedPackets (addr, buf) c1 else c1)
            | Plain b originalCID \<Rightarrow>
                (case fb_push b (dx_frag c1) of
                   (Inl _, f) \<Rightarrow> Some (silent, c1\<lparr>dx_frag := f\<rparr>)
                 | (Inr (True, rt), f) \<Rightarrow>
                     (let c2 = snd (markPacketAsValid v h (c1\<lparr>dx_frag := f\<rparr>));
                          m = pop_all (\<not> dx_isClient c) (dx_frag c2) (dx_hsCache c2)
                      in Some (silent\<lparr>re_handshake := True, re_retransmit := rt\<rparr>, c2\<lparr>dx_frag := fst m, dx_hsCache := snd m\<rparr>))
                 | (Inr (False, _), f) \<Rightarrow> Some (handle_content v h b originalCID addr enqueue (c1\<lparr>dx_frag := f\<rparr>))))"

section \<open>Which records were accepted\<close>

text \<open>What a replay detector promises, with the set of numbers it has accepted.\<close>

definition detector_ok :: "'r dtls_env \<Rightarrow> ('r \<Rightarrow> u64 set) \<Rightarrow> bool" where
  "detector_ok v spent \<longleftrightarrow> spent (dv_new v) = {} \<and>
     (\<forall>s r. dv_check v s r \<longrightarrow> s \<notin> spent r) \<and>
     (\<forall>s r. insert s (spent r) \<subseteq> spent (snd (dv_accept v s r)))"

definition seen :: "('r \<Rightarrow> u64 set) \<Rightarrow> 'r dtls_conn \<Rightarrow> (u16 \<times> u64) set" where
  "seen spent c = {(e, s). unat e < length (dx_detectors c) \<and> s \<in> spent (dx_detectors c ! unat e)}"

lemma seen_cong: "dx_detectors c' = dx_detectors c \<Longrightarrow> seen spent c' = seen spent c"
  by (simp add: seen_def)

lemma grow_length: "unat e < length (dx_detectors (grow_detectors v e c))"
  by (simp add: grow_detectors_def)

lemma seen_grow: "detector_ok v spent \<Longrightarrow> seen spent (grow_detectors v e c) = seen spent c"
proof -
  assume "detector_ok v spent"
  then have "spent ((dx_detectors c @ replicate n (dv_new v)) ! i) = (if i < length (dx_detectors c) then spent (dx_detectors c ! i) else {})"
    if "i < length (dx_detectors c) + n" for i n
    using that by (simp add: nth_append detector_ok_def)
  then show ?thesis by (auto simp: seen_def grow_detectors_def split: if_splits)
qed

lemma mark_fields [simp]:
  "dx_decrypted (snd (markPacketAsValid v h c)) = dx_decrypted c"
  "dx_queue (snd (markPacketAsValid v h c)) = dx_queue c"
  "dx_remoteEpoch (snd (markPacketAsValid v h c)) = dx_remoteEpoch c"
  "length (dx_detectors (snd (markPacketAsValid v h c))) = length (dx_detectors c)"
  by (simp_all add: markPacketAsValid_def Let_def)

lemma accept_fields [simp]:
  "dx_decrypted (accept_record v h cid addr c) = dx_decrypted c"
  "dx_queue (accept_record v h cid addr c) = dx_queue c"
  "dx_detectors (accept_record v h cid addr c) = dx_detectors (snd (markPacketAsValid v h c))"
  by (simp_all add: accept_record_def Let_def)

lemma seen_mark:
  assumes "detector_ok v spent" "unat (rh_Epoch h) < length (dx_detectors c)"
  shows "insert (rh_Epoch h, rh_SequenceNumber h) (seen spent c) \<subseteq> seen spent (snd (markPacketAsValid v h c))"
proof -
  let ?s = "rh_SequenceNumber h" and ?r = "dx_detectors c ! unat (rh_Epoch h)"
  have "insert ?s (spent ?r) \<subseteq> spent (snd (dv_accept v ?s ?r))" using assms(1) by (simp add: detector_ok_def)
  then show ?thesis using assms(2) by (auto simp: seen_def markPacketAsValid_def Let_def nth_list_update) blast
qed

lemma seen_accept:
  assumes "detector_ok v spent" "unat (rh_Epoch h) < length (dx_detectors c)"
  shows "insert (rh_Epoch h, rh_SequenceNumber h) (seen spent c) \<subseteq> seen spent (accept_record v h cid addr c)"
  using seen_mark [OF assms] seen_cong [OF accept_fields(3), of spent v h cid addr c] by simp

lemma grow_fields [simp]:
  "dx_decrypted (grow_detectors v e c) = dx_decrypted c" "dx_queue (grow_detectors v e c) = dx_queue c"
  "dx_remoteEpoch (grow_detectors v e c) = dx_remoteEpoch c" "dx_localCID (grow_detectors v e c) = dx_localCID c"
  "dx_cipherReady (grow_detectors v e c) = dx_cipherReady c" "dx_frag (grow_detectors v e c) = dx_frag c"
  "dx_hsCache (grow_detectors v e c) = dx_hsCache c"
  by (simp_all add: grow_detectors_def)

lemma enqueue_fields [simp]:
  "dx_decrypted (enqueueEncryptedPackets p c) = dx_decrypted c" "dx_detectors (enqueueEncryptedPackets p c) = dx_detectors c"
  "dx_remoteEpoch (enqueueEncryptedPackets p c) = dx_remoteEpoch c"
  by (simp_all add: enqueueEncryptedPackets_def)

lemma enqueue_bound:
  "length (dx_queue c) \<le> 100 \<Longrightarrow> length (dx_queue (enqueueEncryptedPackets p c)) \<le> 100"
  by (simp add: enqueueEncryptedPackets_def maxAppDataPacketQueueSize_def)

text \<open>The application data in a plain record that is handled.\<close>

lemma handle_content_cases:
  assumes "detector_ok v spent" "unat (rh_Epoch h) < length (dx_detectors c)"
    and "handle_content v h b cid addr enqueue c = (r, c')"
  shows "seen spent c \<subseteq> seen spent c' \<and> (length (dx_queue c) \<le> 100 \<longrightarrow> length (dx_queue c') \<le> 100) \<and>
    (dx_decrypted c' = dx_decrypted c \<or>
     (\<exists>h' d. record_Unmarshal b = Inr (h', AppData d) \<and> rh_Epoch h \<noteq> 0 \<and>
        dx_decrypted c' = dx_decrypted c @ [d] \<and> (rh_Epoch h, rh_SequenceNumber h) \<in> seen spent c'))"
proof (cases "record_Unmarshal b")
  case (Inl e)
  then show ?thesis using assms(3) by (auto simp: handle_content_def)
next
  case (Inr x)
  obtain h' k where x: "x = (h', k)" by (cases x)
  show ?thesis
  proof (cases k)
    case CCS
    then consider "c' = c" | "c' = enqueueEncryptedPackets (addr, b) c"
      | "c' = accept_record v h cid addr (c\<lparr>dx_remoteEpoch := rh_Epoch h + 1\<rparr>)"
      using assms(3) Inr x by (auto simp: handle_content_def Let_def split: if_splits)
    then show ?thesis
    proof cases
      case 2
      then show ?thesis using enqueue_bound [of c "(addr, b)"] by (simp add: seen_def)
    next
      case 3
      then show ?thesis
        using seen_accept [OF assms(1), of h "c\<lparr>dx_remoteEpoch := rh_Epoch h + 1\<rparr>" cid addr] assms(2)
        by (auto simp: seen_def)
    qed simp
  next
    case (AlertMsg level desc)
    then show ?thesis using assms(3) Inr x seen_mark [OF assms(1,2)] by (auto simp: handle_content_def)
  next
    case (HandshakeRaw raw)
    then show ?thesis using assms(3) Inr x by (auto simp: handle_content_def)
  next
    case (AppData d)
    then show ?thesis
      using assms(3) Inr x seen_accept [OF assms(1), of h "c\<lparr>dx_decrypted := dx_decrypted c @ [d]\<rparr>" cid addr] assms(2)
      by (auto simp: handle_content_def seen_def split: if_splits)
  qed
qed

section \<open>Application data is authentic and delivered once\<close>

text \<open>The header the handler reads from a record.\<close>

definition incoming_header :: "bytes \<Rightarrow> 'r dtls_conn \<Rightarrow> dtls_error + rec_header" where
  "incoming_header buf c = rec_Unmarshal buf (rec_header0\<lparr>rh_ConnectionID := replicate (length (dx_localCID c)) 0\<rparr>)"

text \<open>
  The data \<open>d\<close> is what the keys of the connection give for a record: the content of the decrypted
  record, or of its inner plaintext.
\<close>

definition opens_to :: "'r dtls_env \<Rightarrow> rec_header \<Rightarrow> bytes \<Rightarrow> bytes \<Rightarrow> bool" where
  "opens_to v h buf d \<longleftrightarrow>
     (\<exists>n x. dv_decrypt v n buf = Some x \<and>
        (if rh_ContentType h = ContentTypeConnectionID
         then \<exists>ip. inner_Unmarshal (drop (rec_Size h) x) = Some (Inr ip) \<and> ip_Content ip = d \<and> ip_RealType ip = ContentTypeApplicationData
         else \<exists>h'. record_Unmarshal x = Inr (h', AppData d)))"

lemma record_Unmarshal_AppData:
  assumes "rec_Marshal g = Inr hdr" "rh_ConnectionID g = []" "record_Unmarshal (hdr @ c) = Inr (h', AppData d)"
  shows "d = c \<and> rh_ContentType g = ContentTypeApplicationData"
proof -
  have len: "length hdr = 13" using assms(1,2) by (auto simp: rec_Marshal_def split: if_splits)
  have ct: "hdr ! 0 = rh_ContentType g" using assms(1) by (auto simp: rec_Marshal_def split: if_splits)
  obtain k where k: "rec_Unmarshal (hdr @ c) rec_header0 = Inr k" using assms(3) by (auto simp: record_Unmarshal_def split: sum.splits)
  then have "rh_ContentType k = rh_ContentType g" "rh_ConnectionID k = []"
    using len ct by (auto simp: rec_Unmarshal_def Let_def rec_header0_def nth_append split: if_splits)
  then show ?thesis using assms(3) k len
    by (auto simp: record_Unmarshal_def Let_def rec_Size_def FixedHeaderSize_def split: if_splits)
qed

lemma decrypt_opens:
  assumes "decrypt_record v c h buf = Plain b cid" "rh_Epoch h \<noteq> 0" "record_Unmarshal b = Inr (h', AppData d)"
  shows "dx_cipherReady c \<and> opens_to v h buf d"
proof -
  obtain n x where x: "dv_decrypt v n buf = Some x" "dx_cipherReady c"
    and p: "if rh_ContentType h = ContentTypeConnectionID then
        \<exists>ip g hdr. inner_Unmarshal (drop (rec_Size h) x) = Some (Inr ip) \<and> rec_Marshal g = Inr hdr \<and> rh_ConnectionID g = [] \<and>
          rh_ContentType g = ip_RealType ip \<and> b = hdr @ ip_Content ip
      else b = x"
    using assms(1,2) by (auto simp: decrypt_record_def split: if_splits option.splits sum.splits) (metis rec_header.select_convs(1,7))+
  show ?thesis
  proof (cases "rh_ContentType h = ContentTypeConnectionID")
    case True
    then obtain ip g hdr where i: "inner_Unmarshal (drop (rec_Size h) x) = Some (Inr ip)" "rec_Marshal g = Inr hdr"
      "rh_ConnectionID g = []" "rh_ContentType g = ip_RealType ip" "b = hdr @ ip_Content ip" using p by auto
    have "d = ip_Content ip \<and> rh_ContentType g = ContentTypeApplicationData"
      using record_Unmarshal_AppData [OF i(2,3)] assms(3) i(5) by simp
    then show ?thesis unfolding opens_to_def using x i True by auto
  next
    case False
    then show ?thesis unfolding opens_to_def using x p assms(3) by auto
  qed
qed

lemma handle_cases:
  assumes ok: "detector_ok v spent" and r: "handleIncomingPacket v buf addr enqueue c = Some (r, c')"
  shows "seen spent c \<subseteq> seen spent c' \<and> (length (dx_queue c) \<le> 100 \<longrightarrow> length (dx_queue c') \<le> 100) \<and>
    (dx_decrypted c' = dx_decrypted c \<or>
     (\<exists>h d. incoming_header buf c = Inr h \<and> rh_Epoch h \<noteq> 0 \<and> rh_Epoch h \<le> dx_remoteEpoch c \<and> dx_cipherReady c \<and>
        opens_to v h buf d \<and> dx_decrypted c' = dx_decrypted c @ [d] \<and>
        (rh_Epoch h, rh_SequenceNumber h) \<notin> seen spent c \<and> (rh_Epoch h, rh_SequenceNumber h) \<in> seen spent c'))"
proof (cases "incoming_header buf c")
  case (Inl e)
  then show ?thesis using r by (auto simp: handleIncomingPacket_def incoming_header_def)
next
  case (Inr h)
  let ?c1 = "grow_detectors v (rh_Epoch h) c"
  note H = Inr [unfolded incoming_header_def]
  show ?thesis
  proof (cases "dx_remoteEpoch c < rh_Epoch h")
    case True
    then show ?thesis using r H enqueue_bound [of c "(addr, buf)"]
      by (auto simp: handleIncomingPacket_def seen_def split: if_splits)
  next
    case False
    have sg: "seen spent ?c1 = seen spent c" using seen_grow [OF ok] .
    show ?thesis
    proof (cases "dv_check v (rh_SequenceNumber h) (dx_detectors ?c1 ! unat (rh_Epoch h))")
      case nc: False
      then show ?thesis using r H False sg by (auto simp: handleIncomingPacket_def Let_def)
    next
      case chk: True
      have new: "(rh_Epoch h, rh_SequenceNumber h) \<notin> seen spent c"
        unfolding sg [symmetric] using chk ok by (auto simp: seen_def detector_ok_def)
      show ?thesis
      proof (cases "decrypt_record v ?c1 h buf")
        case Discard
        then show ?thesis using r H False chk sg by (auto simp: handleIncomingPacket_def Let_def)
      next
        case Later
        have "seen spent (enqueueEncryptedPackets p ?c1) = seen spent c" for p using sg by (simp add: seen_def)
        then show ?thesis using Later r H False chk sg enqueue_bound [of ?c1 "(addr, buf)"]
          by (auto simp: handleIncomingPacket_def Let_def)
      next
        case DecPanic
        then show ?thesis using r H False chk by (simp add: handleIncomingPacket_def Let_def)
      next
        case (Plain b cid)
        obtain q f where q: "fb_push b (dx_frag ?c1) = (q, f)" by (cases "fb_push b (dx_frag ?c1)")
        have sf: "seen spent (?c1\<lparr>dx_frag := f\<rparr>) = seen spent c" using sg by (simp add: seen_def)
        have len: "unat (rh_Epoch h) < length (dx_detectors (?c1\<lparr>dx_frag := f\<rparr>))" using grow_length [of "rh_Epoch h" v c] by simp
        show ?thesis
        proof (cases "\<exists>rt. q = Inr (False, rt)")
          case True
          then have hc: "handle_content v h b cid addr enqueue (?c1\<lparr>dx_frag := f\<rparr>) = (r, c')"
            using r H False chk Plain q by (auto simp: handleIncomingPacket_def Let_def)
          show ?thesis using handle_content_cases [OF ok len hc] Inr False new sf decrypt_opens [OF Plain]
            by (auto simp: not_less)
        next
          case nf: False
          let ?c2 = "snd (markPacketAsValid v h (?c1\<lparr>dx_frag := f\<rparr>))"
          have "c' = ?c1\<lparr>dx_frag := f\<rparr> \<or> (\<exists>f' hc. c' = ?c2\<lparr>dx_frag := f', dx_hsCache := hc\<rparr>)"
            using nf r H False chk Plain q
            by (cases q) (auto simp: handleIncomingPacket_def Let_def split: prod.splits bool.splits)
          moreover have "seen spent (?c2\<lparr>dx_frag := f', dx_hsCache := hc\<rparr>) = seen spent ?c2" for f' hc by (simp add: seen_def)
          ultimately show ?thesis using seen_mark [OF ok len] sf by auto
        qed
      qed
    qed
  qed
qed

text \<open>A run over records, each with its source address and whether it may be queued.\<close>

fun dtls_run :: "'r dtls_env \<Rightarrow> (bytes \<times> nat \<times> bool) list \<Rightarrow> 'r dtls_conn \<Rightarrow> ((u16 \<times> u64) list \<times> 'r dtls_conn) option" where
  "dtls_run v [] c = Some ([], c)"
| "dtls_run v ((buf, addr, enqueue) # ps) c =
     (case handleIncomingPacket v buf addr enqueue c of
        None \<Rightarrow> None
      | Some (_, c') \<Rightarrow>
          (case dtls_run v ps c' of
             None \<Rightarrow> None
           | Some (ds, c'') \<Rightarrow>
               Some ((if dx_decrypted c' \<noteq> dx_decrypted c
                      then (case incoming_header buf c of Inr h \<Rightarrow> [(rh_Epoch h, rh_SequenceNumber h)] | Inl _ \<Rightarrow> [])
                      else []) @ ds, c'')))"

lemma dtls_run_distinct:
  "detector_ok v spent \<Longrightarrow> dtls_run v ps c = Some (ds, c') \<Longrightarrow>
     distinct ds \<and> set ds \<inter> seen spent c = {} \<and> set ds \<subseteq> seen spent c' \<and> seen spent c \<subseteq> seen spent c' \<and>
     length (dx_decrypted c') = length (dx_decrypted c) + length ds \<and> (\<forall>x\<in>set ds. fst x \<noteq> 0) \<and>
     (length (dx_queue c) \<le> 100 \<longrightarrow> length (dx_queue c') \<le> 100)"
proof (induction v ps c arbitrary: ds rule: dtls_run.induct)
  case (2 v buf addr enqueue ps c)
  obtain r c1 where h: "handleIncomingPacket v buf addr enqueue c = Some (r, c1)"
    using 2(3) by (auto split: option.splits)
  obtain ds1 where d: "dtls_run v ps c1 = Some (ds1, c')" using 2(3) h by (auto split: option.splits)
  note ih = 2(1) [OF h refl 2(2) d]
  note hc = handle_cases [OF 2(2) h]
  show ?case
  proof (cases "dx_decrypted c1 = dx_decrypted c")
    case True
    then show ?thesis using ih hc 2(3) h d by auto
  next
    case False
    then obtain hd x where g: "incoming_header buf c = Inr hd" "rh_Epoch hd \<noteq> 0" "dx_decrypted c1 = dx_decrypted c @ [x]"
      "(rh_Epoch hd, rh_SequenceNumber hd) \<notin> seen spent c" "(rh_Epoch hd, rh_SequenceNumber hd) \<in> seen spent c1"
      using hc by blast
    have "ds = (rh_Epoch hd, rh_SequenceNumber hd) # ds1" using 2(3) h d g by simp
    then show ?thesis using ih hc g by auto
  qed
qed simp

text \<open>
  C8: Application data is authentic, fresh and delivered once. Whatever records arrive, from whatever
  address and in whatever order, a record adds to the received data only if its epoch is a
  protected one that the peer has switched to, its number was not accepted before and the keys
  of the connection open it to exactly this data; no two deliveries have the same epoch and
  number, and at most 100 early records are queued.
\<close>

theorem dtls_delivery_authentic_once:
  assumes "detector_ok v spent"
  shows "(case handleIncomingPacket v buf addr enqueue c of
      None \<Rightarrow> True
    | Some (r, c') \<Rightarrow>
        dx_decrypted c' = dx_decrypted c \<or>
        (\<exists>h d. incoming_header buf c = Inr h \<and> rh_Epoch h \<noteq> 0 \<and> rh_Epoch h \<le> dx_remoteEpoch c \<and> dx_cipherReady c \<and>
           opens_to v h buf d \<and> dx_decrypted c' = dx_decrypted c @ [d])) \<and>
   (case dtls_run v ps c of
      None \<Rightarrow> True
    | Some (ds, c') \<Rightarrow> distinct ds \<and> length (dx_decrypted c') = length (dx_decrypted c) + length ds \<and>
        (length (dx_queue c) \<le> 100 \<longrightarrow> length (dx_queue c') \<le> 100))"
  using handle_cases [OF assms, of buf addr enqueue c] dtls_run_distinct [OF assms, of ps c]
  by (auto split: option.splits) blast+

definition toy_env :: "u64 list dtls_env" where
  "toy_env = \<lparr>dv_new = [], dv_check = \<lambda>s r. s \<notin> set r, dv_accept = \<lambda>s r. (True, s # r), dv_decrypt = \<lambda>n b. Some b\<rparr>"

definition toy_conn :: "u64 list dtls_conn" where
  "toy_conn = \<lparr>dx_isClient = True, dx_localCID = [], dx_remoteEpoch = 1, dx_cipherReady = True, dx_detectors = [],
     dx_frag = newFragmentBuffer, dx_hsCache = [], dx_queue = [], dx_decrypted = [], dx_rAddr = 0\<rparr>"

definition toy_record :: bytes where
  "toy_record = [23, 0xfe, 0xfd, 0, 1, 0, 0, 0, 0, 0, 5, 0, 2, 7, 8]"

definition toy_header :: rec_header where
  "toy_header = \<lparr>rh_ContentType = 23, rh_ContentLen = 0, rh_Major = 0xfe, rh_Minor = 0xfd, rh_Epoch = 1,
     rh_SequenceNumber = 5, rh_ConnectionID = []\<rparr>"

lemma toy_parse:
  "rec_Unmarshal toy_record rec_header0 = Inr toy_header" "record_Unmarshal toy_record = Inr (toy_header, AppData [7, 8])"
  by code_simp+

lemma toy_push: "fb_push toy_record newFragmentBuffer = (Inr (False, False), newFragmentBuffer)"
  by (simp add: fb_push_def toy_parse toy_header_def content_types newFragmentBuffer_def fb_size_def fragmentBufferMaxSize_def toy_record_def [symmetric])
    (simp add: toy_record_def)

theorem dtls_delivery_authentic_once_witness:
  "\<exists>ds c'. dtls_run toy_env [(toy_record, 4, True), (toy_record, 4, True)] toy_conn = Some (ds, c') \<and>
     distinct ds \<and> length (dx_decrypted c') = length ds \<and> dx_decrypted c' = [[7, 8]]"
proof -
  have ok: "detector_ok toy_env set" by (auto simp: detector_ok_def toy_env_def)
  have f: "rec_header0\<lparr>rh_ConnectionID := []\<rparr> = rec_header0" by (simp add: rec_header0_def)
  have "\<exists>ds c'. dtls_run toy_env [(toy_record, 4, True), (toy_record, 4, True)] toy_conn = Some (ds, c') \<and> dx_decrypted c' = [[7, 8]]"
    by (simp add: handleIncomingPacket_def toy_conn_def f toy_parse toy_header_def grow_detectors_def toy_env_def decrypt_record_def
        content_types toy_push handle_content_def accept_record_def markPacketAsValid_def)
  then show ?thesis
    using dtls_delivery_authentic_once [OF ok, where c = toy_conn and ps = "[(toy_record, 4, True), (toy_record, 4, True)]"]
    by (auto simp: toy_conn_def)
qed

section \<open>What the handshake cache returns\<close>

lemma pull_pick_inv:
  assumes "case out of None \<Rightarrow> \<forall>y\<in>set h. \<not> pull_match r y
    | Some x \<Rightarrow> x \<in> set h \<and> pull_match r x \<and> (\<forall>y\<in>set h. pull_match r y \<longrightarrow> hi_messageSequence y \<le> hi_messageSequence x)"
  shows "case pull_pick r c out of None \<Rightarrow> \<forall>y\<in>set (h @ [c]). \<not> pull_match r y
    | Some x \<Rightarrow> x \<in> set (h @ [c]) \<and> pull_match r x \<and> (\<forall>y\<in>set (h @ [c]). pull_match r y \<longrightarrow> hi_messageSequence y \<le> hi_messageSequence x)"
  using assms by (fastforce simp: pull_pick_def not_less split: option.splits if_splits)

text \<open>A rule selects a message that matches it with the highest sequence number, if any matches.\<close>

lemma hc_pull_best:
  "case fold (pull_pick r) h None of
     None \<Rightarrow> \<forall>y\<in>set h. \<not> pull_match r y
   | Some x \<Rightarrow> x \<in> set h \<and> pull_match r x \<and> (\<forall>y\<in>set h. pull_match r y \<longrightarrow> hi_messageSequence y \<le> hi_messageSequence x)"
proof (induction h rule: rev_induct)
  case (snoc c h)
  show ?case using pull_pick_inv [OF snoc.IH] by simp
qed simp


section \<open>The type of a connection\<close>

text \<open>
  A message in the handshake cache has a whole header, with the type and the number it is filed
  under; the fragment buffer is well formed and below its limit; the queue holds at most 100
  records.
\<close>

definition item_ok :: "hs_item \<Rightarrow> bool" where
  "item_ok i \<longleftrightarrow> (case hs_Unmarshal (hi_data i) of
     Inl _ \<Rightarrow> False
   | Inr h \<Rightarrow> hh_Type h = hi_typ i \<and> hh_MessageSequence h = hi_messageSequence i \<and> hh_FragmentOffset h = 0 \<and>
       hh_FragmentLength h = hh_Length h)"

definition frag_limited :: "frag_buffer \<Rightarrow> bool" where
  "frag_limited f \<longleftrightarrow> fb_inv f \<and> fb_size f < fragmentBufferMaxSize"

definition conn_ok :: "'r dtls_conn \<Rightarrow> bool" where
  "conn_ok c \<longleftrightarrow> frag_limited (dx_frag c) \<and> list_all item_ok (dx_hsCache c) \<and> length (dx_queue c) \<le> 100"

lemma push_loop_size: "fb_size (snd (push_loop rh buf rt f)) \<le> fb_size f + length buf"
proof (induction rh buf rt f rule: push_loop.induct)
  case (1 rh buf rt f)
  show ?case
  proof (cases "buf = [] \<or> isl (hs_Unmarshal buf)")
    case True
    then show ?thesis by (subst push_loop.simps) (auto split: sum.splits)
  next
    case False
    then obtain h where h: "hs_Unmarshal buf = Inr h" by (cases "hs_Unmarshal buf") auto
    let ?e = "min (length buf) (HeaderLength + unat (hh_Length h))"
    let ?fr = "\<lparr>fr_rec = rh, fr_hs = h, fr_data = take (?e - HeaderLength) (drop HeaderLength buf)\<rparr>"
    let ?f = "f\<lparr>fb_cache := cache_append (hh_MessageSequence h) ?fr (fb_cache f)\<rparr>"
    have m: "(if length buf < HeaderLength + unat (hh_Length h) then length buf else HeaderLength + unat (hh_Length h)) = ?e" by auto
    have "fb_size ?f = fb_size f + length (fr_data ?fr)" by (simp add: fb_size_def size_cache_append)
    moreover have "length (fr_data ?fr) \<le> ?e" by (simp add: min_def)
    moreover have "fb_size (snd (push_loop rec_header0 (drop ?e buf) (hh_FragmentOffset h = 0 \<and> hh_MessageSequence h < fb_current f) ?f))
        \<le> fb_size ?f + (length buf - ?e)"
      using 1 [OF _ h refl refl refl refl] False m by simp
    ultimately have "fb_size (snd (push_loop rec_header0 (drop ?e buf) (hh_FragmentOffset h = 0 \<and> hh_MessageSequence h < fb_current f) ?f))
        \<le> fb_size f + length buf" by linarith
    then show ?thesis by (subst push_loop.simps) (use False h in \<open>simp add: Let_def m\<close>)
  qed
qed

lemma fb_push_limited: "frag_limited f \<Longrightarrow> frag_limited (snd (fb_push buf f))"
proof -
  assume a: "frag_limited f"
  have "fb_size (snd (push_loop rh (drop FixedHeaderSize buf) False f)) < fragmentBufferMaxSize"
    if "fb_size f + length buf < fragmentBufferMaxSize" for rh
    using push_loop_size [of rh "drop FixedHeaderSize buf" False f] that by simp
  then have "fb_size (snd (fb_push buf f)) < fragmentBufferMaxSize"
    using a unfolding fb_push_def frag_limited_def
    by (auto simp: not_le split: sum.splits prod.splits) (metis snd_conv)+
  then show ?thesis using a fb_push_inv by (simp add: frag_limited_def)
qed

lemma sum_filter_le: "sum_list (map g (filter P xs)) \<le> sum_list (map (g :: 'a \<Rightarrow> nat) xs)"
  by (induction xs) auto

lemma fb_pop_limited: "frag_limited f \<Longrightarrow> fb_pop f = Some (r, f') \<Longrightarrow> frag_limited f'"
proof -
  assume a: "frag_limited f" "fb_pop f = Some (r, f')"
  have "fb_size f' \<le> fb_size f"
    using a(2) sum_filter_le by (auto simp: fb_pop_def fb_size_def Let_def split: option.splits)
  then show ?thesis using a fb_pop_inv by (auto simp: frag_limited_def)
qed

lemma fb_pop_whole:
  assumes "fb_inv f" "fb_pop f = Some (Some (out, epoch), f')" "hs_Unmarshal out = Inr h"
  shows "hh_FragmentOffset h = 0 \<and> hh_FragmentLength h = hh_Length h"
proof -
  obtain frags raw where m: "map_of (fb_cache f) (fb_current f) = Some frags"
    and o: "out = hs_Marshal ((fr_hs (frags ! 0))\<lparr>hh_FragmentOffset := 0, hh_FragmentLength := hh_Length (fr_hs (frags ! 0))\<rparr>) @ raw"
    using assms(2) by (auto simp: fb_pop_def Let_def split: option.splits)
  have "frags \<noteq> [] \<and> list_all frag_ok frags"
    using assms(1) map_of_SomeD [OF m] by (auto simp: fb_inv_def cache_ok_def list_all_iff)
  then have "frag_ok (frags ! 0)" by (cases frags) auto
  then have "hs_Unmarshal out = Inr ((fr_hs (frags ! 0))\<lparr>hh_FragmentOffset := 0, hh_FragmentLength := hh_Length (fr_hs (frags ! 0))\<rparr>)"
    unfolding o by (intro hs_Unmarshal_Marshal) (simp_all add: frag_ok_def)
  then show ?thesis using assms(3) by simp
qed


lemma pop_all_ok:
  "frag_limited f \<Longrightarrow> list_all item_ok hc \<Longrightarrow>
     (case pop_all i f hc of (f', hc') \<Rightarrow> frag_limited f' \<and> list_all item_ok hc' \<and> fb_pop f' = Some (None, f') \<and> (\<exists>xs. hc' = hc @ xs))"
proof (induction i f hc rule: pop_all.induct)
  case (1 i f hc)
  obtain r f' where p: "fb_pop f = Some (r, f')" using fb_pop_total 1(3) by (fastforce simp: frag_limited_def)
  have l: "frag_limited f'" using fb_pop_limited [OF 1(3) p] .
  show ?case
  proof (cases r)
    case None
    then have "f' = f" using p by (auto simp: fb_pop_def Let_def split: option.splits)
    then show ?thesis using None p 1(3,4) by (subst pop_all.simps) simp
  next
    case (Some x)
    obtain out epoch where x: "x = (out, epoch)" by (cases x)
    show ?thesis
    proof (cases "hs_Unmarshal out")
      case (Inl e)
      then show ?thesis using 1(1) [OF p refl Some x [symmetric] Inl l 1(4)] p Some x by (subst pop_all.simps) simp
    next
      case (Inr h)
      let ?hc = "hc_push out epoch (hh_MessageSequence h) (hh_Type h) i hc"
      have "item_ok \<lparr>hi_typ = hh_Type h, hi_isClient = i, hi_epoch = epoch, hi_messageSequence = hh_MessageSequence h, hi_data = out\<rparr>"
        using 1(3) fb_pop_whole [of f out epoch f' h] p Some x Inr by (simp add: item_ok_def frag_limited_def)
      then have "list_all item_ok ?hc" using 1(4) by (simp add: hc_push_def)
      then show ?thesis using 1(2) [OF p refl Some x [symmetric] Inr l] p Some x Inr by (subst pop_all.simps) (auto simp: hc_push_def)
    qed
  qed
qed

lemma keep_fields [simp]:
  "dx_frag (enqueueEncryptedPackets p c) = dx_frag c" "dx_hsCache (enqueueEncryptedPackets p c) = dx_hsCache c"
  "dx_frag (snd (markPacketAsValid v h c)) = dx_frag c" "dx_hsCache (snd (markPacketAsValid v h c)) = dx_hsCache c"
  "dx_frag (accept_record v h cid addr c) = dx_frag c" "dx_hsCache (accept_record v h cid addr c) = dx_hsCache c"
  by (simp_all add: enqueueEncryptedPackets_def markPacketAsValid_def accept_record_def Let_def)

lemma conn_ok_enqueue: "conn_ok c \<Longrightarrow> conn_ok (enqueueEncryptedPackets p c)"
  using enqueue_bound [of c p] by (simp add: conn_ok_def)

lemma conn_ok_content: "conn_ok c \<Longrightarrow> conn_ok (snd (handle_content v h b cid addr enqueue c))"
  by (auto simp: handle_content_def Let_def conn_ok_enqueue split: sum.splits dtls_content.splits)
    (simp_all add: conn_ok_def)

text \<open>When the handler panics: the keys open a record with a connection identifier to nothing but zeros.\<close>

definition zero_inner :: "'r dtls_env \<Rightarrow> rec_header \<Rightarrow> bytes \<Rightarrow> bool" where
  "zero_inner v h buf \<longleftrightarrow> rh_ContentType h = ContentTypeConnectionID \<and>
     (\<exists>n x. dv_decrypt v n buf = Some x \<and> (length x < rec_Size h \<or> (\<forall>y\<in>set (drop (rec_Size h) x). y = 0)))"

lemma decrypt_panic: "decrypt_record v c h buf = DecPanic \<Longrightarrow> zero_inner v h buf"
proof -
  assume a: "decrypt_record v c h buf = DecPanic"
  have z: "inner_Unmarshal d = None \<Longrightarrow> \<forall>y\<in>set d. y = 0" for d
    using last_nonzero_None [of d] by (auto simp: inner_Unmarshal_def split: option.splits if_splits) (metis in_set_replicate)
  show ?thesis using a unfolding zero_inner_def
    by (auto simp: decrypt_record_def split: if_splits option.splits sum.splits dest: z)
qed

text \<open>
  The handler keeps the type of a connection. For every record, from any source, the fragment
  buffer stays well formed and below 2,000,000 bytes, at most 100 early records are queued, and
  every message in the handshake cache is filed under the type and the number in its bytes with
  a header made whole; after a handshake record no complete message is left in the buffer. The
  only panic is on a record with a connection identifier that the keys of the connection open
  to zeros only.
\<close>

lemma handle_conn_type:
  assumes "conn_ok c"
  shows "case handleIncomingPacket v buf addr enqueue c of
      None \<Rightarrow> (\<exists>h. incoming_header buf c = Inr h \<and> zero_inner v h buf)
    | Some (r, c') \<Rightarrow> conn_ok c' \<and> (re_handshake r \<longrightarrow> fb_pop (dx_frag c') = Some (None, dx_frag c'))"
proof (cases "incoming_header buf c")
  case (Inl e)
  then show ?thesis using assms by (simp add: handleIncomingPacket_def incoming_header_def silent_def)
next
  case (Inr h)
  let ?c1 = "grow_detectors v (rh_Epoch h) c"
  have ok1: "conn_ok ?c1" using assms by (simp add: conn_ok_def)
  have ok2: "conn_ok (?c1\<lparr>dx_frag := snd (fb_push b (dx_frag ?c1))\<rparr>)" for b using ok1 fb_push_limited by (simp add: conn_ok_def)
  show ?thesis
  proof (cases "dx_remoteEpoch c < rh_Epoch h \<or> \<not> dv_check v (rh_SequenceNumber h) (dx_detectors ?c1 ! unat (rh_Epoch h)) \<or>
      (\<forall>b cid. decrypt_record v ?c1 h buf \<noteq> Plain b cid)")
    case True
    then show ?thesis using Inr [unfolded incoming_header_def] assms ok1 conn_ok_enqueue decrypt_panic [of v ?c1 h buf]
      by (auto simp: handleIncomingPacket_def incoming_header_def Let_def silent_def split: decrypted.splits)
  next
    case False
    then obtain b cid where p: "decrypt_record v ?c1 h buf = Plain b cid" by auto
    obtain q f where q: "fb_push b (dx_frag ?c1) = (q, f)" by (cases "fb_push b (dx_frag ?c1)")
    let ?c2 = "?c1\<lparr>dx_frag := f\<rparr>"
    have k: "conn_ok ?c2" using ok2 [of b] q by simp
    have hc: "re_handshake (fst (handle_content v h b cid addr enqueue ?c2)) = False"
      by (auto simp: handle_content_def Let_def silent_def split: sum.splits dtls_content.splits)
    have pa: "case pop_all i f (dx_hsCache c) of (f', hc') \<Rightarrow> frag_limited f' \<and> list_all item_ok hc' \<and> fb_pop f' = Some (None, f')" for i
      using pop_all_ok [of f "dx_hsCache c" i] k by (auto simp: conn_ok_def)
    show ?thesis using Inr [unfolded incoming_header_def] False p q k hc conn_ok_content [OF k, of v h b cid addr enqueue] pa [of "\<not> dx_isClient c"]
      by (auto simp: handleIncomingPacket_def Let_def silent_def conn_ok_def split: sum.splits bool.splits prod.splits)
  qed
qed

end
