(* ===== verification/Dtls_Read.thy ===== *)
theory Dtls_Read
  imports Dtls_Conn
begin

text \<open>
  The read loop of a DTLS connection (\<^verbatim>\<open>golib/replace/dtls/conn.go\<close>): \<^verbatim>\<open>readAndBuffer\<close> splits a
  datagram and handles its records, \<^verbatim>\<open>handleQueuedPackets\<close> handles the early records when the
  keys are there, and the loop of \<^verbatim>\<open>handshake\<close> decides on each error whether it goes on, hands
  the error to \<^verbatim>\<open>Read\<close> or ends.

  Whether \<^verbatim>\<open>notify\<close> could send an alert is an argument.
\<close>

section \<open>Handling the records of a datagram\<close>

datatype read_fault = Fault dtls_fault | UnpackFault dtls_error | NotifyFault

text \<open>
  What a call leaves behind: whether a handshake was among the records, whether one was a
  retransmission, the alerts given to \<^verbatim>\<open>notify\<close>, the error and the connection.
\<close>

record 'r read_out =
  ro_handshake :: bool
  ro_retransmit :: bool
  ro_alerts :: "(byte \<times> byte) list"
  ro_fault :: "read_fault option"
  ro_conn :: "'r dtls_conn"

text \<open>The error after a record: its own, or that of the alert that could not be sent.\<close>

definition record_fault :: "(byte \<times> byte \<Rightarrow> bool) \<Rightarrow> dtls_reply \<Rightarrow> read_fault option" where
  "record_fault notify r =
     (case re_fault r of
        Some f \<Rightarrow> Some (Fault f)
      | None \<Rightarrow> (case re_alert r of None \<Rightarrow> None | Some a \<Rightarrow> if notify a then None else Some NotifyFault))"

text \<open>The loop over the records with their addresses; \<open>None\<close> is a panic.\<close>

fun handle_records ::
    "'r dtls_env \<Rightarrow> (byte \<times> byte \<Rightarrow> bool) \<Rightarrow> bool \<Rightarrow> (nat \<times> bytes) list \<Rightarrow> bool \<Rightarrow> bool \<Rightarrow> (byte \<times> byte) list \<Rightarrow> 'r dtls_conn
      \<Rightarrow> 'r read_out option" where
  "handle_records v notify enqueue [] hasHandshake isRetransmit alerts c =
     Some \<lparr>ro_handshake = hasHandshake, ro_retransmit = isRetransmit, ro_alerts = alerts, ro_fault = None, ro_conn = c\<rparr>"
| "handle_records v notify enqueue ((addr, p) # ps) hasHandshake isRetransmit alerts c =
     (case handleIncomingPacket v p addr enqueue c of
        None \<Rightarrow> None
      | Some (r, c') \<Rightarrow>
          let alerts' = (case re_alert r of None \<Rightarrow> alerts | Some a \<Rightarrow> alerts @ [a]) in
          if record_fault notify r \<noteq> None
          then Some \<lparr>ro_handshake = False, ro_retransmit = False, ro_alerts = alerts', ro_fault = record_fault notify r, ro_conn = c'\<rparr>
          else handle_records v notify enqueue ps (hasHandshake \<or> re_handshake r) (isRetransmit \<or> re_retransmit r) alerts' c')"

definition readAndBuffer ::
    "'r dtls_env \<Rightarrow> (byte \<times> byte \<Rightarrow> bool) \<Rightarrow> bytes \<Rightarrow> nat \<Rightarrow> 'r dtls_conn \<Rightarrow> 'r read_out option" where
  "readAndBuffer v notify b rAddr c =
     (case ContentAwareUnpackDatagram b (length (dx_localCID c)) of
        Inl e \<Rightarrow> Some \<lparr>ro_handshake = False, ro_retransmit = False, ro_alerts = [], ro_fault = Some (UnpackFault e), ro_conn = c\<rparr>
      | Inr pkts \<Rightarrow> handle_records v notify True (map (Pair rAddr) pkts) False False [] c)"

definition handleQueuedPackets :: "'r dtls_env \<Rightarrow> (byte \<times> byte \<Rightarrow> bool) \<Rightarrow> 'r dtls_conn \<Rightarrow> 'r read_out option" where
  "handleQueuedPackets v notify c =
     handle_records v notify False (dx_queue c) False False [] (c\<lparr>dx_queue := []\<rparr>)"

section \<open>The loop\<close>

definition IsFatalOrCloseNotify :: "byte \<Rightarrow> byte \<Rightarrow> bool" where
  "IsFatalOrCloseNotify level desc \<longleftrightarrow> level = 2 \<or> desc = 0"

text \<open>
  What the read loop does after \<^verbatim>\<open>readAndBuffer\<close>: it goes on, goes on after handing the error to
  \<^verbatim>\<open>Read\<close>, or ends, with or without closing the connection.
\<close>

datatype loop_act = Again | PassToRead | Stop bool

definition loop_after :: "bool \<Rightarrow> read_fault option \<Rightarrow> loop_act" where
  "loop_after completed fault =
     (case fault of
        None \<Rightarrow> Again
      | Some (Fault (AlertReceived level desc)) \<Rightarrow>
          if IsFatalOrCloseNotify level desc then Stop True else if completed then PassToRead else Again
      | Some f \<Rightarrow>
          if f = UnpackFault ErrInvalidPacketLength \<or> f = Fault (DecodeFault ErrInvalidPacketLength) then Again
          else if completed then PassToRead else Stop False)"

section \<open>The type of the connection over the life of the loop\<close>

text \<open>What happens to a connection: a datagram arrives, the keys are derived, the queue is handled.\<close>

datatype dtls_input = Datagram bytes nat | KeysReady | FlushQueue

definition dtls_step :: "'r dtls_env \<Rightarrow> (byte \<times> byte \<Rightarrow> bool) \<Rightarrow> dtls_input \<Rightarrow> 'r dtls_conn \<Rightarrow> 'r dtls_conn option" where
  "dtls_step v notify i c =
     (case i of
        Datagram b a \<Rightarrow> map_option ro_conn (readAndBuffer v notify b a c)
      | KeysReady \<Rightarrow> Some (c\<lparr>dx_cipherReady := True\<rparr>)
      | FlushQueue \<Rightarrow> map_option ro_conn (handleQueuedPackets v notify c))"

fun dtls_steps :: "'r dtls_env \<Rightarrow> (byte \<times> byte \<Rightarrow> bool) \<Rightarrow> dtls_input list \<Rightarrow> 'r dtls_conn \<Rightarrow> 'r dtls_conn option" where
  "dtls_steps v notify [] c = Some c"
| "dtls_steps v notify (i # is) c = (case dtls_step v notify i c of None \<Rightarrow> None | Some c' \<Rightarrow> dtls_steps v notify is c')"

text \<open>The keys never open a record with a connection identifier to zeros only.\<close>

definition no_zero_inner :: "'r dtls_env \<Rightarrow> bool" where
  "no_zero_inner v \<longleftrightarrow> (\<forall>h buf. \<not> zero_inner v h buf)"

lemma handle_records_ok:
  "conn_ok c \<Longrightarrow>
     (case handle_records v notify enqueue ps hs rt as c of None \<Rightarrow> \<not> no_zero_inner v | Some out \<Rightarrow> conn_ok (ro_conn out))"
proof (induction ps arbitrary: hs rt as c)
  case (Cons p ps)
  obtain addr q where p: "p = (addr, q)" by (cases p)
  show ?case
  proof (cases "handleIncomingPacket v q addr enqueue c")
    case None
    then show ?thesis using handle_conn_type [OF Cons.prems, where v = v and buf = q and addr = addr and enqueue = enqueue] p
      by (auto simp: no_zero_inner_def)
  next
    case (Some x)
    then show ?thesis using handle_conn_type [OF Cons.prems, where v = v and buf = q and addr = addr and enqueue = enqueue] p Cons.IH
      by (cases x) (auto simp: Let_def)
  qed
qed simp

lemma handle_records_okD:
  assumes "conn_ok c"
  shows "handle_records v notify enqueue ps hs rt as c = None \<Longrightarrow> \<not> no_zero_inner v"
    and "handle_records v notify enqueue ps hs rt as c = Some out \<Longrightarrow> conn_ok (ro_conn out)"
  using handle_records_ok [OF assms, of v notify enqueue ps hs rt as] by simp_all

lemma content_no_enqueue: "handle_content v h b cid addr False c = (r, c') \<Longrightarrow> dx_queue c' = dx_queue c"
  by (auto simp: handle_content_def Let_def split: sum.splits dtls_content.splits if_splits)

lemma handle_no_enqueue: "handleIncomingPacket v buf addr False c = Some (r, c') \<Longrightarrow> dx_queue c' = dx_queue c"
proof (cases "incoming_header buf c")
  case (Inl e)
  then show "handleIncomingPacket v buf addr False c = Some (r, c') \<Longrightarrow> ?thesis"
    by (simp add: handleIncomingPacket_def incoming_header_def)
next
  case (Inr h)
  assume r: "handleIncomingPacket v buf addr False c = Some (r, c')"
  note H = Inr [unfolded incoming_header_def]
  let ?c1 = "grow_detectors v (rh_Epoch h) c"
  show ?thesis
  proof (cases "dx_remoteEpoch c < rh_Epoch h \<or> \<not> dv_check v (rh_SequenceNumber h) (dx_detectors ?c1 ! unat (rh_Epoch h)) \<or>
      (\<forall>b cid. decrypt_record v ?c1 h buf \<noteq> Plain b cid)")
    case True
    then show ?thesis using r H by (cases "decrypt_record v ?c1 h buf") (auto simp: handleIncomingPacket_def Let_def split: if_splits)
  next
    case False
    then obtain b cid where p: "decrypt_record v ?c1 h buf = Plain b cid" by auto
    obtain q f where q: "fb_push b (dx_frag ?c1) = (q, f)" by (cases "fb_push b (dx_frag ?c1)")
    show ?thesis using r H False p q content_no_enqueue [of v h b cid addr "?c1\<lparr>dx_frag := f\<rparr>" r c']
      by (cases q) (auto simp: handleIncomingPacket_def Let_def split: bool.splits prod.splits)
  qed
qed

lemma handle_records_no_enqueue:
  "handle_records v notify False ps hs rt as c = Some out \<Longrightarrow> dx_queue (ro_conn out) = dx_queue c"
proof (induction ps arbitrary: hs rt as c)
  case (Cons p ps)
  then show ?case using handle_no_enqueue by (cases p) (fastforce simp: Let_def split: option.splits if_splits)
qed auto

lemma dtls_step_ok:
  "conn_ok c \<Longrightarrow> (case dtls_step v notify i c of None \<Rightarrow> \<not> no_zero_inner v | Some c' \<Rightarrow> conn_ok c')"
proof -
  assume c: "conn_ok c"
  show ?thesis
  proof (cases i)
    case (Datagram b a)
    then show ?thesis using c handle_records_okD [OF c]
      by (auto simp: dtls_step_def readAndBuffer_def split: sum.splits option.splits)
  next
    case FlushQueue
    have "conn_ok (c\<lparr>dx_queue := []\<rparr>)" using c by (simp add: conn_ok_def)
    then show ?thesis using FlushQueue handle_records_okD [of "c\<lparr>dx_queue := []\<rparr>"]
      by (auto simp: dtls_step_def handleQueuedPackets_def split: option.splits)
  qed (use c in \<open>simp add: dtls_step_def conn_ok_def\<close>)
qed




section \<open>Records that were not made with the keys\<close>

text \<open>
  A record of a protected epoch that the keys do not open, or one that is not a record at all.
\<close>

definition forged :: "'r dtls_env \<Rightarrow> 'r dtls_conn \<Rightarrow> bytes \<Rightarrow> bool" where
  "forged v c p \<longleftrightarrow> (case incoming_header p c of Inl _ \<Rightarrow> True | Inr h \<Rightarrow> rh_Epoch h \<noteq> 0 \<and> (\<forall>n. dv_decrypt v n p = None))"

lemma unpack_error: "ContentAwareUnpackDatagram b n = Inl e \<Longrightarrow> e = ErrInvalidPacketLength"
proof -
  have "unpack_aware_from n b i = Inl e \<Longrightarrow> e = ErrInvalidPacketLength" for i
  proof (induction n b i rule: unpack_aware_from.induct)
    case (1 n b i)
    from 1(2) show ?case
      by (subst (asm) unpack_aware_from.simps) (auto simp: Let_def split: if_splits sum.splits dest!: 1(1) [OF _ refl refl refl _ refl])
  qed
  then show "ContentAwareUnpackDatagram b n = Inl e \<Longrightarrow> ?thesis" by (simp add: ContentAwareUnpackDatagram_def)
qed

text \<open>Connections that differ in the queue and in detectors that have accepted nothing.\<close>

definition same_but_queue :: "'r dtls_env \<Rightarrow> 'r dtls_conn \<Rightarrow> 'r dtls_conn \<Rightarrow> bool" where
  "same_but_queue v c c' \<longleftrightarrow>
     (\<exists>k q. c' = c\<lparr>dx_detectors := dx_detectors c @ replicate k (dv_new v), dx_queue := q\<rparr>)"

lemma same_refl: "same_but_queue v c c"
  unfolding same_but_queue_def by (intro exI [of _ 0] exI [of _ "dx_queue c"]) simp

lemma same_trans: "same_but_queue v a b \<Longrightarrow> same_but_queue v b c \<Longrightarrow> same_but_queue v a c"
  unfolding same_but_queue_def
proof (elim exE)
  fix k q k' q'
  assume "b = a\<lparr>dx_detectors := dx_detectors a @ replicate k (dv_new v), dx_queue := q\<rparr>"
    "c = b\<lparr>dx_detectors := dx_detectors b @ replicate k' (dv_new v), dx_queue := q'\<rparr>"
  then show "\<exists>k q. c = a\<lparr>dx_detectors := dx_detectors a @ replicate k (dv_new v), dx_queue := q\<rparr>"
    by (intro exI [of _ "k + k'"] exI [of _ q']) (simp add: replicate_add)
qed

lemma same_enqueue: "same_but_queue v c (enqueueEncryptedPackets p c)"
  unfolding same_but_queue_def enqueueEncryptedPackets_def
  by (intro exI [of _ 0] exI [of _ "dx_queue (enqueueEncryptedPackets p c)"]) (simp add: enqueueEncryptedPackets_def)

lemma same_grow: "same_but_queue v c (grow_detectors v e c)"
  unfolding same_but_queue_def grow_detectors_def
  by (intro exI [of _ "unat e + 1 - length (dx_detectors c)"] exI [of _ "dx_queue c"]) simp

lemma forged_same: "same_but_queue v c c' \<Longrightarrow> forged v c' p = forged v c p"
  by (auto simp: same_but_queue_def forged_def incoming_header_def)

lemma forged_handled:
  assumes "forged v c p"
  shows "\<exists>c'. handleIncomingPacket v p addr enqueue c = Some (silent, c') \<and> same_but_queue v c c'"
proof (cases "incoming_header p c")
  case (Inl e)
  then show ?thesis using same_refl by (auto simp: handleIncomingPacket_def incoming_header_def)
next
  case (Inr h)
  let ?c1 = "grow_detectors v (rh_Epoch h) c"
  have "decrypt_record v ?c1 h p = Later \<or> decrypt_record v ?c1 h p = Discard"
    using assms Inr by (auto simp: forged_def decrypt_record_def)
  then show ?thesis using Inr [unfolded incoming_header_def] same_refl same_enqueue same_grow same_trans [OF same_grow same_enqueue]
    by (auto simp: handleIncomingPacket_def Let_def)
qed

lemma forged_records:
  "\<forall>p\<in>set ps. forged v c (snd p) \<Longrightarrow>
     \<exists>c'. handle_records v notify enqueue ps hs rt as c =
       Some \<lparr>ro_handshake = hs, ro_retransmit = rt, ro_alerts = as, ro_fault = None, ro_conn = c'\<rparr> \<and> same_but_queue v c c'"
proof (induction ps arbitrary: c)
  case (Cons p ps)
  obtain addr q where p: "p = (addr, q)" by (cases p)
  obtain c1 where h: "handleIncomingPacket v q addr enqueue c = Some (silent, c1)" "same_but_queue v c c1"
    using forged_handled [of v c q addr enqueue] Cons.prems p by auto
  have "\<forall>p\<in>set ps. forged v c1 (snd p)" using Cons.prems forged_same [OF h(2)] by simp
  then obtain c' where "handle_records v notify enqueue ps hs rt as c1 =
      Some \<lparr>ro_handshake = hs, ro_retransmit = rt, ro_alerts = as, ro_fault = None, ro_conn = c'\<rparr>" "same_but_queue v c1 c'"
    using Cons.IH by blast
  then show ?case using h p same_trans [OF h(2), of c'] by (intro exI [of _ c']) (simp add: record_fault_def silent_def)
qed (use same_refl in auto)

text \<open>
  C24: Datagrams without the keys do no harm, as long as they claim a protected epoch: a datagram that
  cannot be split, or whose records are malformed or not opened by the keys, changes nothing but
  the queue of early records; no alert is sent and the read loop goes on.
\<close>

theorem forged_datagram_ignored:
  assumes "case ContentAwareUnpackDatagram b (length (dx_localCID c)) of Inl _ \<Rightarrow> True | Inr ps \<Rightarrow> list_all (forged v c) ps"
  shows "\<exists>out. readAndBuffer v notify b a c = Some out \<and> same_but_queue v c (ro_conn out) \<and> ro_alerts out = [] \<and>
    \<not> ro_handshake out \<and> loop_after completed (ro_fault out) = Again"
proof (cases "ContentAwareUnpackDatagram b (length (dx_localCID c))")
  case (Inl e)
  have "e = ErrInvalidPacketLength" using unpack_error [OF Inl] .
  then show ?thesis using Inl same_refl by (auto simp: readAndBuffer_def loop_after_def)
next
  case (Inr ps)
  then show ?thesis using assms forged_records [of "map (Pair a) ps" v c notify True False False "[]"]
    by (auto simp: readAndBuffer_def loop_after_def list_all_iff)
qed


theorem forged_datagram_ignored_witness:
  "\<exists>out. readAndBuffer (toy_env\<lparr>dv_decrypt := \<lambda>n b. None\<rparr>) (\<lambda>a. True) (toy_record @ toy_record) 9 toy_conn = Some out \<and>
     dx_decrypted (ro_conn out) = [] \<and> loop_after True (ro_fault out) = Again"
proof -
  let ?v = "toy_env\<lparr>dv_decrypt := \<lambda>n b. None\<rparr>"
  have "ContentAwareUnpackDatagram (toy_record @ toy_record) 0 = Inr [toy_record, toy_record]" by code_simp
  moreover have "incoming_header toy_record toy_conn = Inr toy_header"
    using toy_parse(1) by (simp add: incoming_header_def toy_conn_def rec_header0_def)
  then have "forged ?v toy_conn toy_record" by (simp add: forged_def toy_header_def)
  ultimately obtain out where o: "readAndBuffer ?v (\<lambda>a. True) (toy_record @ toy_record) 9 toy_conn = Some out"
    "same_but_queue ?v toy_conn (ro_conn out)" "loop_after True (ro_fault out) = Again"
    using forged_datagram_ignored [where b = "toy_record @ toy_record" and c = toy_conn and v = ?v and notify = "\<lambda>a. True" and a = 9 and completed = True] by (auto simp: toy_conn_def)
  then show ?thesis by (intro exI [of _ out]) (auto simp: same_but_queue_def toy_conn_def)
qed

text \<open>A record in the clear with an alert.\<close>

definition clear_alert :: "u64 \<Rightarrow> byte \<Rightarrow> byte \<Rightarrow> bytes" where
  "clear_alert s level desc = [21, 0xfe, 0xfd, 0, 0] @ put_u48 s @ [0, 2, level, desc]"

lemma clear_alert_parse:
  assumes "s < 2 ^ 48"
  shows "rec_Unmarshal (clear_alert s level desc) h =
      Inr (h\<lparr>rh_ContentType := 21, rh_Major := 0xfe, rh_Minor := 0xfd, rh_Epoch := 0, rh_SequenceNumber := s\<rparr>)"
    and "record_Unmarshal (clear_alert s level desc) =
      Inr (rec_header0\<lparr>rh_ContentType := 21, rh_Major := 0xfe, rh_Minor := 0xfd, rh_Epoch := 0, rh_SequenceNumber := s\<rparr>, AlertMsg level desc)"
    and "ContentAwareUnpackDatagram (clear_alert s level desc) n = Inr [clear_alert s level desc]"
proof -
  have max_seq: "s \<le> MaxSequenceNumber" using assms by (simp add: MaxSequenceNumber_def word_le_nat_alt word_less_nat_alt)
  show p: "rec_Unmarshal (clear_alert s level desc) h =
      Inr (h\<lparr>rh_ContentType := 21, rh_Major := 0xfe, rh_Minor := 0xfd, rh_Epoch := 0, rh_SequenceNumber := s\<rparr>)" for h
    using be48_put_u48_nil [OF max_seq] by (simp add: rec_Unmarshal_def clear_alert_def FixedHeaderSize_def content_types version_ok_def Let_def)
  show "record_Unmarshal (clear_alert s level desc) =
      Inr (rec_header0\<lparr>rh_ContentType := 21, rh_Major := 0xfe, rh_Minor := 0xfd, rh_Epoch := 0, rh_SequenceNumber := s\<rparr>, AlertMsg level desc)"
    unfolding record_Unmarshal_def p by (simp add: content_types rec_header0_def rec_Size_def FixedHeaderSize_def Let_def clear_alert_def)
  show "ContentAwareUnpackDatagram (clear_alert s level desc) n = Inr [clear_alert s level desc]"
    unfolding ContentAwareUnpackDatagram_def
    by (subst unpack_aware_iff) (simp_all add: rec_sized_def rec_hsize_def clear_alert_def content_types FixedHeaderSize_def)
qed

text \<open>
  An alert in the clear ends a connection. At any time, also long after the handshake and
  whatever the keys are, one datagram with an unprotected fatal alert or close notification of
  epoch 0, with a number that epoch has not seen, makes the read loop close the connection.
\<close>

lemma clear_alert_closes:
  assumes "s < 2 ^ 48" "IsFatalOrCloseNotify level desc" "fb_size (dx_frag c) + 15 < fragmentBufferMaxSize"
    and "dv_check v s (case dx_detectors c of [] \<Rightarrow> dv_new v | r # _ \<Rightarrow> r)"
  shows "\<exists>out. readAndBuffer v notify (clear_alert s level desc) a c = Some out \<and>
    loop_after completed (ro_fault out) = Stop True"
proof -
  let ?d = "clear_alert s level desc" and ?c1 = "grow_detectors v 0 c"
  have len: "length ?d = 15" by (simp add: clear_alert_def)
  have det: "dv_check v s (dx_detectors ?c1 ! 0)" using assms(4) by (cases "dx_detectors c") (simp_all add: grow_detectors_def)
  have push: "fb_push ?d (dx_frag ?c1) = (Inr (False, False), dx_frag ?c1)"
    using assms(3) by (simp add: fb_push_def len clear_alert_parse(1) [OF assms(1)] content_types)
  have "\<exists>r c'. handleIncomingPacket v ?d a True c = Some (r, c') \<and> re_fault r = Some (AlertReceived level desc)"
    using det push
    by (simp add: handleIncomingPacket_def clear_alert_parse [OF assms(1)] Let_def decrypt_record_def handle_content_def silent_def)
  then show ?thesis using assms(2)
    by (fastforce simp: readAndBuffer_def clear_alert_parse(3) [OF assms(1)] record_fault_def Let_def loop_after_def)
qed

end
