(* ===== verification/Dtls_Send.thy ===== *)
theory Dtls_Send
  imports Dtls_Fragment
begin

text \<open>
  The sending side of a DTLS connection (\<^verbatim>\<open>golib/replace/dtls/conn.go\<close>): records get their
  sequence numbers, handshake messages are split, records are wrapped for a connection
  identifier and encrypted, and small records share a datagram.

  The encryption of the cipher suite and the padding generator are arguments.
\<close>

section \<open>Sequence numbers\<close>

text \<open>\<^verbatim>\<open>localSequenceNumber\<close> has one counter for each epoch, made on demand.\<close>

definition grow_seqs :: "u16 \<Rightarrow> u64 list \<Rightarrow> u64 list" where
  "grow_seqs e xs = xs @ replicate (unat e + 1 - length xs) 0"

text \<open>The next number of an epoch: \<^verbatim>\<open>atomic.AddUint64(&c, 1) - 1\<close>.\<close>

definition next_seq :: "u16 \<Rightarrow> u64 list \<Rightarrow> u64 \<times> u64 list" where
  "next_seq e xs = (let ys = grow_seqs e xs; i = unat e in (ys ! i, ys[i := ys ! i + 1]))"

section \<open>Packets\<close>

record dtls_packet =
  pk_header :: rec_header
  pk_content :: dtls_content
  pk_shouldWrapCID :: bool
  pk_shouldEncrypt :: bool

record send_env =
  sv_encrypt :: "rec_header \<Rightarrow> bytes \<Rightarrow> dtls_error + bytes"
  sv_padding :: "nat \<Rightarrow> nat"
  sv_remoteCID :: bytes
  sv_mtu :: nat

text \<open>The header and the bytes of a record with a connection identifier around a content.\<close>

definition wrap_cid :: "bytes \<Rightarrow> rec_header \<Rightarrow> byte \<Rightarrow> bytes \<Rightarrow> nat \<Rightarrow> u64 \<Rightarrow> (dtls_error + bytes) \<times> rec_header" where
  "wrap_cid cid h typ content zeros seq =
     (let raw = inner_Marshal \<lparr>ip_Content = content, ip_RealType = typ, ip_Zeros = zeros\<rparr>;
          h' = \<lparr>rh_ContentType = ContentTypeConnectionID, rh_ContentLen = u16_len (length raw), rh_Major = rh_Major h,
                 rh_Minor = rh_Minor h, rh_Epoch = rh_Epoch h, rh_SequenceNumber = seq, rh_ConnectionID = cid\<rparr>
      in (case rec_Marshal h' of Inl e \<Rightarrow> Inl e | Inr hdr \<Rightarrow> Inr (hdr @ raw), h'))"

definition seal :: "send_env \<Rightarrow> bool \<Rightarrow> rec_header \<Rightarrow> bytes \<Rightarrow> dtls_error + bytes" where
  "seal v shouldEncrypt h raw = (if shouldEncrypt then sv_encrypt v h raw else Inr raw)"

text \<open>\<^verbatim>\<open>processPacket\<close> for contents that are not handshakes.\<close>

definition processPacket :: "send_env \<Rightarrow> dtls_packet \<Rightarrow> u64 list \<Rightarrow> (dtls_error + bytes) \<times> u64 list" where
  "processPacket v pkt xs =
     (let (seq, ys) = next_seq (rh_Epoch (pk_header pkt)) xs in
      if MaxSequenceNumber < seq then (Inl ErrSequenceNumberOverflow, ys)
      else let h = (pk_header pkt)\<lparr>rh_SequenceNumber := seq\<rparr>;
               (plain, h1) = record_Marshal h (pk_content pkt) in
        case plain of
          Inl e \<Rightarrow> (Inl e, ys)
        | Inr raw \<Rightarrow>
            if pk_shouldWrapCID pkt then
              (case wrap_cid (sv_remoteCID v) h1 (rh_ContentType h1) (content_Marshal (pk_content pkt)) 0 seq of
                 (Inl e, _) \<Rightarrow> (Inl e, ys)
               | (Inr raw', h2) \<Rightarrow> (seal v (pk_shouldEncrypt pkt) h2 raw', ys))
            else (seal v (pk_shouldEncrypt pkt) h1 raw, ys))"

text \<open>
  The loop of \<^verbatim>\<open>processHandshakePacket\<close> over the fragments. A record with a connection identifier
  is given the number of the header of the packet, not the number just taken.
\<close>

fun handshake_records :: "send_env \<Rightarrow> rec_header \<Rightarrow> bool \<Rightarrow> bool \<Rightarrow> bytes list \<Rightarrow> u64 list \<Rightarrow> (dtls_error + bytes list) \<times> u64 list" where
  "handshake_records v h wrap enc [] xs = (Inr [], xs)"
| "handshake_records v h wrap enc (fr # frs) xs =
     (let sy = next_seq (rh_Epoch h) xs; seq = fst sy; ys = snd sy in
      if MaxSequenceNumber < seq then (Inl ErrSequenceNumberOverflow, ys)
      else let rh = (if wrap
             then wrap_cid (sv_remoteCID v) h ContentTypeHandshake fr (sv_padding v (length fr)) (rh_SequenceNumber h)
             else let h' = \<lparr>rh_ContentType = rh_ContentType h, rh_ContentLen = u16_len (length fr), rh_Major = rh_Major h,
                        rh_Minor = rh_Minor h, rh_Epoch = rh_Epoch h, rh_SequenceNumber = seq, rh_ConnectionID = []\<rparr>
                  in (case rec_Marshal h' of Inl e \<Rightarrow> Inl e | Inr hdr \<Rightarrow> Inr (hdr @ fr), h')) in
        case fst rh of
          Inl e \<Rightarrow> (Inl e, ys)
        | Inr raw \<Rightarrow>
            (case seal v enc (snd rh) raw of
               Inl e \<Rightarrow> (Inl e, ys)
             | Inr p \<Rightarrow>
                 (case handshake_records v (snd rh) wrap enc frs ys of
                    (Inl e, zs) \<Rightarrow> (Inl e, zs)
                  | (Inr ps, zs) \<Rightarrow> (Inr (p # ps), zs))))"

definition processHandshakePacket :: "send_env \<Rightarrow> dtls_packet \<Rightarrow> hs_header \<Rightarrow> bytes \<Rightarrow> u64 list \<Rightarrow> (dtls_error + bytes list) \<times> u64 list" where
  "processHandshakePacket v pkt g content xs =
     handshake_records v (pk_header pkt) (pk_shouldWrapCID pkt) (pk_shouldEncrypt pkt)
       (fragmentHandshake g content (sv_mtu v)) xs"

section \<open>Datagrams\<close>

text \<open>The loop of \<^verbatim>\<open>compactRawPackets\<close> with the datagram being built.\<close>

fun compact_loop :: "nat \<Rightarrow> bytes list \<Rightarrow> bytes \<Rightarrow> bytes list" where
  "compact_loop mtu [] cur = [cur]"
| "compact_loop mtu (p # ps) cur =
     (if 0 < length cur \<and> mtu \<le> length cur + length p
      then cur # compact_loop mtu ps p
      else compact_loop mtu ps (cur @ p))"

definition compactRawPackets :: "nat \<Rightarrow> bytes list \<Rightarrow> bytes list" where
  "compactRawPackets mtu ps = (if length ps = 1 then ps else compact_loop mtu ps [])"

section \<open>Lemmas on datagrams\<close>

text \<open>The groups of records the datagrams are made of.\<close>

fun compact_groups :: "nat \<Rightarrow> bytes list \<Rightarrow> bytes list \<Rightarrow> bytes list list" where
  "compact_groups mtu [] cur = [cur]"
| "compact_groups mtu (p # ps) cur =
     (if 0 < length (concat cur) \<and> mtu \<le> length (concat cur) + length p
      then cur # compact_groups mtu ps [p]
      else compact_groups mtu ps (cur @ [p]))"

lemma compact_loop_groups: "compact_loop mtu ps (concat cur) = map concat (compact_groups mtu ps cur)"
proof (induction mtu ps cur rule: compact_groups.induct)
  case (2 mtu p ps cur)
  show ?case using 2 [simplified] by simp
qed simp

lemma compact_groups_concat: "concat (compact_groups mtu ps cur) = cur @ ps"
  by (induction mtu ps cur rule: compact_groups.induct) auto

lemma compact_groups_nonempty: "cur \<noteq> [] \<or> ps \<noteq> [] \<Longrightarrow> list_all (\<lambda>g. g \<noteq> []) (compact_groups mtu ps cur)"
  by (induction mtu ps cur rule: compact_groups.induct) auto

lemma compact_groups_size:
  "list_all (\<lambda>p. p \<noteq> []) (cur @ ps) \<Longrightarrow> length cur \<le> 1 \<or> length (concat cur) < mtu \<Longrightarrow>
     list_all (\<lambda>g. length g \<le> 1 \<or> length (concat g) < mtu) (compact_groups mtu ps cur)"
proof (induction mtu ps cur rule: compact_groups.induct)
  case (2 mtu p ps cur)
  show ?case
  proof (cases "0 < length (concat cur) \<and> mtu \<le> length (concat cur) + length p")
    case True
    then show ?thesis using 2(1) [OF True] 2(3,4) by simp
  next
    case False
    have "cur = []" if "concat cur = []" using that 2(3) by (cases cur) auto
    then have "length (cur @ [p]) \<le> 1 \<or> length (concat (cur @ [p])) < mtu" using False by auto
    then have "list_all (\<lambda>g. length g \<le> 1 \<or> length (concat g) < mtu) (compact_groups mtu ps (cur @ [p]))"
      using 2(2) [OF False] 2(3) by simp
    then show ?thesis using False by (simp only: compact_groups.simps if_False)
  qed
qed simp

text \<open>A record that the receiver finds in a datagram.\<close>

definition rec_full :: "nat \<Rightarrow> bytes \<Rightarrow> bool" where
  "rec_full n p \<longleftrightarrow> rec_sized n p \<and> rec_hsize n p < length p"

lemma unpack_full: "list_all (rec_full n) ps \<Longrightarrow> ContentAwareUnpackDatagram (concat ps) n = Inr ps"
  unfolding ContentAwareUnpackDatagram_def
  by (subst unpack_aware_iff) (auto simp: rec_full_def list_all_iff dest: last_in_set)

lemma compact_unpack:
  assumes "ps \<noteq> []" "list_all (rec_full n) ps"
  shows "\<exists>gs. compactRawPackets mtu ps = map concat gs \<and> concat gs = ps \<and>
    list_all (\<lambda>g. ContentAwareUnpackDatagram (concat g) n = Inr g \<and> (length g \<le> 1 \<or> length (concat g) < mtu)) gs"
proof (cases "length ps = 1")
  case True
  then obtain p where "ps = [p]" by (cases ps) auto
  then show ?thesis using assms unpack_full [of n "[p]"]
    by (intro exI [of _ "[[p]]"]) (simp add: compactRawPackets_def)
next
  case False
  let ?gs = "compact_groups mtu ps []"
  have "list_all (\<lambda>p. p \<noteq> []) ([] @ ps)" using assms(2) sized_nonempty by (fastforce simp: list_all_iff rec_full_def)
  then have sz: "list_all (\<lambda>g. length g \<le> 1 \<or> length (concat g) < mtu) ?gs" by (intro compact_groups_size) simp_all
  have "\<forall>g\<in>set ?gs. set g \<subseteq> set ps"    using arg_cong [OF compact_groups_concat [of mtu ps "[]"], of set] by auto
  then have "\<forall>g\<in>set ?gs. ContentAwareUnpackDatagram (concat g) n = Inr g"
    using assms(2) by (auto simp: list_all_iff intro!: unpack_full) blast
  then show ?thesis
    using sz False compact_loop_groups [of mtu ps "[]"] compact_groups_concat [of mtu ps "[]"]
    by (intro exI [of _ ?gs]) (auto simp: compactRawPackets_def list_all_iff)
qed

section \<open>Records of a handshake message\<close>

text \<open>A record in the clear around a fragment with a given sequence number.\<close>

definition plain_record :: "rec_header \<Rightarrow> u64 \<Rightarrow> bytes \<Rightarrow> bytes \<Rightarrow> bool" where
  "plain_record h seq fr p \<longleftrightarrow>
     (\<exists>hdr. rec_Marshal \<lparr>rh_ContentType = rh_ContentType h, rh_ContentLen = u16_len (length fr), rh_Major = rh_Major h,
        rh_Minor = rh_Minor h, rh_Epoch = rh_Epoch h, rh_SequenceNumber = seq, rh_ConnectionID = []\<rparr> = Inr hdr \<and> p = hdr @ fr)"

lemma next_seq_Suc: "fst (next_seq e (snd (next_seq e xs))) = fst (next_seq e xs) + 1"
  by (simp add: next_seq_def grow_seqs_def Let_def nth_append)

lemma seq_small: "unat (s :: u64) + n < 2 ^ 48 \<Longrightarrow> s + of_nat n \<le> MaxSequenceNumber"
proof -
  assume a: "unat s + n < 2 ^ 48"
  then have "unat (s + of_nat n) = unat s + n" by (simp add: unat_word_ariths unat_of_nat)
  then show ?thesis using a by (simp add: MaxSequenceNumber_def word_le_nat_alt)
qed

lemma handshake_records_plain:
  "unat (fst (next_seq (rh_Epoch h) xs)) + length frs < 2 ^ 48 \<Longrightarrow>
     \<exists>ps ys. handshake_records v h False False frs xs = (Inr ps, ys) \<and> length ps = length frs \<and>
       (\<forall>i<length frs. plain_record h (fst (next_seq (rh_Epoch h) xs) + of_nat i) (frs ! i) (ps ! i))"
proof (induction frs arbitrary: h xs)
  case (Cons fr frs)
  let ?s = "fst (next_seq (rh_Epoch h) xs)" and ?ys = "snd (next_seq (rh_Epoch h) xs)"
  let ?h = "\<lparr>rh_ContentType = rh_ContentType h, rh_ContentLen = u16_len (length fr), rh_Major = rh_Major h,
    rh_Minor = rh_Minor h, rh_Epoch = rh_Epoch h, rh_SequenceNumber = ?s, rh_ConnectionID = []\<rparr>"
  have le: "?s \<le> MaxSequenceNumber" using seq_small [of ?s 0] Cons.prems by simp
  obtain hdr where hdr: "rec_Marshal ?h = Inr hdr" using le by (simp add: rec_Marshal_def not_less [symmetric])
  have s1: "fst (next_seq (rh_Epoch ?h) ?ys) = ?s + 1" by (simp add: next_seq_Suc)
  have "unat (?s + 1) = unat ?s + 1" using Cons.prems by (simp add: unat_word_ariths)
  then obtain ps ys where ih: "handshake_records v ?h False False frs ?ys = (Inr ps, ys)" "length ps = length frs"
    "\<forall>i<length frs. plain_record ?h (?s + 1 + of_nat i) (frs ! i) (ps ! i)"
    using Cons.IH [of ?h ?ys] Cons.prems s1 by (auto simp: add.assoc)
  have "handshake_records v h False False (fr # frs) xs = (Inr ((hdr @ fr) # ps), ys)"
    using le hdr ih(1) by (simp add: Let_def seal_def not_less [symmetric])
  moreover have "plain_record h (?s + of_nat i) ((fr # frs) ! i) (((hdr @ fr) # ps) ! i)" if "i < length (fr # frs)" for i
  proof (cases i)
    case 0
    then show ?thesis using hdr by (simp add: plain_record_def)
  next
    case (Suc j)
    then show ?thesis using ih(3) that by (auto simp: plain_record_def add.assoc)
  qed
  ultimately show ?case using ih(2) by auto
qed simp

lemma plain_record_carries:
  "plain_record h s fr p \<Longrightarrow> rh_ContentType h = ContentTypeHandshake \<Longrightarrow> version_ok (rh_Major h) (rh_Minor h) \<Longrightarrow> carries fr p"
  unfolding plain_record_def carries_def by (metis rec_header.select_convs(1,3,4,7))

lemma plain_record_full:
  assumes "plain_record h s fr p" "rh_ContentType h \<noteq> ContentTypeConnectionID" "0 < length fr" "length fr < 65536"
  shows "rec_full n p \<and> length p = 13 + length fr"
proof -
  obtain hdr where hdr: "hdr = [rh_ContentType h, rh_Major h, rh_Minor h] @ put_u16 (rh_Epoch h) @ put_u48 s @ put_u16 (u16_len (length fr))"
    "p = hdr @ fr"
    using assms(1) by (auto simp: plain_record_def rec_Marshal_def split: if_splits)
  have hs: "rec_hsize n p = 13" using hdr assms(2) by (simp add: rec_hsize_def FixedHeaderSize_def)
  have "drop 11 p = put_u16 (u16_len (length fr)) @ fr" using hdr by simp
  moreover have "length p = 13 + length fr" using hdr by simp
  ultimately show ?thesis using hs assms(3,4) by (simp add: rec_full_def rec_sized_def)
qed

lemma fragment_length:
  assumes "fr \<in> set (fragmentHandshake g content mtu)"
  shows "0 < length fr \<and> length fr \<le> 12 + mtu"
proof -
  obtain i where i: "i < length (message_pieces content mtu)" "fr = hs_Marshal (piece_hdr g (message_pieces content mtu) i) @ message_pieces content mtu ! i"
    using assms by (auto simp: fragmentHandshake_pieces)
  have "length (message_pieces content mtu ! i) \<le> mtu"
    using i(1) splitBytes_nonempty [of mtu content] by (auto simp: message_pieces_def list_all_length split: if_splits)
  then show ?thesis using i(2) by (simp add: hs_Marshal_def)
qed

text \<open>The records the receiver finds in datagrams.\<close>

definition records_of :: "bytes list \<Rightarrow> bytes list" where
  "records_of ds = concat (map (\<lambda>d. case ContentAwareUnpackDatagram d 0 of Inl _ \<Rightarrow> [] | Inr ps \<Rightarrow> ps) ds)"


definition demo_env :: send_env where
  "demo_env = \<lparr>sv_encrypt = \<lambda>h raw. Inr raw, sv_padding = \<lambda>n. 0, sv_remoteCID = [7], sv_mtu = 2\<rparr>"

definition demo_packet :: "bool \<Rightarrow> dtls_packet" where
  "demo_packet cid = \<lparr>pk_header = \<lparr>rh_ContentType = 22, rh_ContentLen = 0, rh_Major = 0xfe, rh_Minor = 0xfd, rh_Epoch = 0,
     rh_SequenceNumber = 0, rh_ConnectionID = []\<rparr>, pk_content = HandshakeRaw [], pk_shouldWrapCID = cid, pk_shouldEncrypt = cid\<rparr>"


section \<open>Connection identifiers\<close>

text \<open>
  With a connection identifier all records of a handshake message, and of every
  retransmission of it, carry one record number: the number of the header of the packet and not
  the number that was taken from the counter, whatever the counters are.
\<close>

lemma cid_handshake_same_number:
  assumes "\<And>h raw p. sv_encrypt v h raw = Inr p \<Longrightarrow> take FixedHeaderSize p = take FixedHeaderSize raw"
  shows "pk_shouldWrapCID pkt \<Longrightarrow> processHandshakePacket v pkt g content xs = (Inr ps, ys) \<Longrightarrow> p \<in> set ps \<Longrightarrow>
    take 11 p = [ContentTypeConnectionID, rh_Major (pk_header pkt), rh_Minor (pk_header pkt)] @
      put_u16 (rh_Epoch (pk_header pkt)) @ put_u48 (rh_SequenceNumber (pk_header pkt))"
proof -
  have head: "take 11 q = take 11 raw" if "seal v enc h raw = Inr q" for enc h raw q
  proof -
    have "take FixedHeaderSize q = take FixedHeaderSize raw" using that assms by (auto simp: seal_def split: if_splits)
    then have "take 11 (take FixedHeaderSize q) = take 11 (take FixedHeaderSize raw)" by simp
    then show ?thesis by (simp add: FixedHeaderSize_def)
  qed
  have "p \<in> set ps \<Longrightarrow> handshake_records v h True enc frs xs = (Inr ps, ys) \<Longrightarrow>
    take 11 p = [ContentTypeConnectionID, rh_Major h, rh_Minor h] @ put_u16 (rh_Epoch h) @ put_u48 (rh_SequenceNumber h)" for h enc frs xs ps
  proof (induction frs arbitrary: h xs ps)
    case (Cons fr frs)
    let ?w = "wrap_cid (sv_remoteCID v) h ContentTypeHandshake fr (sv_padding v (length fr)) (rh_SequenceNumber h)"
    obtain raw q qs where c: "fst ?w = Inr raw" "seal v enc (snd ?w) raw = Inr q" "ps = q # qs"
      "\<exists>zs. handshake_records v (snd ?w) True enc frs (snd (next_seq (rh_Epoch h) xs)) = (Inr qs, zs) \<and> zs = ys"
      using Cons.prems(2) by (auto simp: Let_def split: if_splits sum.splits prod.splits)
    show ?case
    proof (cases "p = q")
      case True
      then show ?thesis using head [OF c(2)] c(1)
        by (auto simp: wrap_cid_def Let_def rec_Marshal_def split: sum.splits if_splits)
    next
      case False
      then show ?thesis using Cons.IH [of qs "snd ?w"] Cons.prems(1) c(3,4) by (auto simp: wrap_cid_def Let_def)
    qed
  qed simp
  then show "pk_shouldWrapCID pkt \<Longrightarrow> processHandshakePacket v pkt g content xs = (Inr ps, ys) \<Longrightarrow> p \<in> set ps \<Longrightarrow> ?thesis"
    by (simp add: processHandshakePacket_def)
qed


end
