(* ===== verification/Ccm.thy ===== *)
theory Ccm
  imports Go_Prelude
begin

text \<open>
  The CCM mode of authenticated encryption (\<^verbatim>\<open>golib/replace/dtls/pkg/crypto/ccm/ccm.go\<close>): counter mode
  with a CBC message authentication code over any block cipher of 16 bytes, which is an argument.
  The counter mode of the standard library that \<^verbatim>\<open>Seal\<close> and \<^verbatim>\<open>Open\<close> use is written out.
\<close>

section \<open>Blocks\<close>

definition ccmBlockSize :: nat where "ccmBlockSize = 16"

text \<open>\<^verbatim>\<open>copy(dst[i:], src)\<close> where the source fits.\<close>

definition put_at :: "nat \<Rightarrow> bytes \<Rightarrow> bytes \<Rightarrow> bytes" where
  "put_at i src dst = take i dst @ src @ drop (i + length src) dst"

definition xor_bytes :: "bytes \<Rightarrow> bytes \<Rightarrow> bytes" where
  "xor_bytes xs ys = map (\<lambda>(x, y). x XOR y) (zip xs ys)"

text \<open>\<^verbatim>\<open>b.Encrypt(dst, src)\<close> on arrays of 16 bytes: the cipher fills the block.\<close>

definition block_encrypt :: "(bytes \<Rightarrow> bytes) \<Rightarrow> bytes \<Rightarrow> bytes" where
  "block_encrypt E b = take ccmBlockSize (E b @ replicate ccmBlockSize 0)"

text \<open>The counter of \<^verbatim>\<open>cipher.NewCTR\<close>: the block as a big-endian number, plus one.\<close>

fun inc_le :: "bytes \<Rightarrow> bytes" where
  "inc_le [] = []"
| "inc_le (b # bs) = (if b + 1 = 0 then 0 # inc_le bs else (b + 1) # bs)"

definition ctr_inc :: "bytes \<Rightarrow> bytes" where
  "ctr_inc iv = rev (inc_le (rev iv))"

function XORKeyStream :: "(bytes \<Rightarrow> bytes) \<Rightarrow> bytes \<Rightarrow> bytes \<Rightarrow> bytes" where
  "XORKeyStream E iv src =
     (if src = [] then []
      else xor_bytes (take ccmBlockSize src) (block_encrypt E iv) @ XORKeyStream E (ctr_inc iv) (drop ccmBlockSize src))"
  by pat_completeness auto
termination by (relation "measure (\<lambda>(E, iv, src). length src)") (auto simp: ccmBlockSize_def)

declare XORKeyStream.simps [simp del]

section \<open>Parameters\<close>

record ccm =
  cc_M :: byte
  cc_L :: byte

datatype ccm_error =
    ErrInvalidBlockSize | ErrInvalidTagSize | ErrInvalidNonceSize | ErrPlaintextTooLong
  | ErrOpen | ErrCiphertextTooShort | ErrCiphertextTooLong

definition NewCCM :: "nat \<Rightarrow> int \<Rightarrow> int \<Rightarrow> ccm_error + ccm" where
  "NewCCM blockSize tagsize noncesize =
     (if blockSize \<noteq> ccmBlockSize then Inl ErrInvalidBlockSize
      else if tagsize < 4 \<or> 16 < tagsize \<or> tagsize AND 1 \<noteq> 0 then Inl ErrInvalidTagSize
      else let lensize = 15 - noncesize in
        if lensize < 2 \<or> 8 < lensize then Inl ErrInvalidNonceSize
        else Inr \<lparr>cc_M = word_of_int tagsize, cc_L = word_of_int lensize\<rparr>)"

definition NonceSize :: "ccm \<Rightarrow> nat" where
  "NonceSize c = 15 - unat (cc_L c)"

definition Overhead :: "ccm \<Rightarrow> nat" where
  "Overhead c = unat (cc_M c)"

text \<open>\<^verbatim>\<open>maxlen\<close> with 64-bit integers; a shift by 64 gives 0.\<close>

definition maxlen :: "byte \<Rightarrow> nat \<Rightarrow> nat" where
  "maxlen l tagsize =
     (let mLen = push_bit (unat (8 * l)) (1 :: u64) - 1; m64 = 0x7FFFFFFFFFFFFFFF - (of_nat tagsize :: u64)
      in unat (if 8 < l \<or> m64 < mLen then m64 else mLen))"

definition MaxLength :: "ccm \<Rightarrow> nat" where
  "MaxLength c = maxlen (cc_L c) (Overhead c)"

text \<open>\<^verbatim>\<open>MaxNonceLength\<close>: the longest nonce for a length of plaintext, 0 if there is none.\<close>

definition MaxNonceLength :: "nat \<Rightarrow> nat" where
  "MaxNonceLength pdatalen =
     (case find (\<lambda>l. pdatalen \<le> maxlen (of_nat l) 16) [2..<9] of None \<Rightarrow> 0 | Some l \<Rightarrow> 15 - l)"

section \<open>The authentication code\<close>

definition cbcRound :: "(bytes \<Rightarrow> bytes) \<Rightarrow> bytes \<Rightarrow> bytes \<Rightarrow> bytes" where
  "cbcRound E mac data = block_encrypt E (xor_bytes mac data)"

function cbcData :: "(bytes \<Rightarrow> bytes) \<Rightarrow> bytes \<Rightarrow> bytes \<Rightarrow> bytes" where
  "cbcData E mac data =
     (if ccmBlockSize \<le> length data then cbcData E (cbcRound E mac (take ccmBlockSize data)) (drop ccmBlockSize data)
      else if 0 < length data then cbcRound E mac (put_at 0 data (replicate ccmBlockSize 0))
      else mac)"
  by pat_completeness auto
termination by (relation "measure (\<lambda>(E, mac, data). length data)") (auto simp: ccmBlockSize_def)

declare cbcData.simps [simp del]

text \<open>The length of the additional data at the start of its first block.\<close>

definition adata_prefix :: "nat \<Rightarrow> bytes" where
  "adata_prefix n =
     (if n \<le> 0xfeff then put_u16 (of_nat n)
      else [0xfe, 0xff] @ (if n < 2 ^ 32 then put_u32 (of_nat n) else put_u64 (of_nat n)))"

definition ccm_tag :: "ccm \<Rightarrow> (bytes \<Rightarrow> bytes) \<Rightarrow> bytes \<Rightarrow> bytes \<Rightarrow> bytes \<Rightarrow> ccm_error + bytes" where
  "ccm_tag c E nonce plaintext adata =
     (let flags = (if 0 < length adata then 64 else 0) OR push_bit 2 (cc_M c - 2) OR (cc_L c - 1) in
      if length nonce \<noteq> NonceSize c then Inl ErrInvalidNonceSize
      else if MaxLength c < length plaintext then Inl ErrPlaintextTooLong
      else let b0 = put_at 1 nonce (put_at 8 (put_u64 (of_nat (length plaintext))) (put_at 0 [flags] (replicate ccmBlockSize 0)));
               mac = block_encrypt E b0;
               mac = (if 0 < length adata
                 then let pre = adata_prefix (length adata);
                          i = min (ccmBlockSize - length pre) (length adata);
                          block = put_at 0 (pre @ take i adata) (replicate ccmBlockSize 0)
                      in cbcData E (cbcRound E mac block) (drop i adata)
                 else mac);
               mac = (if 0 < length plaintext then cbcData E mac plaintext else mac)
           in Inr (take (unat (cc_M c)) mac))"

section \<open>Sealing and opening\<close>

text \<open>The first counter block; with the last bit set it is the start of the key stream.\<close>

definition ccm_iv :: "ccm \<Rightarrow> bytes \<Rightarrow> bytes" where
  "ccm_iv c nonce = put_at 1 nonce (put_at 0 [cc_L c - 1] (replicate ccmBlockSize 0))"

definition ccm_iv1 :: "ccm \<Rightarrow> bytes \<Rightarrow> bytes" where
  "ccm_iv1 c nonce = (let iv = ccm_iv c nonce in iv[length iv - 1 := iv ! (length iv - 1) OR 1])"

text \<open>\<^verbatim>\<open>Seal\<close>; \<open>None\<close> is the panic on an error of \<^verbatim>\<open>tag\<close>.\<close>

definition ccm_Seal :: "ccm \<Rightarrow> (bytes \<Rightarrow> bytes) \<Rightarrow> bytes \<Rightarrow> bytes \<Rightarrow> bytes \<Rightarrow> bytes option" where
  "ccm_Seal c E nonce plaintext adata =
     (case ccm_tag c E nonce plaintext adata of
        Inl _ \<Rightarrow> None
      | Inr tag \<Rightarrow>
          let s0 = block_encrypt E (ccm_iv c nonce); tag = xor_bytes tag s0
          in Some (XORKeyStream E (ccm_iv1 c nonce) plaintext @ tag))"

definition ccm_Open :: "ccm \<Rightarrow> (bytes \<Rightarrow> bytes) \<Rightarrow> bytes \<Rightarrow> bytes \<Rightarrow> bytes \<Rightarrow> ccm_error + bytes" where
  "ccm_Open c E nonce ciphertext adata =
     (if length ciphertext < unat (cc_M c) then Inl ErrCiphertextTooShort
      else if MaxLength c + Overhead c < length ciphertext then Inl ErrCiphertextTooLong
      else let n = length ciphertext - unat (cc_M c);
               s0 = block_encrypt E (ccm_iv c nonce);
               tag = xor_bytes (drop n ciphertext) s0;
               plaintext = XORKeyStream E (ccm_iv1 c nonce) (take n ciphertext)
           in case ccm_tag c E nonce plaintext adata of
             Inl e \<Rightarrow> Inl e
           | Inr expectedTag \<Rightarrow> if tag = expectedTag then Inr plaintext else Inl ErrOpen)"


section \<open>Lemmas on blocks and streams\<close>

lemma length_put_at [simp]: "i + length src \<le> length dst \<Longrightarrow> length (put_at i src dst) = length dst"
  by (simp add: put_at_def)

lemma length_xor_bytes [simp]: "length (xor_bytes xs ys) = min (length xs) (length ys)"
  by (simp add: xor_bytes_def)

lemma xor_bytes_cancel: "length xs \<le> length ys \<Longrightarrow> xor_bytes (xor_bytes xs ys) ys = xs"
proof (induction xs arbitrary: ys)
  case (Cons x xs)
  then show ?case by (cases ys) (simp_all add: xor_bytes_def xor.assoc)
qed (simp add: xor_bytes_def)

lemma xor_bytes_eq_iff:
  "length xs = length zs \<Longrightarrow> length xs \<le> length ys \<Longrightarrow> xor_bytes xs ys = zs \<longleftrightarrow> xs = xor_bytes zs ys"
  using xor_bytes_cancel by metis

lemma length_block_encrypt [simp]: "length (block_encrypt E b) = ccmBlockSize"
  by (simp add: block_encrypt_def)

lemma length_XORKeyStream [simp]: "length (XORKeyStream E iv src) = length src"
  by (induction E iv src rule: XORKeyStream.induct) (subst XORKeyStream.simps, auto simp: min_def)

lemma XORKeyStream_Nil [simp]: "XORKeyStream E iv [] = []"
  by (subst XORKeyStream.simps) simp

lemma XORKeyStream_involution: "XORKeyStream E iv (XORKeyStream E iv src) = src"
proof (induction E iv src rule: XORKeyStream.induct)
  case (1 E iv src)
  show ?case
  proof (cases "src = []")
    case True
    then show ?thesis by simp
  next
    case False
    let ?x = "xor_bytes (take ccmBlockSize src) (block_encrypt E iv)"
    let ?y = "XORKeyStream E (ctr_inc iv) (drop ccmBlockSize src)"
    have s: "XORKeyStream E iv src = ?x @ ?y" using False by (subst XORKeyStream.simps) simp
    have x: "xor_bytes ?x (block_encrypt E iv) = take ccmBlockSize src" by (simp add: xor_bytes_cancel)
    have len: "length ?x = min (length src) ccmBlockSize" by simp
    have "take ccmBlockSize (?x @ ?y) = ?x \<and> drop ccmBlockSize (?x @ ?y) = ?y"
    proof (cases "ccmBlockSize \<le> length src")
      case True
      then have "length ?x = ccmBlockSize" using len by simp
      then show ?thesis by simp
    next
      case False
      then have "?y = []" "length ?x \<le> ccmBlockSize" by simp_all
      then show ?thesis by simp
    qed
    note t = conjunct1 [OF this] conjunct2 [OF this]
    have "0 < length ?x" unfolding len using False by (simp add: ccmBlockSize_def)
    then have ne: "?x @ ?y \<noteq> []" by (simp only: length_greater_0_conv) simp
    have "XORKeyStream E iv (?x @ ?y) = xor_bytes ?x (block_encrypt E iv) @ XORKeyStream E (ctr_inc iv) ?y"
      by (subst XORKeyStream.simps) (simp only: ne t if_False)
    then show ?thesis unfolding s x using 1 [OF False] by simp
  qed
qed

lemma length_cbcRound [simp]: "length (cbcRound E mac d) = ccmBlockSize"
  by (simp add: cbcRound_def)

lemma length_cbcData [simp]: "length mac = ccmBlockSize \<Longrightarrow> length (cbcData E mac data) = ccmBlockSize"
  by (induction E mac data rule: cbcData.induct) (subst cbcData.simps, auto)

text \<open>The parameters that \<^verbatim>\<open>NewCCM\<close> allows.\<close>

definition ccm_wf :: "ccm \<Rightarrow> bool" where
  "ccm_wf c \<longleftrightarrow> cc_M c \<le> 16 \<and> 2 \<le> cc_L c \<and> cc_L c \<le> 8"

lemma unat_byte_of_int: "0 \<le> i \<Longrightarrow> i < 256 \<Longrightarrow> unat (word_of_int i :: byte) = nat i"
proof -
  assume a: "0 \<le> i" "i < 256"
  obtain n where n: "i = int n" using a(1) by (rule nonneg_int_cases)
  then have "n < 256" using a(2) by linarith
  then show ?thesis unfolding n by (simp add: unat_of_nat)
qed

lemma NewCCM_wf:
  assumes "NewCCM n t k = Inr c"
  shows "ccm_wf c \<and> unat (cc_M c) = nat t \<and> NonceSize c = nat k"
proof -
  have b: "4 \<le> t" "t \<le> 16" "7 \<le> k" "k \<le> 13" "cc_M c = word_of_int t" "cc_L c = word_of_int (15 - k)"
    using assms by (auto simp: NewCCM_def Let_def split: if_splits)
  have M: "unat (cc_M c) = nat t" using b by (simp only: b(5) unat_byte_of_int)
  have L: "unat (cc_L c) = nat (15 - k)" using b by (simp only: b(6) unat_byte_of_int)
  have "unat (cc_M c) \<le> 16" "2 \<le> unat (cc_L c)" "unat (cc_L c) \<le> 8" "15 - unat (cc_L c) = nat k"
    unfolding M L using b by linarith+
  then show ?thesis using M by (simp add: ccm_wf_def NonceSize_def word_le_nat_alt)
qed

lemma length_ccm_tag: "ccm_wf c \<Longrightarrow> ccm_tag c E n p a = Inr t \<Longrightarrow> length t = unat (cc_M c)"
proof -
  assume a: "ccm_wf c" "ccm_tag c E n p a = Inr t"
  have "unat (cc_M c) \<le> 16" using a(1) by (simp add: ccm_wf_def word_le_nat_alt)
  then show ?thesis using a(2) by (auto simp: ccm_tag_def Let_def ccmBlockSize_def split: if_splits)
qed

lemma ccm_tag_length_ok: "ccm_tag c E n p a = Inr t \<Longrightarrow> length p \<le> MaxLength c \<and> length n = NonceSize c"
  by (auto simp: ccm_tag_def Let_def split: if_splits)

lemma ccm_seal_length: "ccm_wf c \<Longrightarrow> ccm_Seal c E n p a = Some x \<Longrightarrow> length x = length p + unat (cc_M c)"
proof -
  assume a: "ccm_wf c" "ccm_Seal c E n p a = Some x"
  have "unat (cc_M c) \<le> 16" using a(1) by (simp add: ccm_wf_def word_le_nat_alt)
  then show ?thesis using a length_ccm_tag [OF a(1)]
    by (auto simp: ccm_Seal_def Let_def ccmBlockSize_def split: sum.splits)
qed

lemma ccm_open_seal:
  assumes "ccm_wf c"
  shows "ccm_Open c E nonce ct adata = Inr p \<longleftrightarrow> ccm_Seal c E nonce p adata = Some ct"
proof
  let ?s0 = "block_encrypt E (ccm_iv c nonce)" and ?iv = "ccm_iv1 c nonce" and ?M = "unat (cc_M c)"
  have M: "?M \<le> length ?s0" using assms by (simp add: ccm_wf_def word_le_nat_alt ccmBlockSize_def)
  {
    assume o: "ccm_Open c E nonce ct adata = Inr p"
    let ?n = "length ct - ?M"
    have len: "?M \<le> length ct" and p: "p = XORKeyStream E ?iv (take ?n ct)"
      and t: "ccm_tag c E nonce p adata = Inr (xor_bytes (drop ?n ct) ?s0)"
      using o by (auto simp: ccm_Open_def Let_def split: if_splits sum.splits)
    have "xor_bytes (xor_bytes (drop ?n ct) ?s0) ?s0 = drop ?n ct" using M len by (intro xor_bytes_cancel) simp
    then show "ccm_Seal c E nonce p adata = Some ct"
      using t p by (simp add: ccm_Seal_def Let_def XORKeyStream_involution)
  next
    assume s: "ccm_Seal c E nonce p adata = Some ct"
    then obtain t where t: "ccm_tag c E nonce p adata = Inr t" and ct: "ct = XORKeyStream E ?iv p @ xor_bytes t ?s0"
      by (auto simp: ccm_Seal_def Let_def split: sum.splits)
    have lt: "length t = ?M" using length_ccm_tag [OF assms t] .
    then have n: "length ct - ?M = length p" "?M \<le> length ct" using M unfolding ct by simp_all
    have x: "xor_bytes (xor_bytes t ?s0) ?s0 = t" using M lt by (intro xor_bytes_cancel) simp
    have "length ct \<le> MaxLength c + Overhead c" using ccm_tag_length_ok [OF t] M lt by (simp add: ct Overhead_def)
    then show "ccm_Open c E nonce ct adata = Inr p"
      using n t x by (simp add: ccm_Open_def Let_def ct XORKeyStream_involution)
  }
qed

text \<open>
  C11: \<^verbatim>\<open>Open\<close> is the exact inverse of \<^verbatim>\<open>Seal\<close>: for any block cipher and any parameters that \<^verbatim>\<open>NewCCM\<close>
  accepts, a ciphertext opens to a plaintext if and only if sealing this plaintext with the same
  nonce and additional data gives the ciphertext, bit for bit; a sealed text is longer than the
  plaintext by the tag.
\<close>

theorem ccm_open_iff_seal:
  assumes "NewCCM blockSize tagsize noncesize = Inr c"
  shows "(ccm_Open c E nonce ct adata = Inr p \<longleftrightarrow> ccm_Seal c E nonce p adata = Some ct) \<and>
    (\<forall>x. ccm_Seal c E nonce p adata = Some x \<longrightarrow> length x = length p + nat tagsize)"
  using NewCCM_wf [OF assms] ccm_open_seal [of c E nonce ct adata p] ccm_seal_length [of c E nonce p adata] by auto


section \<open>The interface of authenticated encryption\<close>

text \<open>
  What the record layer relies on in an instance of \<^verbatim>\<open>cipher.AEAD\<close>: opening is the exact inverse of
  sealing and a ciphertext is longer by a fixed tag. The absence of a value is a panic of the one
  and an error of the other.
\<close>

locale aead =
  fixes seal :: "bytes \<Rightarrow> bytes \<Rightarrow> bytes \<Rightarrow> bytes option"
    and unseal :: "bytes \<Rightarrow> bytes \<Rightarrow> bytes \<Rightarrow> bytes option"
    and tagLen :: nat
  assumes unseal_iff: "unseal n c a = Some p \<longleftrightarrow> seal n p a = Some c"
    and seal_length: "seal n p a = Some c \<Longrightarrow> length c = length p + tagLen"
    and tag_pos: "0 < tagLen"
begin

lemma seal_inj: "seal n p a = Some c \<Longrightarrow> seal n q a = Some c \<Longrightarrow> p = q"
  using unseal_iff by (metis option.inject)

lemma unseal_length: "unseal n c a = Some p \<Longrightarrow> length p = length c - tagLen \<and> tagLen \<le> length c"
  by (simp add: unseal_iff seal_length)

end

text \<open>The two tag lengths of the DTLS cipher suites, with nonces of 12 bytes.\<close>

datatype CCMTagLen = CCMTagLength8 | CCMTagLength

definition tag_bytes :: "CCMTagLen \<Rightarrow> nat" where
  "tag_bytes t = (case t of CCMTagLength8 \<Rightarrow> 8 | CCMTagLength \<Rightarrow> 16)"

definition ccmNonceLength :: nat where "ccmNonceLength = 12"

definition dtls_ccm :: "CCMTagLen \<Rightarrow> ccm" where
  "dtls_ccm t = \<lparr>cc_M = of_nat (tag_bytes t), cc_L = 3\<rparr>"

lemma dtls_ccm_new: "NewCCM ccmBlockSize (int (tag_bytes t)) (int ccmNonceLength) = Inr (dtls_ccm t)"
  by (cases t) (simp_all add: NewCCM_def dtls_ccm_def tag_bytes_def ccmNonceLength_def)

lemma dtls_ccm_wf: "ccm_wf (dtls_ccm t)" "unat (cc_M (dtls_ccm t)) = tag_bytes t" "NonceSize (dtls_ccm t) = 12"
  using NewCCM_wf [OF dtls_ccm_new [of t]] by (simp_all add: ccmNonceLength_def)

definition ccm_unseal :: "CCMTagLen \<Rightarrow> (bytes \<Rightarrow> bytes) \<Rightarrow> bytes \<Rightarrow> bytes \<Rightarrow> bytes \<Rightarrow> bytes option" where
  "ccm_unseal t E n c a = (case ccm_Open (dtls_ccm t) E n c a of Inl _ \<Rightarrow> None | Inr p \<Rightarrow> Some p)"

interpretation ccm_mode: aead "ccm_Seal (dtls_ccm t) E" "ccm_unseal t E" "tag_bytes t" for t E
proof
  show "ccm_unseal t E n c a = Some p \<longleftrightarrow> ccm_Seal (dtls_ccm t) E n p a = Some c" for n c a p
    using ccm_open_seal [OF dtls_ccm_wf(1), of t E n c a p] by (auto simp: ccm_unseal_def split: sum.splits)
  show "length c = length p + tag_bytes t" if "ccm_Seal (dtls_ccm t) E n p a = Some c" for n p a c
    using ccm_seal_length [OF dtls_ccm_wf(1) that] dtls_ccm_wf(2) by simp
qed (cases t; simp add: tag_bytes_def)

lemma ccm_Seal_total: "length n = 12 \<Longrightarrow> length p < 2 ^ 24 \<Longrightarrow> \<exists>c. ccm_Seal (dtls_ccm t) E n p a = Some c"
proof -
  assume a: "length n = 12" "length p < 2 ^ 24"
  have "MaxLength (dtls_ccm t) = 2 ^ 24 - 1"
    by (cases t) (simp_all add: MaxLength_def maxlen_def dtls_ccm_def tag_bytes_def Overhead_def Let_def)
  then show ?thesis using a dtls_ccm_wf(3) [of t] by (simp add: ccm_Seal_def ccm_tag_def Let_def)
qed

theorem ccm_open_iff_seal_witness:
  "\<exists>c x. NewCCM 16 8 12 = Inr c \<and> ccm_Seal c (map (\<lambda>b. b + 3)) [1, 2, 3, 4, 5, 6, 7, 8, 9, 10, 11, 12] [42, 43] [7] = Some x \<and>
     length x = 10 \<and> ccm_Open c (map (\<lambda>b. b + 3)) [1, 2, 3, 4, 5, 6, 7, 8, 9, 10, 11, 12] x [7] = Inr [42, 43]"
proof -
  let ?c = "dtls_ccm CCMTagLength8" and ?E = "map (\<lambda>b. b + 3)" and ?n = "[1, 2, 3, 4, 5, 6, 7, 8, 9, 10, 11, 12]"
  have c: "NewCCM 16 8 12 = Inr ?c"
    using dtls_ccm_new [of CCMTagLength8] by (simp add: tag_bytes_def ccmNonceLength_def ccmBlockSize_def)
  obtain x where x: "ccm_Seal ?c ?E ?n [42, 43] [7] = Some x"
    using ccm_Seal_total [of ?n "[42, 43]" CCMTagLength8 ?E "[7]"] by auto
  show ?thesis using ccm_open_iff_seal [OF c, of ?E ?n x "[7]" "[42, 43]"] c x by auto
qed

end
