(* ===== verification/Dtls_Cipher.thy ===== *)
theory Dtls_Cipher
  imports Ccm Dtls_Read Dtls_Send
begin

text \<open>
  The protection of DTLS records (\<^verbatim>\<open>golib/replace/dtls/pkg/crypto\<close>): the additional data and the two
  modes GCM and CCM in \<^verbatim>\<open>ciphersuite\<close>, the key derivation in \<^verbatim>\<open>prf\<close> and the cipher suites of
  \<^verbatim>\<open>internal/ciphersuite\<close> that put them together. With them the sending side and the receiving side
  of a connection are composed.

  The hash function in HMAC, the block cipher and the GCM mode of the standard library are arguments.
\<close>

section \<open>Additional data\<close>

definition seqNumPlaceholder :: u64 where "seqNumPlaceholder = 0xffffffffffffffff"

definition generateAEADAdditionalData :: "rec_header \<Rightarrow> u16 \<Rightarrow> bytes" where
  "generateAEADAdditionalData h payloadLen =
     (let ad = put_at 0 (put_u64 (rh_SequenceNumber h)) (replicate 13 0);
          ad = put_at 0 (put_u16 (rh_Epoch h)) ad;
          ad = put_at 8 [rh_ContentType h, rh_Major h, rh_Minor h] ad
      in put_at (length ad - 2) (put_u16 payloadLen) ad)"

definition generateAEADAdditionalDataCID :: "rec_header \<Rightarrow> u16 \<Rightarrow> bytes" where
  "generateAEADAdditionalDataCID h payloadLen =
     put_u64 seqNumPlaceholder @ [ContentTypeConnectionID, of_nat (length (rh_ConnectionID h)), ContentTypeConnectionID,
       rh_Major h, rh_Minor h] @ put_u16 (rh_Epoch h) @ put_u48 (rh_SequenceNumber h) @ rh_ConnectionID h @ put_u16 payloadLen"

definition additionalData :: "rec_header \<Rightarrow> u16 \<Rightarrow> bytes" where
  "additionalData h n =
     (if rh_ContentType h = ContentTypeConnectionID then generateAEADAdditionalDataCID h n else generateAEADAdditionalData h n)"

section \<open>Records under an authenticated mode\<close>

text \<open>
  One end of a connection: what it seals with, what it opens with, the implicit parts of the nonces
  and the length of the tag (\<^verbatim>\<open>GCM\<close> and \<^verbatim>\<open>CCM\<close> have the same fields).
\<close>

record rec_aead =
  ra_seal :: "bytes \<Rightarrow> bytes \<Rightarrow> bytes \<Rightarrow> bytes option"
  ra_open :: "bytes \<Rightarrow> bytes \<Rightarrow> bytes \<Rightarrow> bytes option"
  ra_localIV :: bytes
  ra_remoteIV :: bytes
  ra_tagLen :: nat

text \<open>
  \<^verbatim>\<open>Encrypt\<close>, with the eight random bytes of the nonce as an argument, \<open>None\<close> for a failure of the
  random source. The record is at least as long as its header.
\<close>

definition aead_Encrypt :: "rec_aead \<Rightarrow> bytes option \<Rightarrow> rec_header \<Rightarrow> bytes \<Rightarrow> dtls_error + bytes" where
  "aead_Encrypt a rnd h raw =
     (let payload = drop (rec_Size h) raw; hdr = take (rec_Size h) raw in
      case rnd of
        None \<Rightarrow> Inl ErrRandom
      | Some x \<Rightarrow>
          (case ra_seal a (take 4 (ra_localIV a) @ x) payload (additionalData h (u16_len (length payload))) of
             None \<Rightarrow> Inl PanicSeal
           | Some encryptedPayload \<Rightarrow>
               let r = hdr @ x @ encryptedPayload
               in Inr (put_at (rec_Size h - 2) (put_u16 (u16_len (length r - rec_Size h))) r)))"

text \<open>\<^verbatim>\<open>Decrypt\<close>, with the length of the connection identifier to expect.\<close>

definition aead_Decrypt :: "rec_aead \<Rightarrow> nat \<Rightarrow> bytes \<Rightarrow> dtls_error + bytes" where
  "aead_Decrypt a n inp =
     (case rec_Unmarshal inp (rec_header0\<lparr>rh_ConnectionID := replicate n 0\<rparr>) of
        Inl e \<Rightarrow> Inl e
      | Inr h \<Rightarrow>
          if rh_ContentType h = ContentTypeChangeCipherSpec then Inr inp
          else if length inp \<le> 8 + rec_Size h then Inl ErrNotEnoughRoomForNonce
          else let nonce = take 4 (ra_remoteIV a) @ take 8 (drop (rec_Size h) inp);
                   out = drop (rec_Size h + 8) inp;
                   ad = additionalData h (word_of_int (int (length out) - int (ra_tagLen a)))
               in case ra_open a nonce out ad of
                 None \<Rightarrow> Inl ErrDecryptPacket
               | Some p \<Rightarrow> Inr (take (rec_Size h) inp @ p))"

text \<open>The methods of \<^verbatim>\<open>CCM\<close> are written out once more in the source, with the same steps.\<close>

definition CCM_Encrypt :: "rec_aead \<Rightarrow> bytes option \<Rightarrow> rec_header \<Rightarrow> bytes \<Rightarrow> dtls_error + bytes" where
  "CCM_Encrypt = aead_Encrypt"

definition CCM_Decrypt :: "rec_aead \<Rightarrow> nat \<Rightarrow> bytes \<Rightarrow> dtls_error + bytes" where
  "CCM_Decrypt = aead_Decrypt"

section \<open>What the record layer gets from an authenticated mode\<close>

text \<open>
  The end \<open>b\<close> opens what the end \<open>a\<close> seals: the same tag, the same implicit nonce and a pair of
  functions with the laws of the interface.
\<close>

definition aead_pair :: "rec_aead \<Rightarrow> rec_aead \<Rightarrow> bool" where
  "aead_pair a b \<longleftrightarrow> aead (ra_seal a) (ra_open b) (ra_tagLen b) \<and> take 4 (ra_localIV a) = take 4 (ra_remoteIV b)"

lemma rec_Size_Marshal: "rec_Marshal h = Inr hdr \<Longrightarrow> length hdr = rec_Size h"
  by (auto simp: rec_Marshal_def rec_Size_def FixedHeaderSize_def split: if_splits)

lemma put_len_Marshal:
  assumes "rec_Marshal h = Inr hdr"
  shows "rec_Marshal (h\<lparr>rh_ContentLen := l\<rparr>) = Inr (take (rec_Size h - 2) hdr @ put_u16 l)"
    and "put_at (rec_Size h - 2) (put_u16 l) (hdr @ r) = take (rec_Size h - 2) hdr @ put_u16 l @ r"
proof -
  obtain pre where pre: "pre = [rh_ContentType h, rh_Major h, rh_Minor h] @ put_u16 (rh_Epoch h) @ put_u48 (rh_SequenceNumber h) @ rh_ConnectionID h"
    by simp
  have m: "rec_Marshal (h\<lparr>rh_ContentLen := k\<rparr>) = (if MaxSequenceNumber < rh_SequenceNumber h then Inl ErrSequenceNumberOverflow else Inr (pre @ put_u16 k))" for k
    by (simp add: rec_Marshal_def pre)
  have h: "hdr = pre @ put_u16 (rh_ContentLen h)" "\<not> MaxSequenceNumber < rh_SequenceNumber h"
    using assms m [of "rh_ContentLen h"] by (auto split: if_splits)
  have len: "rec_Size h - 2 = length pre" by (simp add: rec_Size_def FixedHeaderSize_def pre)
  show "rec_Marshal (h\<lparr>rh_ContentLen := l\<rparr>) = Inr (take (rec_Size h - 2) hdr @ put_u16 l)"
    unfolding len h(1) using h(2) by (simp add: m)
  show "put_at (rec_Size h - 2) (put_u16 l) (hdr @ r) = take (rec_Size h - 2) hdr @ put_u16 l @ r"
    unfolding len h(1) by (simp add: put_at_def)
qed

lemma additionalData_len [simp]: "additionalData (h\<lparr>rh_ContentLen := l\<rparr>) n = additionalData h n"
  by (simp add: additionalData_def generateAEADAdditionalData_def generateAEADAdditionalDataCID_def)

lemma word_of_len: "word_of_int (int (m + t) - int t) = u16_len m"
  by (simp add: u16_len_def)

text \<open>The header a sealed record has: with the length of what is behind it.\<close>

definition sealed_header :: "rec_header \<Rightarrow> nat \<Rightarrow> rec_header" where
  "sealed_header h n = h\<lparr>rh_ContentLen := u16_len n\<rparr>"

text \<open>A header that the receiver, who expects identifiers of \<open>n\<close> bytes, reads back.\<close>

definition header_fits :: "rec_header \<Rightarrow> nat \<Rightarrow> bool" where
  "header_fits h n \<longleftrightarrow> rh_SequenceNumber h \<le> MaxSequenceNumber \<and> version_ok (rh_Major h) (rh_Minor h) \<and>
     length (rh_ConnectionID h) = n \<and> (rh_ContentType h \<noteq> ContentTypeConnectionID \<longrightarrow> n = 0)"

lemma header_fits_read:
  assumes "header_fits h n" "rec_Marshal (h\<lparr>rh_ContentLen := l\<rparr>) = Inr bs"
  shows "rec_Unmarshal (bs @ r) (rec_header0\<lparr>rh_ConnectionID := replicate n 0\<rparr>) = Inr (h\<lparr>rh_ContentLen := 0\<rparr>)"
    and "length bs = rec_Size h"
  using rec_Unmarshal_Marshal [of "h\<lparr>rh_ContentLen := l\<rparr>" "rec_header0\<lparr>rh_ConnectionID := replicate n 0\<rparr>" r] assms
  by (auto simp: header_fits_def rec_header0_def rec_Size_def)

lemma aead_Encrypt_eq:
  assumes "rec_Marshal h = Inr hdr" "ra_seal a (take 4 (ra_localIV a) @ x) payload (additionalData h (u16_len (length payload))) = Some ct"
  shows "\<exists>hd. rec_Marshal (sealed_header h (length x + length ct)) = Inr hd \<and> length hd = rec_Size h \<and>
    aead_Encrypt a (Some x) h (hdr @ payload) = Inr (hd @ x @ ct)"
proof -
  note len = rec_Size_Marshal [OF assms(1)]
  let ?hd = "take (rec_Size h - 2) hdr @ put_u16 (u16_len (length x + length ct))"
  have "rec_Marshal (sealed_header h (length x + length ct)) = Inr ?hd"
    using put_len_Marshal(1) [OF assms(1)] by (simp add: sealed_header_def)
  moreover have "length ?hd = rec_Size h" using len by (simp add: rec_Size_def FixedHeaderSize_def)
  moreover have "aead_Encrypt a (Some x) h (hdr @ payload) = Inr (?hd @ x @ ct)"
    using len assms(2) put_len_Marshal(2) [OF assms(1)] by (simp add: aead_Encrypt_def)
  ultimately show ?thesis by blast
qed

text \<open>A record that one end seals is opened by the other to the header with the new length and the payload.\<close>

lemma aead_record_roundtrip:
  assumes "aead_pair a b" "header_fits h n" "rh_ContentType h \<noteq> ContentTypeChangeCipherSpec" "length x = 8"
    and "rec_Marshal h = Inr hdr" "aead_Encrypt a (Some x) h (hdr @ payload) = Inr r"
  shows "\<exists>hd. rec_Marshal (sealed_header h (length r - rec_Size h)) = Inr hd \<and> length hd = rec_Size h \<and>
    length r = rec_Size h + 8 + length payload + ra_tagLen b \<and> take (rec_Size h) r = hd \<and> aead_Decrypt b n r = Inr (hd @ payload)"
proof -
  let ?nonce = "take 4 (ra_localIV a) @ x" and ?ad = "additionalData h (u16_len (length payload))"
  obtain ct where ct: "ra_seal a ?nonce payload ?ad = Some ct"
    using assms(6) rec_Size_Marshal [OF assms(5)] by (auto simp: aead_Encrypt_def Let_def split: option.splits)
  obtain hd where hd: "rec_Marshal (sealed_header h (8 + length ct)) = Inr hd" "length hd = rec_Size h" "r = hd @ x @ ct"
    using aead_Encrypt_eq [OF assms(5) ct] assms(4,6) by auto
  have op: "ra_open b ?nonce ct ?ad = Some payload" and lct: "length ct = length payload + ra_tagLen b"
    using assms(1) ct aead.unseal_iff aead.seal_length unfolding aead_pair_def by blast+
  have rd: "rec_Unmarshal r (rec_header0\<lparr>rh_ConnectionID := replicate n 0\<rparr>) = Inr (h\<lparr>rh_ContentLen := 0\<rparr>)"
    using header_fits_read(1) [OF assms(2)] hd(1) unfolding hd(3) sealed_header_def by blast
  have "0 < ra_tagLen b" using assms(1) aead.tag_pos unfolding aead_pair_def by blast
  then have ne: "\<not> length r \<le> 8 + rec_Size h" using hd(2,3) lct assms(4) by simp
  have nonce: "take 4 (ra_remoteIV b) @ take 8 (drop (rec_Size h) r) = ?nonce"
    using assms(1,4) hd(2,3) by (simp add: aead_pair_def)
  have out: "drop (rec_Size h + 8) r = ct" using hd(2,3) assms(4) by simp
  have tk: "take (rec_Size h) r = hd" using hd(2,3) by simp
  have sz: "rec_Size (h\<lparr>rh_ContentLen := 0\<rparr>) = rec_Size h" by (simp add: rec_Size_def)
  have "aead_Decrypt b n r = Inr (hd @ payload)"
    unfolding aead_Decrypt_def rd using assms(3) ne op tk
    by (simp add: Let_def sz nonce out lct u16_len_def)
  moreover have "length r - rec_Size h = 8 + length ct" using hd(2,3) assms(4) by simp
  ultimately show ?thesis using hd lct assms(4) by auto
qed


section \<open>A sealed record at the receiver\<close>

definition suite_decrypt :: "rec_aead \<Rightarrow> nat \<Rightarrow> bytes \<Rightarrow> bytes option" where
  "suite_decrypt b n inp = (case aead_Decrypt b n inp of Inl _ \<Rightarrow> None | Inr x \<Rightarrow> Some x)"

text \<open>The payload of a record with the application data \<open>d\<close>, in the clear or in an inner plaintext.\<close>

definition carries_data :: "rec_header \<Rightarrow> bytes \<Rightarrow> bytes \<Rightarrow> bool" where
  "carries_data h payload d \<longleftrightarrow>
     (if rh_ContentType h = ContentTypeConnectionID
      then d \<noteq> [] \<and> (\<exists>z. payload = inner_Marshal \<lparr>ip_Content = d, ip_RealType = ContentTypeApplicationData, ip_Zeros = z\<rparr>)
      else rh_ContentType h = ContentTypeApplicationData \<and> payload = d)"

lemma inner_data:
  assumes "d \<noteq> []"
  shows "\<exists>ip. inner_Unmarshal (inner_Marshal \<lparr>ip_Content = d, ip_RealType = ContentTypeApplicationData, ip_Zeros = z\<rparr>) = Some (Inr ip) \<and>
    ip_Content ip = d \<and> ip_RealType ip = ContentTypeApplicationData"
  using inner_plaintext_cases [of "\<lparr>ip_Content = d, ip_RealType = ContentTypeApplicationData, ip_Zeros = z\<rparr>" "[]"] assms
  by (simp add: content_types)

lemma plain_data:
  assumes "rec_Marshal h = Inr hdr" "rh_ContentType h = ContentTypeApplicationData" "rh_ConnectionID h = []"
    and "version_ok (rh_Major h) (rh_Minor h)"
  shows "record_Unmarshal (hdr @ d) = Inr (h\<lparr>rh_ContentLen := 0\<rparr>, AppData d)"
    and "fb_size f + 13 + length d < fragmentBufferMaxSize \<Longrightarrow> fb_push (hdr @ d) f = (Inr (False, False), f)"
proof -
  have seq: "rh_SequenceNumber h \<le> MaxSequenceNumber" using assms(1) by (auto simp: rec_Marshal_def split: if_splits)
  have u: "rec_Unmarshal (hdr @ d) rec_header0 = Inr (h\<lparr>rh_ContentLen := 0\<rparr>)" and len: "length hdr = 13"
    using rec_Unmarshal_Marshal [OF seq assms(4), of rec_header0 d] assms
    by (auto simp: rec_header0_def content_types rec_Size_def FixedHeaderSize_def)
  show "record_Unmarshal (hdr @ d) = Inr (h\<lparr>rh_ContentLen := 0\<rparr>, AppData d)"
    using len assms(2,3) by (simp add: record_Unmarshal_def u rec_Size_def FixedHeaderSize_def Let_def content_types)
  show "fb_size f + 13 + length d < fragmentBufferMaxSize \<Longrightarrow> fb_push (hdr @ d) f = (Inr (False, False), f)"
    using len assms(2) by (simp add: fb_push_def u content_types)
qed

text \<open>What the decryption makes of a sealed record: a plain record with the data.\<close>

lemma decrypt_sealed:
  assumes "aead_pair a b" "header_fits h (length (dx_localCID c))" "rh_Epoch h \<noteq> 0" "length x = 8" "carries_data h payload d"
    and "rec_Marshal h = Inr hdr" "aead_Encrypt a (Some x) h (hdr @ payload) = Inr r"
    and "dv_decrypt v = suite_decrypt b" "dx_cipherReady c" "dx_localCID c = rh_ConnectionID h"
  shows "\<exists>g gb. rec_Marshal g = Inr gb \<and> rh_ContentType g = ContentTypeApplicationData \<and> rh_ConnectionID g = [] \<and>
    version_ok (rh_Major g) (rh_Minor g) \<and>
    decrypt_record v c (h\<lparr>rh_ContentLen := 0\<rparr>) r = Plain (gb @ d) (rh_ContentType h = ContentTypeConnectionID)"
proof -
  have nccs: "rh_ContentType h \<noteq> ContentTypeChangeCipherSpec"
    using assms(5) by (auto simp: carries_data_def content_types split: if_splits)
  obtain hd where hd: "rec_Marshal (sealed_header h (length r - rec_Size h)) = Inr hd" "length hd = rec_Size h"
    "aead_Decrypt b (length (dx_localCID c)) r = Inr (hd @ payload)"
    using aead_record_roundtrip [OF assms(1,2) nccs assms(4,6,7)] by blast
  have dec: "dv_decrypt v (length (dx_localCID c)) r = Some (hd @ payload)" using assms(8) hd(3) by (simp add: suite_decrypt_def)
  have n0: "rh_ContentType h \<noteq> ContentTypeConnectionID \<Longrightarrow> dx_localCID c = []" using assms(2) by (auto simp: header_fits_def)
  have sz: "rec_Size (h\<lparr>rh_ContentLen := 0\<rparr>) = rec_Size h" by (simp add: rec_Size_def)
  have ver: "version_ok (rh_Major h) (rh_Minor h)" and seq: "\<not> MaxSequenceNumber < rh_SequenceNumber h"
    using assms(2) by (auto simp: header_fits_def)
  show ?thesis
  proof (cases "rh_ContentType h = ContentTypeConnectionID")
    case True
    then obtain z where z: "d \<noteq> []" "payload = inner_Marshal \<lparr>ip_Content = d, ip_RealType = ContentTypeApplicationData, ip_Zeros = z\<rparr>"
      using assms(5) by (auto simp: carries_data_def)
    obtain ip where ip: "inner_Unmarshal payload = Some (Inr ip)" "ip_Content ip = d" "ip_RealType ip = ContentTypeApplicationData"
      using inner_data [OF z(1), of z] z(2) by auto
    let ?g = "\<lparr>rh_ContentType = ContentTypeApplicationData, rh_ContentLen = u16_len (length d), rh_Major = rh_Major h, rh_Minor = rh_Minor h,
      rh_Epoch = rh_Epoch h, rh_SequenceNumber = rh_SequenceNumber h, rh_ConnectionID = []\<rparr>"
    obtain gb where gb: "rec_Marshal ?g = Inr gb" using seq by (simp add: rec_Marshal_def)
    have "decrypt_record v c (h\<lparr>rh_ContentLen := 0\<rparr>) r = Plain (gb @ d) True"
      using True assms(3,9,10) dec ip gb hd(2) by (simp add: decrypt_record_def sz)
    then show ?thesis using True gb ver by (intro exI [of _ ?g] exI [of _ gb]) simp
  next
    case False
    have "decrypt_record v c (h\<lparr>rh_ContentLen := 0\<rparr>) r = Plain (hd @ payload) False"
      using False assms(3,9,10) dec n0 by (simp add: decrypt_record_def)
    then show ?thesis using False hd(1) ver n0 assms(5,10)
      by (intro exI [of _ "sealed_header h (length r - rec_Size h)"] exI [of _ hd]) (auto simp: sealed_header_def carries_data_def)
  qed
qed

text \<open>A sealed record is delivered: the connection gets the data and marks the number.\<close>

definition delivered :: "'r dtls_env \<Rightarrow> rec_header \<Rightarrow> nat \<Rightarrow> bytes \<Rightarrow> 'r dtls_conn \<Rightarrow> 'r dtls_conn" where
  "delivered v h addr d c =
     (let c1 = grow_detectors v (rh_Epoch h) c
      in accept_record v h (rh_ContentType h = ContentTypeConnectionID) addr (c1\<lparr>dx_decrypted := dx_decrypted c @ [d]\<rparr>))"

lemma receive_sealed:
  assumes s: "aead_pair a b" "header_fits h (length (dx_localCID c))" "rh_Epoch h \<noteq> 0" "length x = 8" "carries_data h payload d"
    "rec_Marshal h = Inr hdr" "aead_Encrypt a (Some x) h (hdr @ payload) = Inr r"
    "dv_decrypt v = suite_decrypt b" "dx_cipherReady c" "dx_localCID c = rh_ConnectionID h"
    and "rh_Epoch h \<le> dx_remoteEpoch c" "fb_size (dx_frag c) + 13 + length d < fragmentBufferMaxSize"
    and "dv_check v (rh_SequenceNumber h) (dx_detectors (grow_detectors v (rh_Epoch h) c) ! unat (rh_Epoch h))"
  shows "handleIncomingPacket v r addr enqueue c = Some (silent, delivered v (h\<lparr>rh_ContentLen := 0\<rparr>) addr d c)"
proof -
  let ?c1 = "grow_detectors v (rh_Epoch h) c" and ?h = "h\<lparr>rh_ContentLen := 0\<rparr>"
  have s': "header_fits h (length (dx_localCID ?c1))" "dx_cipherReady ?c1" "dx_localCID ?c1 = rh_ConnectionID h" using s by simp_all
  obtain g gb where g: "rec_Marshal g = Inr gb" "rh_ContentType g = ContentTypeApplicationData" "rh_ConnectionID g = []"
    "version_ok (rh_Major g) (rh_Minor g)" "decrypt_record v ?c1 ?h r = Plain (gb @ d) (rh_ContentType h = ContentTypeConnectionID)"
    using decrypt_sealed [OF s(1) s'(1) s(3-8) s'(2,3)] by blast
  have nccs: "rh_ContentType h \<noteq> ContentTypeChangeCipherSpec"
    using s(5) by (auto simp: carries_data_def content_types split: if_splits)
  obtain hd where "rec_Marshal (sealed_header h (length r - rec_Size h)) = Inr hd" "take (rec_Size h) r = hd"
    using aead_record_roundtrip [OF s(1,2) nccs s(4,6,7)] by blast
  then have rd: "rec_Unmarshal r (rec_header0\<lparr>rh_ConnectionID := replicate (length (dx_localCID c)) 0\<rparr>) = Inr ?h"
    using header_fits_read(1) [OF s(2), of _ hd "drop (rec_Size h) r"] by (simp add: sealed_header_def) (metis append_take_drop_id)
  have f: "?c1\<lparr>dx_frag := dx_frag c\<rparr> = ?c1" by (simp add: grow_detectors_def)
  have push: "fb_push (gb @ d) (dx_frag ?c1) = (Inr (False, False), dx_frag ?c1)"
    using plain_data(2) [OF g(1-4)] assms(12) by simp
  have "handle_content v ?h (gb @ d) (rh_ContentType h = ContentTypeConnectionID) addr enqueue ?c1 = (silent, delivered v ?h addr d c)"
    using plain_data(1) [OF g(1-4)] s(3) by (simp add: handle_content_def delivered_def Let_def)
  then show ?thesis using assms(11,13) g(5) push
    by (simp add: handleIncomingPacket_def rd Let_def f not_less [symmetric])
qed


section \<open>A sealed record in a datagram\<close>

lemma sealed_full:
  assumes "aead_pair a b" "header_fits h n" "rh_ContentType h \<noteq> ContentTypeChangeCipherSpec" "length x = 8"
    and "rec_Marshal h = Inr hdr" "aead_Encrypt a (Some x) h (hdr @ payload) = Inr r"
    and "8 + length payload + ra_tagLen b < 65536"
  shows "ContentAwareUnpackDatagram r n = Inr [r]"
proof -
  obtain hd where hd: "rec_Marshal (sealed_header h (length r - rec_Size h)) = Inr hd" "length hd = rec_Size h"
    "length r = rec_Size h + 8 + length payload + ra_tagLen b" "take (rec_Size h) r = hd"
    using aead_record_roundtrip [OF assms(1-6)] by blast
  let ?l = "length r - rec_Size h"
  obtain pre where pre: "hd = pre @ put_u16 (u16_len ?l)" "length pre = rec_Size h - 2" "pre ! 0 = rh_ContentType h" "pre \<noteq> []"
  proof
    let ?p = "[rh_ContentType h, rh_Major h, rh_Minor h] @ put_u16 (rh_Epoch h) @ put_u48 (rh_SequenceNumber h) @ rh_ConnectionID h"
    show "hd = ?p @ put_u16 (u16_len ?l)" using hd(1) by (auto simp: rec_Marshal_def sealed_header_def split: if_splits)
    show "length ?p = rec_Size h - 2" by (simp add: rec_Size_def FixedHeaderSize_def)
  qed simp_all
  have r: "r = pre @ put_u16 (u16_len ?l) @ drop (rec_Size h) r"
    using hd(4) pre(1) by (metis append.assoc append_take_drop_id)
  have "r ! 0 = rh_ContentType h" using pre(3,4) by (subst r) (simp add: nth_append)
  then have hs: "rec_hsize n r = rec_Size h" using assms(2) by (auto simp: rec_hsize_def rec_Size_def header_fits_def)
  have "drop (rec_Size h - 2) r = put_u16 (u16_len ?l) @ drop (rec_Size h) r" by (subst r) (simp add: pre(2))
  then have "be16 (drop (rec_hsize n r - 2) r) = u16_len ?l" by (simp add: hs)
  then have "rec_full n r" using hd(3) assms(7) by (simp add: rec_full_def rec_sized_def hs)
  then show ?thesis using unpack_full [of n "[r]"] by simp
qed

text \<open>A datagram with one sealed record: the data are delivered and the read loop goes on.\<close>

lemma read_sealed:
  assumes s: "aead_pair a b" "header_fits h (length (dx_localCID c))" "rh_Epoch h \<noteq> 0" "length x = 8" "carries_data h payload d"
    "rec_Marshal h = Inr hdr" "aead_Encrypt a (Some x) h (hdr @ payload) = Inr r"
    "dv_decrypt v = suite_decrypt b" "dx_cipherReady c" "dx_localCID c = rh_ConnectionID h"
    "rh_Epoch h \<le> dx_remoteEpoch c" "fb_size (dx_frag c) + 13 + length d < fragmentBufferMaxSize"
    "dv_check v (rh_SequenceNumber h) (dx_detectors (grow_detectors v (rh_Epoch h) c) ! unat (rh_Epoch h))"
    and "8 + length payload + ra_tagLen b < 65536"
  shows "readAndBuffer v notify r addr c = Some \<lparr>ro_handshake = False, ro_retransmit = False, ro_alerts = [], ro_fault = None,
    ro_conn = delivered v (h\<lparr>rh_ContentLen := 0\<rparr>) addr d c\<rparr>"
proof -
  have nccs: "rh_ContentType h \<noteq> ContentTypeChangeCipherSpec"
    using s(5) by (auto simp: carries_data_def content_types split: if_splits)
  show ?thesis using sealed_full [OF s(1,2) nccs s(4,6,7) assms(14)] receive_sealed [OF s, of addr True]
    by (simp add: readAndBuffer_def record_fault_def silent_def)
qed

section \<open>Application data from one end to the other\<close>

text \<open>The header under which a packet with application data leaves.\<close>

definition data_header :: "send_env \<Rightarrow> dtls_packet \<Rightarrow> u64 \<Rightarrow> bytes \<Rightarrow> rec_header" where
  "data_header v pkt seq d =
     (if pk_shouldWrapCID pkt
      then \<lparr>rh_ContentType = ContentTypeConnectionID, rh_ContentLen = u16_len (Suc (length d)), rh_Major = rh_Major (pk_header pkt),
             rh_Minor = rh_Minor (pk_header pkt), rh_Epoch = rh_Epoch (pk_header pkt), rh_SequenceNumber = seq, rh_ConnectionID = sv_remoteCID v\<rparr>
      else (pk_header pkt)\<lparr>rh_SequenceNumber := seq, rh_ContentLen := u16_len (length d), rh_ContentType := ContentTypeApplicationData\<rparr>)"

definition data_payload :: "dtls_packet \<Rightarrow> bytes \<Rightarrow> bytes" where
  "data_payload pkt d = (if pk_shouldWrapCID pkt then d @ [ContentTypeApplicationData] else d)"

lemma rec_Marshal_ok: "rh_SequenceNumber h \<le> MaxSequenceNumber \<Longrightarrow> \<exists>x. rec_Marshal h = Inr x"
  by (simp add: rec_Marshal_def not_less [symmetric])

lemma data_header_fields [simp]:
  "rh_SequenceNumber (data_header v pkt seq d) = seq" "rh_Epoch (data_header v pkt seq d) = rh_Epoch (pk_header pkt)"
  "rh_Major (data_header v pkt seq d) = rh_Major (pk_header pkt)" "rh_Minor (data_header v pkt seq d) = rh_Minor (pk_header pkt)"
  by (simp_all add: data_header_def)

lemma processPacket_data:
  assumes "pk_content pkt = AppData d" "pk_shouldEncrypt pkt" "seq = fst (next_seq (rh_Epoch (pk_header pkt)) xs)" "seq \<le> MaxSequenceNumber"
  shows "\<exists>hdr. rec_Marshal (data_header v pkt seq d) = Inr hdr \<and>
    processPacket v pkt xs = (sv_encrypt v (data_header v pkt seq d) (hdr @ data_payload pkt d), snd (next_seq (rh_Epoch (pk_header pkt)) xs))"
proof -
  obtain hdr where hdr: "rec_Marshal (data_header v pkt seq d) = Inr hdr"
    using rec_Marshal_ok [of "data_header v pkt seq d"] assms(4) by auto
  obtain ys where n: "next_seq (rh_Epoch (pk_header pkt)) xs = (seq, ys)" using assms(3) by (cases "next_seq (rh_Epoch (pk_header pkt)) xs") simp
  have m: "MaxSequenceNumber < seq \<longleftrightarrow> False" using assms(4) by simp
  have rm: "\<exists>x. rec_Marshal ((pk_header pkt)\<lparr>rh_SequenceNumber := seq, rh_ContentLen := l, rh_ContentType := t\<rparr>) = Inr x" for l t
    using m by (simp add: rec_Marshal_def)
  show ?thesis
  proof (cases "pk_shouldWrapCID pkt")
    case True
    obtain x where "rec_Marshal ((pk_header pkt)\<lparr>rh_SequenceNumber := seq, rh_ContentLen := u16_len (length d), rh_ContentType := ContentTypeApplicationData\<rparr>) = Inr x"
      using rm by blast
    then show ?thesis using hdr assms(1,2) n m True
      by (intro exI [of _ hdr])
        (simp add: processPacket_def Let_def record_Marshal_def wrap_cid_def inner_Marshal_def seal_def data_header_def data_payload_def)
  next
    case False
    then show ?thesis using hdr assms(1,2) n m
      by (intro exI [of _ hdr])
        (simp add: processPacket_def Let_def record_Marshal_def seal_def data_header_def data_payload_def)
  qed
qed


text \<open>
  A connection that writes the data of a list one by one, each with the random bytes of its nonce,
  and a network that loses some of the datagrams: the first component says which ones arrive.
\<close>

fun send_data :: "rec_aead \<Rightarrow> send_env \<Rightarrow> dtls_packet \<Rightarrow> (bytes \<times> bytes) list \<Rightarrow> u64 list \<Rightarrow> (dtls_error + bytes) list" where
  "send_data a v pkt [] xs = []"
| "send_data a v pkt ((x, d) # ws) xs =
     (let r = processPacket (v\<lparr>sv_encrypt := aead_Encrypt a (Some x)\<rparr>) (pkt\<lparr>pk_content := AppData d\<rparr>) xs
      in fst r # send_data a v pkt ws (snd r))"

fun receive_some :: "'r dtls_env \<Rightarrow> (byte \<times> byte \<Rightarrow> bool) \<Rightarrow> (bool \<times> nat \<times> (dtls_error + bytes)) list \<Rightarrow> 'r dtls_conn \<Rightarrow> 'r dtls_conn option" where
  "receive_some v notify [] c = Some c"
| "receive_some v notify ((arrives, addr, p) # ps) c =
     (case p of
        Inl _ \<Rightarrow> None
      | Inr r \<Rightarrow>
          if arrives then (case readAndBuffer v notify r addr c of None \<Rightarrow> None | Some out \<Rightarrow> receive_some v notify ps (ro_conn out))
          else receive_some v notify ps c)"

text \<open>The detector takes every number above those it has accepted.\<close>

definition detector_takes_newer :: "'r dtls_env \<Rightarrow> ('r \<Rightarrow> u64 set) \<Rightarrow> bool" where
  "detector_takes_newer v spent \<longleftrightarrow> spent (dv_new v) = {} \<and>
     (\<forall>s r. (\<forall>t\<in>spent r. t < s) \<longrightarrow> dv_check v s r) \<and> (\<forall>s r. spent (snd (dv_accept v s r)) = insert s (spent r))"

text \<open>What sender and receiver agree on.\<close>

definition data_link :: "rec_aead \<Rightarrow> rec_aead \<Rightarrow> send_env \<Rightarrow> dtls_packet \<Rightarrow> 'r dtls_env \<Rightarrow> 'r dtls_conn \<Rightarrow> bool" where
  "data_link a b s pkt v c \<longleftrightarrow>
     aead_pair a b \<and> ra_tagLen b \<le> 16 \<and> (\<forall>n p ad. length n = 12 \<and> length p \<le> 16385 \<longrightarrow> ra_seal a n p ad \<noteq> None) \<and> 4 \<le> length (ra_localIV a) \<and>
     dv_decrypt v = suite_decrypt b \<and> dx_cipherReady c \<and> pk_shouldEncrypt pkt \<and>
     version_ok (rh_Major (pk_header pkt)) (rh_Minor (pk_header pkt)) \<and> rh_Epoch (pk_header pkt) \<noteq> 0 \<and>
     rh_Epoch (pk_header pkt) \<le> dx_remoteEpoch c \<and> fb_size (dx_frag c) + 20000 < fragmentBufferMaxSize \<and>
     (if pk_shouldWrapCID pkt then sv_remoteCID s = dx_localCID c else dx_localCID c = [] \<and> rh_ConnectionID (pk_header pkt) = [])"

lemma delivered_fields:
  "dx_decrypted (delivered v h addr d c) = dx_decrypted c @ [d]"
  "dx_localCID (delivered v h addr d c) = dx_localCID c" "dx_cipherReady (delivered v h addr d c) = dx_cipherReady c"
  "dx_remoteEpoch (delivered v h addr d c) = dx_remoteEpoch c" "dx_frag (delivered v h addr d c) = dx_frag c"
  by (simp_all add: delivered_def Let_def accept_record_def markPacketAsValid_def)

lemma data_link_delivered: "data_link a b s pkt v c \<Longrightarrow> data_link a b s pkt v (delivered v h addr d c)"
  by (simp add: data_link_def delivered_fields)

text \<open>The numbers the detector of an epoch has accepted.\<close>

definition spent_in :: "('r \<Rightarrow> u64 set) \<Rightarrow> u16 \<Rightarrow> 'r dtls_conn \<Rightarrow> u64 set" where
  "spent_in spent e c = (if unat e < length (dx_detectors c) then spent (dx_detectors c ! unat e) else {})"

lemma spent_in_grow:
  "spent (dv_new v) = {} \<Longrightarrow> spent (dx_detectors (grow_detectors v e c) ! unat e) = spent_in spent e c"
  by (auto simp: spent_in_def grow_detectors_def nth_append)

lemma spent_in_delivered:
  assumes "detector_takes_newer v spent"
  shows "spent_in spent (rh_Epoch h) (delivered v h addr d c) = insert (rh_SequenceNumber h) (spent_in spent (rh_Epoch h) c)"
proof -
  let ?c1 = "(grow_detectors v (rh_Epoch h) c)\<lparr>dx_decrypted := dx_decrypted c @ [d]\<rparr>"
  have len: "unat (rh_Epoch h) < length (dx_detectors ?c1)" using grow_length [of "rh_Epoch h" v c] by simp
  have "dx_detectors (delivered v h addr d c) =
      (dx_detectors ?c1)[unat (rh_Epoch h) := snd (dv_accept v (rh_SequenceNumber h) (dx_detectors ?c1 ! unat (rh_Epoch h)))]"
    by (simp add: delivered_def Let_def markPacketAsValid_def)
  then show ?thesis using len assms spent_in_grow [of spent v "rh_Epoch h" c]
    by (simp add: spent_in_def detector_takes_newer_def)
qed


lemma send_one:
  assumes "data_link a b s pkt v c" "length x = 8" "d \<noteq> []" "length d \<le> 16384"
    and "seq = fst (next_seq (rh_Epoch (pk_header pkt)) xs)" "seq \<le> MaxSequenceNumber"
    and "dv_check v seq (dx_detectors (grow_detectors v (rh_Epoch (pk_header pkt)) c) ! unat (rh_Epoch (pk_header pkt)))"
  shows "\<exists>r. processPacket (s\<lparr>sv_encrypt := aead_Encrypt a (Some x)\<rparr>) (pkt\<lparr>pk_content := AppData d\<rparr>) xs =
      (Inr r, snd (next_seq (rh_Epoch (pk_header pkt)) xs)) \<and>
    readAndBuffer v notify r addr c = Some \<lparr>ro_handshake = False, ro_retransmit = False, ro_alerts = [], ro_fault = None,
      ro_conn = delivered v ((data_header s pkt seq d)\<lparr>rh_ContentLen := 0\<rparr>) addr d c\<rparr>"
proof -
  let ?h = "data_header s pkt seq d" and ?s = "s\<lparr>sv_encrypt := aead_Encrypt a (Some x)\<rparr>" and ?pkt = "pkt\<lparr>pk_content := AppData d\<rparr>"
  have eqs: "data_header ?s ?pkt seq d = ?h" "data_payload ?pkt d = data_payload pkt d"
    by (simp_all add: data_header_def data_payload_def)
  note l = assms(1) [unfolded data_link_def]
  obtain hdr where p: "rec_Marshal ?h = Inr hdr" "processPacket ?s ?pkt xs =
      (aead_Encrypt a (Some x) ?h (hdr @ data_payload pkt d), snd (next_seq (rh_Epoch (pk_header pkt)) xs))"
    using processPacket_data [of ?pkt d seq xs ?s] assms(5,6) l eqs by auto
  have pl: "length (data_payload pkt d) \<le> 16385" using assms(4) by (simp add: data_payload_def)
  have "length (take 4 (ra_localIV a) @ x) = 12" using l assms(2) by simp
  then have "ra_seal a (take 4 (ra_localIV a) @ x) (data_payload pkt d) (additionalData ?h (u16_len (length (data_payload pkt d)))) \<noteq> None"
    using l pl by blast
  then obtain ct where "ra_seal a (take 4 (ra_localIV a) @ x) (data_payload pkt d) (additionalData ?h (u16_len (length (data_payload pkt d)))) = Some ct"
    by auto
  then obtain r where r: "aead_Encrypt a (Some x) ?h (hdr @ data_payload pkt d) = Inr r" using aead_Encrypt_eq [OF p(1)] by blast
  have cid: "dx_localCID c = rh_ConnectionID ?h" using l by (simp add: data_header_def split: if_splits)
  have fits: "header_fits ?h (length (dx_localCID c))"
    unfolding cid using l assms(6) by (auto simp: header_fits_def) (auto simp: data_header_def split: if_splits)
  have cd: "carries_data ?h (data_payload pkt d) d"
    using assms(3) by (auto simp: carries_data_def data_header_def data_payload_def inner_Marshal_def content_types intro!: exI [of _ 0])
  have "readAndBuffer v notify r addr c = Some \<lparr>ro_handshake = False, ro_retransmit = False, ro_alerts = [], ro_fault = None,
      ro_conn = delivered v (?h\<lparr>rh_ContentLen := 0\<rparr>) addr d c\<rparr>"
  proof (rule read_sealed [OF _ fits _ assms(2) cd p(1) r _ _ cid])
    show "aead_pair a b" "dv_decrypt v = suite_decrypt b" "dx_cipherReady c" using l by blast+
    show "rh_Epoch ?h \<noteq> 0" "rh_Epoch ?h \<le> dx_remoteEpoch c" using l by simp_all
    have "fb_size (dx_frag c) + 20000 < fragmentBufferMaxSize" "ra_tagLen b \<le> 16" using l by blast+
    then show "fb_size (dx_frag c) + 13 + length d < fragmentBufferMaxSize" "8 + length (data_payload pkt d) + ra_tagLen b < 65536"
      using pl assms(4) by linarith+
    show "dv_check v (rh_SequenceNumber ?h) (dx_detectors (grow_detectors v (rh_Epoch ?h) c) ! unat (rh_Epoch ?h))"
      using assms(7) by simp
  qed
  then show ?thesis using p(2) r by simp
qed



section \<open>A change of cipher that nobody authenticated\<close>

definition ccs_record :: "u16 \<Rightarrow> u64 \<Rightarrow> bytes" where
  "ccs_record e s = [20, 0xfe, 0xfd] @ put_u16 e @ put_u48 s @ [0, 1, 1]"

lemma ccs_parse:
  assumes "s \<le> MaxSequenceNumber"
  shows "rec_Unmarshal (ccs_record e s) h =
      Inr (h\<lparr>rh_ContentType := 20, rh_Major := 0xfe, rh_Minor := 0xfd, rh_Epoch := e, rh_SequenceNumber := s\<rparr>)"
    and "record_Unmarshal (ccs_record e s) =
      Inr (rec_header0\<lparr>rh_ContentType := 20, rh_Major := 0xfe, rh_Minor := 0xfd, rh_Epoch := e, rh_SequenceNumber := s\<rparr>, CCS)"
    and "ContentAwareUnpackDatagram (ccs_record e s) n = Inr [ccs_record e s]"
    and "aead_Decrypt b n (ccs_record e s) = Inr (ccs_record e s)"
proof -
  show p: "rec_Unmarshal (ccs_record e s) h =
      Inr (h\<lparr>rh_ContentType := 20, rh_Major := 0xfe, rh_Minor := 0xfd, rh_Epoch := e, rh_SequenceNumber := s\<rparr>)" for h
    using be48_put_u48_nil [OF assms] by (simp add: rec_Unmarshal_def ccs_record_def FixedHeaderSize_def content_types version_ok_def Let_def)
  show "record_Unmarshal (ccs_record e s) =
      Inr (rec_header0\<lparr>rh_ContentType := 20, rh_Major := 0xfe, rh_Minor := 0xfd, rh_Epoch := e, rh_SequenceNumber := s\<rparr>, CCS)"
    unfolding record_Unmarshal_def p by (simp add: content_types rec_header0_def rec_Size_def FixedHeaderSize_def Let_def ccs_record_def)
  show "ContentAwareUnpackDatagram (ccs_record e s) n = Inr [ccs_record e s]"
    unfolding ContentAwareUnpackDatagram_def
    by (subst unpack_aware_iff) (simp_all add: rec_sized_def rec_hsize_def ccs_record_def content_types FixedHeaderSize_def)
  show "aead_Decrypt b n (ccs_record e s) = Inr (ccs_record e s)"
    by (simp add: aead_Decrypt_def p content_types)
qed

text \<open>A replay detector with a window: after a number, those that are the window or more behind are refused.\<close>

definition detector_window :: "'r dtls_env \<Rightarrow> nat \<Rightarrow> bool" where
  "detector_window v w \<longleftrightarrow> (\<forall>s t r. unat t + w \<le> unat s \<longrightarrow> \<not> dv_check v t (snd (dv_accept v s r)))"

text \<open>
  C26: One forged datagram silences an established connection. \<^verbatim>\<open>Decrypt\<close> hands through a record that
  says to be a change of cipher without any check, so a datagram that needs no keys at all moves
  the epoch of the peer on and has its number accepted by the replay detector of the current
  epoch; with a number near the end of the range every genuine record of the epoch that is the
  window or more behind is dropped from then on.
\<close>

theorem forged_ccs_silences:
  assumes "dv_decrypt v = suite_decrypt b" "dx_cipherReady c" "dx_localCID c = []" "dx_remoteEpoch c \<noteq> 0" "s \<le> MaxSequenceNumber"
    and "dv_check v s (dx_detectors (grow_detectors v (dx_remoteEpoch c) c) ! unat (dx_remoteEpoch c))"
    and "fb_size (dx_frag c) + 14 < fragmentBufferMaxSize" "detector_window v w"
  shows "\<exists>out. readAndBuffer v notify (ccs_record (dx_remoteEpoch c) s) addr c = Some out \<and> ro_fault out = None \<and>
    dx_remoteEpoch (ro_conn out) = dx_remoteEpoch c + 1 \<and>
    (\<forall>p h a enq. incoming_header p (ro_conn out) = Inr h \<longrightarrow> rh_Epoch h = dx_remoteEpoch c \<longrightarrow> unat (rh_SequenceNumber h) + w \<le> unat s \<longrightarrow>
       rh_Epoch h \<le> dx_remoteEpoch (ro_conn out) \<longrightarrow> handleIncomingPacket v p a enq (ro_conn out) = Some (silent, ro_conn out))"
proof -
  let ?e = "dx_remoteEpoch c" and ?r = "ccs_record (dx_remoteEpoch c) s"
  let ?c1 = "grow_detectors v ?e c" and ?h = "rec_header0\<lparr>rh_ContentType := 20, rh_Major := 0xfe, rh_Minor := 0xfd, rh_Epoch := ?e, rh_SequenceNumber := s\<rparr>"
  let ?c2 = "accept_record v ?h False addr (?c1\<lparr>dx_remoteEpoch := ?e + 1\<rparr>)"
  have h0: "rec_header0\<lparr>rh_ConnectionID := []\<rparr> = rec_header0" by (simp add: rec_header0_def)
  have len: "length ?r = 14" by (simp add: ccs_record_def)
  have push: "fb_push ?r (dx_frag c) = (Inr (False, False), dx_frag c)"
    using assms(7) by (simp add: fb_push_def len ccs_parse(1) [OF assms(5)] content_types)
  have f: "?c1\<lparr>dx_frag := dx_frag c\<rparr> = ?c1" by (simp add: grow_detectors_def)
  have dec: "decrypt_record v ?c1 ?h ?r = Plain ?r False"
    using assms(1-4) by (simp add: decrypt_record_def suite_decrypt_def ccs_parse(4) [OF assms(5)] content_types rec_header0_def)
  have "handleIncomingPacket v ?r addr True c = Some (silent, ?c2)"
    using assms(2,3,6) dec push
    by (simp add: handleIncomingPacket_def h0 ccs_parse(1,2) [OF assms(5)] Let_def f handle_content_def)
  then have rb: "readAndBuffer v notify ?r addr c = Some \<lparr>ro_handshake = False, ro_retransmit = False, ro_alerts = [], ro_fault = None, ro_conn = ?c2\<rparr>"
    using assms(3) by (simp add: readAndBuffer_def ccs_parse(3) [OF assms(5)] record_fault_def silent_def)
  have det: "unat ?e < length (dx_detectors ?c2)" "dx_detectors ?c2 ! unat ?e = snd (dv_accept v s (dx_detectors ?c1 ! unat ?e))"
    using grow_length [of ?e v c] by (simp_all add: markPacketAsValid_def Let_def)
  have gr: "grow_detectors v ?e ?c2 = ?c2" using det(1) by (simp add: grow_detectors_def)
  have re: "dx_remoteEpoch ?c2 = ?e + 1" by (simp add: accept_record_def markPacketAsValid_def Let_def)
  have "handleIncomingPacket v p a enq ?c2 = Some (silent, ?c2)"
    if "incoming_header p ?c2 = Inr g" "rh_Epoch g = ?e" "unat (rh_SequenceNumber g) + w \<le> unat s" "rh_Epoch g \<le> dx_remoteEpoch ?c2" for p g a enq
    using that det gr assms(8) by (auto simp: handleIncomingPacket_def incoming_header_def detector_window_def Let_def)
  then show ?thesis using rb re by auto
qed


definition window_env :: "u64 dtls_env" where
  "window_env = \<lparr>dv_new = 0, dv_check = \<lambda>s r. unat r < unat s + 64, dv_accept = \<lambda>s r. (True, max s r),
     dv_decrypt = suite_decrypt \<lparr>ra_seal = \<lambda>n p a. None, ra_open = \<lambda>n c a. None, ra_localIV = [], ra_remoteIV = [], ra_tagLen = 16\<rparr>\<rparr>"

definition window_conn :: "u64 dtls_conn" where
  "window_conn = \<lparr>dx_isClient = True, dx_localCID = [], dx_remoteEpoch = 1, dx_cipherReady = True, dx_detectors = [0, 9],
     dx_frag = newFragmentBuffer, dx_hsCache = [], dx_queue = [], dx_decrypted = [], dx_rAddr = 0\<rparr>"

theorem forged_ccs_silences_witness:
  "\<exists>out. readAndBuffer window_env (\<lambda>a. True) (ccs_record 1 MaxSequenceNumber) 9 window_conn = Some out \<and> dx_remoteEpoch (ro_conn out) = 2"
proof -
  have "detector_window window_env 64"
    by (auto simp: detector_window_def window_env_def max_def word_le_nat_alt)
  moreover have "dv_check window_env MaxSequenceNumber (dx_detectors (grow_detectors window_env 1 window_conn) ! 1)"
    by (simp add: window_env_def window_conn_def grow_detectors_def MaxSequenceNumber_def)
  ultimately show ?thesis
    using forged_ccs_silences [where v = window_env and c = window_conn and s = MaxSequenceNumber and w = 64 and notify = "\<lambda>a. True" and addr = 9
        and b = "\<lparr>ra_seal = \<lambda>n p a. None, ra_open = \<lambda>n c a. None, ra_localIV = [], ra_remoteIV = [], ra_tagLen = 16\<rparr>"]
    by (auto simp: window_conn_def window_env_def newFragmentBuffer_def fb_size_def fragmentBufferMaxSize_def)
qed

end
