(* ===== verification/Dtls_Prf.thy ===== *)
theory Dtls_Prf
  imports Dtls_Cipher
begin

text \<open>
  The key derivation of a DTLS connection (\<^verbatim>\<open>golib/replace/dtls/pkg/crypto/prf/prf.go\<close>) and the cipher
  suites that use it (\<^verbatim>\<open>golib/replace/dtls/internal/ciphersuite\<close>): both ends expand the master secret to
  the same keys, and each end writes with the keys the other one reads with.

  The hash function with its HMAC and the scalar multiplication of the curves are arguments.
\<close>

section \<open>The pseudorandom function\<close>

record hash_fun =
  hf_size :: nat
  hf_sum :: "bytes \<Rightarrow> bytes"
  hf_hmac :: "bytes \<Rightarrow> bytes \<Rightarrow> bytes"

text \<open>The loop of \<^verbatim>\<open>PHash\<close> over the remaining iterations, with the last round.\<close>

fun phash_loop :: "hash_fun \<Rightarrow> bytes \<Rightarrow> bytes \<Rightarrow> nat \<Rightarrow> bytes \<Rightarrow> bytes" where
  "phash_loop hf secret seed 0 lastRound = []"
| "phash_loop hf secret seed (Suc i) lastRound =
     (let lastRound' = hf_hmac hf secret lastRound
      in hf_hmac hf secret (lastRound' @ seed) @ phash_loop hf secret seed i lastRound')"

text \<open>\<^verbatim>\<open>math.Ceil(a / b)\<close> for lengths.\<close>

definition ceil_div :: "nat \<Rightarrow> nat \<Rightarrow> nat" where
  "ceil_div a b = (a + b - 1) div b"

text \<open>\<^verbatim>\<open>PHash\<close>; \<open>None\<close> is the panic of the slice at the end.\<close>

definition PHash :: "bytes \<Rightarrow> bytes \<Rightarrow> nat \<Rightarrow> hash_fun \<Rightarrow> bytes option" where
  "PHash secret seed requestedLength hf =
     (let out = phash_loop hf secret seed (ceil_div requestedLength (hf_size hf)) seed
      in if length out < requestedLength then None else Some (take requestedLength out))"

section \<open>Secrets\<close>

definition masterSecretLabel :: bytes where "masterSecretLabel = ascii ''master secret''"
definition extendedMasterSecretLabel :: bytes where "extendedMasterSecretLabel = ascii ''extended master secret''"
definition keyExpansionLabel :: bytes where "keyExpansionLabel = ascii ''key expansion''"
definition verifyDataClientLabel :: bytes where "verifyDataClientLabel = ascii ''client finished''"
definition verifyDataServerLabel :: bytes where "verifyDataServerLabel = ascii ''server finished''"

text \<open>
  \<^verbatim>\<open>PSKPreMasterSecret\<close>. The length of the key and the size of the buffer are 16-bit numbers; \<open>None\<close>
  is the panic of a slice out of range.
\<close>

definition PSKPreMasterSecret :: "bytes \<Rightarrow> bytes option" where
  "PSKPreMasterSecret psk =
     (let pskLen = u16_len (length psk);
          out = replicate (unat (2 + pskLen + 2)) 0 @ psk;
          i = unat (2 + pskLen)
      in if length out < 2 \<or> length out < i + 2 then None
         else Some (put_at i (put_u16 pskLen) (put_at 0 (put_u16 pskLen) out)))"

definition EcdhePSKPreMasterSecret :: "bytes \<Rightarrow> 'e + bytes \<Rightarrow> 'e + bytes" where
  "EcdhePSKPreMasterSecret psk preMasterSecret =
     (case preMasterSecret of
        Inl e \<Rightarrow> Inl e
      | Inr p \<Rightarrow> Inr (put_u16 (u16_len (length p)) @ p @ put_u16 (u16_len (length psk)) @ psk))"

datatype named_curve = X25519 | P256 | P384 | OtherCurve u16

datatype curve_error = ErrInvalidNamedCurve | CurveFailed

text \<open>
  \<^verbatim>\<open>PreMasterSecret\<close> with the curve operations as arguments: the function of X25519, and for the other
  curves the decoding of a point, the scalar multiplication, which gives the bytes of the x coordinate
  without leading zeros, and the size of the field in bits.
\<close>

record ('p) curve_ops =
  cv_x25519 :: "bytes \<Rightarrow> bytes \<Rightarrow> curve_error + bytes"
  cv_point :: "named_curve \<Rightarrow> bytes \<Rightarrow> 'p option"
  cv_mult :: "named_curve \<Rightarrow> 'p \<Rightarrow> bytes \<Rightarrow> bytes"
  cv_bits :: "named_curve \<Rightarrow> nat"

definition ellipticCurvePreMasterSecret :: "'p curve_ops \<Rightarrow> named_curve \<Rightarrow> bytes \<Rightarrow> bytes \<Rightarrow> curve_error + bytes" where
  "ellipticCurvePreMasterSecret ops curve publicKey privateKey =
     (case cv_point ops curve publicKey of
        None \<Rightarrow> Inl ErrInvalidNamedCurve
      | Some pt \<Rightarrow>
          let resultBytes = cv_mult ops curve pt privateKey; n = (cv_bits ops curve + 7) div 8
          in Inr (replicate (n - length resultBytes) 0 @ resultBytes))"

definition PreMasterSecret :: "'p curve_ops \<Rightarrow> bytes \<Rightarrow> bytes \<Rightarrow> named_curve \<Rightarrow> curve_error + bytes" where
  "PreMasterSecret ops publicKey privateKey curve =
     (case curve of
        X25519 \<Rightarrow> cv_x25519 ops privateKey publicKey
      | P256 \<Rightarrow> ellipticCurvePreMasterSecret ops P256 publicKey privateKey
      | P384 \<Rightarrow> ellipticCurvePreMasterSecret ops P384 publicKey privateKey
      | OtherCurve _ \<Rightarrow> Inl ErrInvalidNamedCurve)"

definition ExtendedMasterSecret :: "bytes \<Rightarrow> bytes \<Rightarrow> hash_fun \<Rightarrow> bytes option" where
  "ExtendedMasterSecret preMasterSecret sessionHash hf = PHash preMasterSecret (extendedMasterSecretLabel @ sessionHash) 48 hf"

definition MasterSecret :: "bytes \<Rightarrow> bytes \<Rightarrow> bytes \<Rightarrow> hash_fun \<Rightarrow> bytes option" where
  "MasterSecret preMasterSecret clientRandom serverRandom hf =
     PHash preMasterSecret (masterSecretLabel @ clientRandom @ serverRandom) 48 hf"

definition prfVerifyData :: "bytes \<Rightarrow> bytes \<Rightarrow> bytes \<Rightarrow> hash_fun \<Rightarrow> bytes option" where
  "prfVerifyData masterSecret handshakeBodies label hf = PHash masterSecret (label @ hf_sum hf handshakeBodies) 12 hf"

definition VerifyDataClient :: "bytes \<Rightarrow> bytes \<Rightarrow> hash_fun \<Rightarrow> bytes option" where
  "VerifyDataClient masterSecret handshakeBodies hf = prfVerifyData masterSecret handshakeBodies verifyDataClientLabel hf"

definition VerifyDataServer :: "bytes \<Rightarrow> bytes \<Rightarrow> hash_fun \<Rightarrow> bytes option" where
  "VerifyDataServer masterSecret handshakeBodies hf = prfVerifyData masterSecret handshakeBodies verifyDataServerLabel hf"

section \<open>Keys\<close>

record enc_keys =
  ek_MasterSecret :: bytes
  ek_ClientMACKey :: bytes
  ek_ServerMACKey :: bytes
  ek_ClientWriteKey :: bytes
  ek_ServerWriteKey :: bytes
  ek_ClientWriteIV :: bytes
  ek_ServerWriteIV :: bytes

definition GenerateEncryptionKeys :: "bytes \<Rightarrow> bytes \<Rightarrow> bytes \<Rightarrow> nat \<Rightarrow> nat \<Rightarrow> nat \<Rightarrow> hash_fun \<Rightarrow> enc_keys option" where
  "GenerateEncryptionKeys masterSecret clientRandom serverRandom macLen keyLen ivLen hf =
     (case PHash masterSecret (keyExpansionLabel @ serverRandom @ clientRandom) (2 * macLen + 2 * keyLen + 2 * ivLen) hf of
        None \<Rightarrow> None
      | Some km \<Rightarrow>
          let km1 = drop macLen km; km2 = drop macLen km1; km3 = drop keyLen km2; km4 = drop keyLen km3; km5 = drop ivLen km4
          in Some \<lparr>ek_MasterSecret = masterSecret, ek_ClientMACKey = take macLen km, ek_ServerMACKey = take macLen km1,
               ek_ClientWriteKey = take keyLen km2, ek_ServerWriteKey = take keyLen km3,
               ek_ClientWriteIV = take ivLen km4, ek_ServerWriteIV = take ivLen km5\<rparr>)"

section \<open>Cipher suites\<close>

text \<open>An end of a connection under CCM (\<^verbatim>\<open>NewCCM\<close> of \<^verbatim>\<open>ciphersuite\<close>) with the block cipher \<open>E\<close> by key.\<close>

definition NewCCM_suite :: "CCMTagLen \<Rightarrow> (bytes \<Rightarrow> bytes \<Rightarrow> bytes) \<Rightarrow> bytes \<Rightarrow> bytes \<Rightarrow> bytes \<Rightarrow> bytes \<Rightarrow> rec_aead" where
  "NewCCM_suite tagLen E localKey localWriteIV remoteKey remoteWriteIV =
     \<lparr>ra_seal = ccm_Seal (dtls_ccm tagLen) (E localKey), ra_open = ccm_unseal tagLen (E remoteKey),
       ra_localIV = localWriteIV, ra_remoteIV = remoteWriteIV, ra_tagLen = tag_bytes tagLen\<rparr>"

text \<open>\<^verbatim>\<open>Init\<close> of \<^verbatim>\<open>AesCcm\<close> with the length of the keys; \<open>None\<close> is a panic of the key derivation.\<close>

definition AesCcm_Init ::
    "CCMTagLen \<Rightarrow> (bytes \<Rightarrow> bytes \<Rightarrow> bytes) \<Rightarrow> hash_fun \<Rightarrow> bytes \<Rightarrow> bytes \<Rightarrow> bytes \<Rightarrow> bool \<Rightarrow> nat \<Rightarrow> rec_aead option" where
  "AesCcm_Init tagLen E hf masterSecret clientRandom serverRandom isClient prfKeyLen =
     (case GenerateEncryptionKeys masterSecret clientRandom serverRandom 0 prfKeyLen 4 hf of
        None \<Rightarrow> None
      | Some keys \<Rightarrow> Some
          (if isClient
           then NewCCM_suite tagLen E (ek_ClientWriteKey keys) (ek_ClientWriteIV keys) (ek_ServerWriteKey keys) (ek_ServerWriteIV keys)
           else NewCCM_suite tagLen E (ek_ServerWriteKey keys) (ek_ServerWriteIV keys) (ek_ClientWriteKey keys) (ek_ClientWriteIV keys)))"

text \<open>The GCM mode of the standard library: its two functions by key. The suites differ in the length of the key.\<close>

record gcm_mode =
  gm_seal :: "bytes \<Rightarrow> bytes \<Rightarrow> bytes \<Rightarrow> bytes \<Rightarrow> bytes option"
  gm_open :: "bytes \<Rightarrow> bytes \<Rightarrow> bytes \<Rightarrow> bytes \<Rightarrow> bytes option"

definition gcmTagLength :: nat where "gcmTagLength = 16"

definition NewGCM :: "gcm_mode \<Rightarrow> bytes \<Rightarrow> bytes \<Rightarrow> bytes \<Rightarrow> bytes \<Rightarrow> rec_aead" where
  "NewGCM gm localKey localWriteIV remoteKey remoteWriteIV =
     \<lparr>ra_seal = gm_seal gm localKey, ra_open = gm_open gm remoteKey, ra_localIV = localWriteIV, ra_remoteIV = remoteWriteIV,
       ra_tagLen = gcmTagLength\<rparr>"

definition gcm_init :: "gcm_mode \<Rightarrow> hash_fun \<Rightarrow> bytes \<Rightarrow> bytes \<Rightarrow> bytes \<Rightarrow> bool \<Rightarrow> nat \<Rightarrow> nat \<Rightarrow> nat \<Rightarrow> rec_aead option" where
  "gcm_init gm hf masterSecret clientRandom serverRandom isClient prfMacLen prfKeyLen prfIvLen =
     (case GenerateEncryptionKeys masterSecret clientRandom serverRandom prfMacLen prfKeyLen prfIvLen hf of
        None \<Rightarrow> None
      | Some keys \<Rightarrow> Some
          (if isClient
           then NewGCM gm (ek_ClientWriteKey keys) (ek_ClientWriteIV keys) (ek_ServerWriteKey keys) (ek_ServerWriteIV keys)
           else NewGCM gm (ek_ServerWriteKey keys) (ek_ServerWriteIV keys) (ek_ClientWriteKey keys) (ek_ClientWriteIV keys)))"

definition Aes128Gcm_Init :: "gcm_mode \<Rightarrow> hash_fun \<Rightarrow> bytes \<Rightarrow> bytes \<Rightarrow> bytes \<Rightarrow> bool \<Rightarrow> rec_aead option" where
  "Aes128Gcm_Init gm hf masterSecret clientRandom serverRandom isClient =
     gcm_init gm hf masterSecret clientRandom serverRandom isClient 0 16 4"

definition Aes256Gcm_Init :: "gcm_mode \<Rightarrow> hash_fun \<Rightarrow> bytes \<Rightarrow> bytes \<Rightarrow> bytes \<Rightarrow> bool \<Rightarrow> rec_aead option" where
  "Aes256Gcm_Init gm hf masterSecret clientRandom serverRandom isClient =
     gcm_init gm hf masterSecret clientRandom serverRandom isClient 0 32 4"

section \<open>The pseudorandom function is the one of the standard\<close>

text \<open>A hash function whose HMAC has the size it says.\<close>

definition hash_ok :: "hash_fun \<Rightarrow> bool" where
  "hash_ok hf \<longleftrightarrow> 0 < hf_size hf \<and> (\<forall>k d. length (hf_hmac hf k d) = hf_size hf)"

text \<open>\<open>A(i)\<close> and the first \<open>n\<close> blocks of \<open>P_hash\<close> as in RFC 5246.\<close>

definition prf_A :: "hash_fun \<Rightarrow> bytes \<Rightarrow> bytes \<Rightarrow> nat \<Rightarrow> bytes" where
  "prf_A hf secret seed i = (hf_hmac hf secret ^^ i) seed"

definition P_hash :: "hash_fun \<Rightarrow> bytes \<Rightarrow> bytes \<Rightarrow> nat \<Rightarrow> bytes" where
  "P_hash hf secret seed n = concat (map (\<lambda>i. hf_hmac hf secret (prf_A hf secret seed (Suc i) @ seed)) [0..<n])"

lemma phash_loop_from:
  "phash_loop hf secret seed n (prf_A hf secret seed k) =
     concat (map (\<lambda>i. hf_hmac hf secret (prf_A hf secret seed (Suc i) @ seed)) [k..<k + n])"
proof (induction n arbitrary: k)
  case (Suc n)
  have "hf_hmac hf secret (prf_A hf secret seed k) = prf_A hf secret seed (Suc k)" by (simp add: prf_A_def)
  moreover have "[k..<k + Suc n] = k # [Suc k..<Suc k + n]" by (simp add: upt_conv_Cons)
  ultimately show ?case using Suc.IH [of "Suc k"] by simp
qed simp

lemma phash_loop_P_hash: "phash_loop hf secret seed n seed = P_hash hf secret seed n"
  using phash_loop_from [of hf secret seed n 0] by (simp add: P_hash_def prf_A_def)

lemma length_P_hash: "hash_ok hf \<Longrightarrow> length (P_hash hf secret seed n) = n * hf_size hf"
  by (induction n) (simp_all add: P_hash_def hash_ok_def)

lemma P_hash_prefix: "m \<le> n \<Longrightarrow> \<exists>r. P_hash hf secret seed n = P_hash hf secret seed m @ r"
proof -
  assume "m \<le> n"
  then have "[0..<n] = [0..<m] @ [m..<n]" by (metis le0 le_add_diff_inverse upt_add_eq_append)
  then show ?thesis by (simp add: P_hash_def)
qed

lemma ceil_div_enough: "0 < b \<Longrightarrow> a \<le> ceil_div a b * b"
proof -
  assume b: "0 < b"
  have "(a + b - 1) mod b < b" using b by (rule mod_less_divisor)
  then have "(a + b - 1) mod b \<le> b - 1" by linarith
  then have "a + b - 1 - (b - 1) \<le> (a + b - 1) div b * b" using div_mult_mod_eq [of "a + b - 1" b] by linarith
  then show ?thesis using b by (simp add: ceil_div_def)
qed

text \<open>
  C35: \<^verbatim>\<open>PHash\<close> computes the function of the standard: for every length it returns that many bytes,
  they are the start of \<open>P_hash\<close> with as many iterations as anyone cares to compute, and nothing
  panics, whatever hash function is used.
\<close>

theorem PHash_is_P_hash:
  assumes "hash_ok hf"
  shows "\<exists>out. PHash secret seed n hf = Some out \<and> length out = n \<and>
    (\<forall>k. n \<le> k * hf_size hf \<longrightarrow> out = take n (P_hash hf secret seed k))"
proof -
  let ?m = "ceil_div n (hf_size hf)"
  have m: "n \<le> ?m * hf_size hf" using assms ceil_div_enough by (simp add: hash_ok_def)
  have "take n (P_hash hf secret seed ?m) = take n (P_hash hf secret seed k)" if k: "n \<le> k * hf_size hf" for k
  proof (cases "?m \<le> k")
    case True
    then obtain r where "P_hash hf secret seed k = P_hash hf secret seed ?m @ r" using P_hash_prefix by blast
    then show ?thesis using m length_P_hash [OF assms, of secret seed ?m] by simp
  next
    case False
    then obtain r where "P_hash hf secret seed ?m = P_hash hf secret seed k @ r" using P_hash_prefix [of k ?m hf secret seed] by (meson nat_le_linear)
    then show ?thesis using k length_P_hash [OF assms, of secret seed k] by simp
  qed
  moreover have "length (P_hash hf secret seed ?m) = ?m * hf_size hf" by (rule length_P_hash [OF assms])
  then have "\<not> length (P_hash hf secret seed ?m) < n" using m by linarith
  then have "PHash secret seed n hf = Some (take n (P_hash hf secret seed ?m))" "length (take n (P_hash hf secret seed ?m)) = n"
    by (simp_all add: PHash_def phash_loop_P_hash)
  ultimately show ?thesis by blast
qed

definition toy_hash :: hash_fun where
  "toy_hash = \<lparr>hf_size = 4, hf_sum = \<lambda>d. take 4 (d @ [1, 2, 3, 4]), hf_hmac = \<lambda>k d. take 4 (rev d @ k @ [1, 2, 3, 4])\<rparr>"

lemma toy_hash_ok: "hash_ok toy_hash"
proof -
  have "length (take 4 (rev d @ k @ [1, 2, 3, 4])) = 4" for d k :: bytes by (simp only: length_take length_append length_rev) simp
  then show ?thesis by (simp only: hash_ok_def toy_hash_def hash_fun.select_convs) simp
qed

theorem PHash_is_P_hash_witness:
  "\<exists>out. PHash [1] [2, 3] 10 toy_hash = Some out \<and> length out = 10 \<and> out = take 10 (P_hash toy_hash [1] [2, 3] 3)"
proof -
  have "hf_size toy_hash = 4" by (simp add: toy_hash_def)
  then have "10 \<le> 3 * hf_size toy_hash" by simp
  then show ?thesis using PHash_is_P_hash [OF toy_hash_ok, of "[1]" "[2, 3]" 10] by blast
qed


section \<open>Two ends with the same secrets\<close>

lemma keys_total:
  assumes "hash_ok hf"
  shows "\<exists>ks. GenerateEncryptionKeys ms cr sr m k i hf = Some ks \<and> length (ek_ClientWriteKey ks) = k \<and> length (ek_ServerWriteKey ks) = k \<and>
    length (ek_ClientWriteIV ks) = i \<and> length (ek_ServerWriteIV ks) = i \<and> length (ek_ClientMACKey ks) = m \<and> length (ek_ServerMACKey ks) = m \<and>
    PHash ms (keyExpansionLabel @ sr @ cr) (2 * m + 2 * k + 2 * i) hf =
      Some (ek_ClientMACKey ks @ ek_ServerMACKey ks @ ek_ClientWriteKey ks @ ek_ServerWriteKey ks @ ek_ClientWriteIV ks @ ek_ServerWriteIV ks)"
proof -
  obtain km where km: "PHash ms (keyExpansionLabel @ sr @ cr) (2 * m + 2 * k + 2 * i) hf = Some km" "length km = 2 * m + 2 * k + 2 * i"
  proof -
    have "length (phash_loop hf ms (keyExpansionLabel @ sr @ cr) (ceil_div (2 * m + 2 * k + 2 * i) (hf_size hf)) (keyExpansionLabel @ sr @ cr))
        \<ge> 2 * m + 2 * k + 2 * i"
      using ceil_div_enough [of "hf_size hf" "2 * m + 2 * k + 2 * i"] assms by (simp add: phash_loop_P_hash length_P_hash hash_ok_def)
    then show thesis using that by (auto simp: PHash_def Let_def not_less [symmetric] split: if_splits)
  qed
  obtain c1 c2 c3 c4 c5 c6 where c: "km = c1 @ c2 @ c3 @ c4 @ c5 @ c6" "length c1 = m" "length c2 = m" "length c3 = k"
    "length c4 = k" "length c5 = i" "length c6 = i"
  proof -
    have cut: "length xs = a + b \<Longrightarrow> \<exists>y z. xs = y @ z \<and> length y = a \<and> length z = b" for xs :: bytes and a b
      by (rule exI [of _ "take a xs"], rule exI [of _ "drop a xs"]) simp
    obtain c1 r1 where "km = c1 @ r1" "length c1 = m" and 1: "length r1 = m + (2 * k + 2 * i)" using cut [of km m "m + (2 * k + 2 * i)"] km(2) by auto
    moreover obtain c2 r2 where "r1 = c2 @ r2" "length c2 = m" and 2: "length r2 = k + (k + 2 * i)" using cut [of r1 m "k + (k + 2 * i)"] 1 by auto
    moreover obtain c3 r3 where "r2 = c3 @ r3" "length c3 = k" and 3: "length r3 = k + 2 * i" using cut [OF 2] by auto
    moreover obtain c4 r4 where "r3 = c4 @ r4" "length c4 = k" and 4: "length r4 = i + i" using cut [OF 3] by auto
    moreover obtain c5 c6 where "r4 = c5 @ c6" "length c5 = i" "length c6 = i" using cut [OF 4] by auto
    ultimately show thesis using that by simp
  qed
  show ?thesis using km(1) c by (simp add: GenerateEncryptionKeys_def Let_def)
qed

text \<open>
  An end opens a record, other than a change of cipher, to a plain one exactly if the rest of it is
  what the other end seals for this very header with the nonce in the record.
\<close>

definition opens_exactly :: "rec_aead \<Rightarrow> rec_aead \<Rightarrow> bool" where
  "opens_exactly a b \<longleftrightarrow>
     (\<forall>n inp h out. rec_Unmarshal inp (rec_header0\<lparr>rh_ConnectionID := replicate n 0\<rparr>) = Inr h \<longrightarrow>
        rh_ContentType h \<noteq> ContentTypeChangeCipherSpec \<longrightarrow>
        (aead_Decrypt b n inp = Inr out \<longleftrightarrow>
           (\<exists>x p ct. length x = 8 \<and> inp = take (rec_Size h) inp @ x @ ct \<and>
              ra_seal a (take 4 (ra_localIV a) @ x) p (additionalData h (u16_len (length p))) = Some ct \<and>
              out = take (rec_Size h) inp @ p)))"

lemma aead_pair_opens: "aead_pair a b \<Longrightarrow> opens_exactly a b"
  unfolding opens_exactly_def
proof (intro allI impI iffI)
  fix n inp h out
  assume pr: "aead_pair a b" and h: "rec_Unmarshal inp (rec_header0\<lparr>rh_ConnectionID := replicate n 0\<rparr>) = Inr h"
    and ct: "rh_ContentType h \<noteq> ContentTypeChangeCipherSpec"
  have ax: "aead (ra_seal a) (ra_open b) (ra_tagLen b)" and iv: "take 4 (ra_remoteIV b) = take 4 (ra_localIV a)"
    using pr by (simp_all add: aead_pair_def)
  let ?s = "rec_Size h"
  {
    assume "aead_Decrypt b n inp = Inr out"
    then obtain p where len: "8 + ?s < length inp"
      and o: "ra_open b (take 4 (ra_remoteIV b) @ take 8 (drop ?s inp)) (drop (?s + 8) inp)
        (additionalData h (word_of_int (int (length (drop (?s + 8) inp)) - int (ra_tagLen b)))) = Some p" "out = take ?s inp @ p"
      using h ct by (auto simp: aead_Decrypt_def Let_def split: if_splits option.splits)
    have l: "length (drop (?s + 8) inp) = length p + ra_tagLen b" using aead.unseal_length [OF ax o(1)] by linarith
    have "ra_seal a (take 4 (ra_localIV a) @ take 8 (drop ?s inp)) p (additionalData h (u16_len (length p))) = Some (drop (?s + 8) inp)"
      using o(1) aead.unseal_iff [OF ax] unfolding l word_of_len iv by blast
    moreover have "inp = take ?s inp @ take 8 (drop ?s inp) @ drop (?s + 8) inp"
      by (metis add.commute append_take_drop_id drop_drop)
    ultimately show "\<exists>x p ct. length x = 8 \<and> inp = take ?s inp @ x @ ct \<and>
        ra_seal a (take 4 (ra_localIV a) @ x) p (additionalData h (u16_len (length p))) = Some ct \<and> out = take ?s inp @ p"
      using len o(2) by (intro exI [of _ "take 8 (drop ?s inp)"] exI [of _ p] exI [of _ "drop (?s + 8) inp"]) simp
  next
    assume "\<exists>x p ct. length x = 8 \<and> inp = take ?s inp @ x @ ct \<and>
      ra_seal a (take 4 (ra_localIV a) @ x) p (additionalData h (u16_len (length p))) = Some ct \<and> out = take ?s inp @ p"
    then obtain x p c where x: "length x = 8" "inp = take ?s inp @ x @ c"
      "ra_seal a (take 4 (ra_localIV a) @ x) p (additionalData h (u16_len (length p))) = Some c" "out = take ?s inp @ p" by blast
    have lc: "length c = length p + ra_tagLen b" "0 < ra_tagLen b" using aead.seal_length [OF ax x(3)] aead.tag_pos [OF ax] by simp_all
    have s: "length (take ?s inp) = ?s"
    proof (rule ccontr)
      assume "length (take ?s inp) \<noteq> ?s"
      then have "take ?s inp = inp" by simp
      then show False using x(1,2) by auto
    qed
    obtain pre where pre: "inp = pre @ x @ c" "length pre = ?s" using x(2) s by metis
    then have d: "take 8 (drop ?s inp) = x" "drop (?s + 8) inp = c" "\<not> length inp \<le> 8 + ?s" using x(1) lc by simp_all
    have "ra_open b (take 4 (ra_localIV a) @ x) c (additionalData h (word_of_int (int (length c) - int (ra_tagLen b)))) = Some p"
      unfolding lc(1) word_of_len using x(3) aead.unseal_iff [OF ax] by blast
    then show "aead_Decrypt b n inp = Inr out" using h ct d x(4) iv by (simp add: aead_Decrypt_def Let_def)
  }
qed


lemma NewCCM_suite_pair: "aead_pair (NewCCM_suite t E k1 iv1 k2 iv2) (NewCCM_suite t E k2 iv2 k1 iv1)"
  using ccm_mode.aead_axioms by (simp add: aead_pair_def NewCCM_suite_def)

lemma AesCcm_Init_total:
  assumes "hash_ok hf"
  shows "\<exists>cl sv. AesCcm_Init t E hf ms cr sr True k = Some cl \<and> AesCcm_Init t E hf ms cr sr False k = Some sv \<and>
    aead_pair cl sv \<and> aead_pair sv cl \<and> length (ra_localIV cl) = 4 \<and> length (ra_localIV sv) = 4 \<and>
    ra_tagLen cl = tag_bytes t \<and> ra_tagLen sv = tag_bytes t"
  using keys_total [OF assms, of ms cr sr 0 k 4] NewCCM_suite_pair
  by (auto simp: AesCcm_Init_def) (simp_all add: NewCCM_suite_def)



definition data_packet :: dtls_packet where
  "data_packet = \<lparr>pk_header = \<lparr>rh_ContentType = 23, rh_ContentLen = 0, rh_Major = 0xfe, rh_Minor = 0xfd, rh_Epoch = 1,
     rh_SequenceNumber = 0, rh_ConnectionID = []\<rparr>, pk_content = AppData [], pk_shouldWrapCID = False, pk_shouldEncrypt = True\<rparr>"


end
