(* ===== verification/Dtls_Cbc.thy ===== *)
theory Dtls_Cbc
  imports Dtls_Prf
begin

text \<open>
  The CBC mode of the DTLS cipher suites (\<^verbatim>\<open>golib/replace/dtls/pkg/crypto/ciphersuite/cbc.go\<close>) and the
  check of the padding without branches on secrets (\<^verbatim>\<open>examinePadding\<close> in \<^verbatim>\<open>ciphersuite.go\<close>).

  The block cipher with its inverse and HMAC are arguments.
\<close>

section \<open>The check of the padding\<close>

text \<open>\<^verbatim>\<open>byte(int32(^t) >> 31)\<close>: all ones if the bit 31 of \<open>t\<close> is clear.\<close>

definition msb_mask :: "u64 \<Rightarrow> byte" where
  "msb_mask t = ucast (signed_drop_bit 31 (ucast (NOT t) :: u32))"

definition padding_step :: "bytes \<Rightarrow> byte \<Rightarrow> nat \<Rightarrow> byte \<Rightarrow> byte" where
  "padding_step payload paddingLen i good =
     (let t = ucast paddingLen - (of_nat i :: u64);
          mask = msb_mask t;
          b = payload ! (length payload - 1 - i)
      in good AND NOT ((mask AND paddingLen) XOR (mask AND b)))"

definition examinePadding :: "bytes \<Rightarrow> nat \<times> byte" where
  "examinePadding payload =
     (if length payload < 1 then (0, 0)
      else let paddingLen = payload ! (length payload - 1);
               t = (of_nat (length payload - 1) :: u64) - ucast paddingLen;
               good = msb_mask t;
               toCheck = (if length payload < 256 then length payload else 256);
               good = fold (padding_step payload paddingLen) [0..<toCheck] good;
               good = good AND push_bit 4 good;
               good = good AND push_bit 2 good;
               good = good AND push_bit 1 good;
               good = signed_drop_bit 7 good
           in (unat paddingLen + 1, good))"

text \<open>What it means: the last byte says how many bytes before it must be equal to it.\<close>

definition padding_valid :: "bytes \<Rightarrow> bool" where
  "padding_valid payload \<longleftrightarrow> payload \<noteq> [] \<and>
     (let p = last payload in unat p < length payload \<and> (\<forall>i\<le>unat p. payload ! (length payload - 1 - i) = p))"

lemma msb_mask_eq: "msb_mask t = (if bit t 31 then 0 else - 1)"
proof (rule bit_word_eqI)
  fix n
  assume "n < LENGTH(8)"
  then show "bit (msb_mask t) n \<longleftrightarrow> bit (if bit t 31 then 0 else (- 1 :: byte)) n"
    by (cases "n = 0") (auto simp: msb_mask_def bit_simps)
qed

lemma bit31_unat: "bit (w :: u64) 31 \<longleftrightarrow> odd (unat w div 2 ^ 31)"
proof -
  have "bit w 31 \<longleftrightarrow> bit (unat w) 31" by (simp add: bit_unsigned_iff)
  then show ?thesis by (simp add: bit_iff_odd)
qed

lemma msb_mask_diff:
  assumes "a < 2 ^ 31" "b < 2 ^ 31"
  shows "msb_mask (of_nat a - of_nat b) = (if b \<le> a then - 1 else 0)"
proof -
  have u: "unat (of_nat a :: u64) = a" "unat (of_nat b :: u64) = b" using assms by (simp_all add: unat_of_nat)
  have "bit (of_nat a - of_nat b :: u64) 31 \<longleftrightarrow> \<not> b \<le> a"
  proof (cases "b \<le> a")
    case True
    then have "unat (of_nat a - of_nat b :: u64) = a - b" by (simp add: unat_sub_if' u)
    then show ?thesis using True assms(1) by (simp add: bit31_unat)
  next
    case False
    then have v: "unat (of_nat a - of_nat b :: u64) = 2 ^ 64 + a - b" by (simp add: unat_sub_if' u)
    have "2 ^ 64 + a - b = 2 ^ 31 * (2 ^ 33 - 1) + (2 ^ 31 + a - b)" using assms(2) by simp
    moreover have "2 ^ 31 + a - b < 2 ^ 31" using False assms(2) by linarith
    ultimately have "(2 ^ 64 + a - b) div 2 ^ 31 = 2 ^ 33 - 1"
      by (metis div_less div_mult_self4 mult.commute add.right_neutral zero_neq_numeral power_not_zero add.commute)
    then show ?thesis using False by (simp add: bit31_unat v)
  qed
  then show ?thesis by (simp add: msb_mask_eq)
qed

lemma all_ones_iff: "(g :: byte) = - 1 \<longleftrightarrow> (\<forall>n<8. bit g n)"
  by (auto simp: bit_eq_iff bit_simps)

lemma all_less_8: "(\<forall>n<8. P n) \<longleftrightarrow> P 0 \<and> P 1 \<and> P 2 \<and> P 3 \<and> P 4 \<and> P 5 \<and> P 6 \<and> P (7 :: nat)"
  by (simp add: numeral_eq_Suc All_less_Suc conj_ac)

lemma smear:
  fixes g :: byte
  shows "(let g1 = g AND push_bit 4 g; g2 = g1 AND push_bit 2 g1; g3 = g2 AND push_bit 1 g2 in signed_drop_bit 7 g3) =
    (if g = - 1 then - 1 else 0)"
proof -
  let ?g1 = "g AND push_bit 4 g"
  let ?g2 = "?g1 AND push_bit 2 ?g1"
  let ?g3 = "?g2 AND push_bit 1 ?g2"
  have "bit ?g3 7 \<longleftrightarrow> (\<forall>n<8. bit g n)"
    unfolding all_less_8 by (simp only: bit_and_iff bit_push_bit_iff) auto
  then have b: "bit ?g3 7 \<longleftrightarrow> g = - 1" by (simp add: all_ones_iff)
  have "signed_drop_bit 7 ?g3 = (if bit ?g3 7 then - 1 else 0)"
  proof (rule bit_word_eqI)
    fix n
    assume "n < LENGTH(8)"
    then show "bit (signed_drop_bit 7 ?g3) n \<longleftrightarrow> bit (if bit ?g3 7 then - 1 else (0 :: byte)) n"
      by (cases "n = 0") (simp_all add: bit_signed_drop_bit_iff)
  qed
  then show ?thesis unfolding Let_def b .
qed

lemma padding_step_eq:
  assumes "i < 2 ^ 31"
  shows "padding_step payload p i good =
    (if i \<le> unat p then good AND NOT (p XOR payload ! (length payload - 1 - i)) else good)"
proof -
  have "ucast p - (of_nat i :: u64) = of_nat (unat p) - of_nat i" by simp
  moreover have "unat p < 2 ^ 31" using unat_byte_lt [of p] by simp
  ultimately have "msb_mask (ucast p - (of_nat i :: u64)) = (if i \<le> unat p then - 1 else 0)" using msb_mask_diff assms by metis
  then show ?thesis by (simp add: padding_step_def Let_def)
qed

lemma and_not_xor_ones: "(g AND NOT (p XOR b) = (- 1 :: byte)) \<longleftrightarrow> g = - 1 \<and> p = b"
proof -
  have "p XOR b = 0 \<longleftrightarrow> p = b" by (metis xor_self_eq xor.assoc xor.right_neutral)
  moreover have "g AND NOT x = - 1 \<longleftrightarrow> g = - 1 \<and> x = 0" for x :: byte
    by (auto simp: all_ones_iff bit_simps bit_eq_iff)
  ultimately show ?thesis by simp
qed

lemma padding_fold:
  "k < 2 ^ 31 \<Longrightarrow> fold (padding_step payload p) [0..<k] good = - 1 \<longleftrightarrow>
     good = - 1 \<and> (\<forall>i<k. i \<le> unat p \<longrightarrow> p = payload ! (length payload - 1 - i))"
proof (induction k)
  case (Suc k)
  then show ?case by (auto simp: padding_step_eq and_not_xor_ones less_Suc_eq)
qed simp

text \<open>
  The check of the padding without branches is the obvious one: for every payload below 2^31 bytes
  it says 255 exactly if the last byte tells the number of bytes before it that are all equal to
  it, and 0 otherwise, and it removes one byte more than the last byte says.
\<close>

lemma examinePadding_exact:
  assumes "length payload < 2 ^ 31"
  shows "examinePadding payload =
    (if payload = [] then 0 else unat (last payload) + 1, if padding_valid payload then 255 else 0)"
proof (cases "payload = []")
  case True
  then show ?thesis by (simp add: examinePadding_def padding_valid_def)
next
  case False
  let ?n = "length payload" and ?p = "last payload"
  let ?k = "if ?n < 256 then ?n else 256"
  have p: "payload ! (?n - 1) = ?p" using False by (simp add: last_conv_nth)
  have "(of_nat (?n - 1) :: u64) - ucast ?p = of_nat (?n - 1) - of_nat (unat ?p)" by simp
  moreover have "unat ?p < 2 ^ 31" using unat_byte_lt [of ?p] by simp
  ultimately have init: "msb_mask ((of_nat (?n - 1) :: u64) - ucast ?p) = (if unat ?p \<le> ?n - 1 then - 1 else 0)"
    using msb_mask_diff [of "?n - 1" "unat ?p"] assms by (metis less_imp_diff_less)
  let ?g = "fold (padding_step payload ?p) [0..<?k] (if unat ?p \<le> ?n - 1 then - 1 else 0)"
  have "?k < 2 ^ 31" by simp
  then have "?g = - 1 \<longleftrightarrow> unat ?p \<le> ?n - 1 \<and> (\<forall>i<?k. i \<le> unat ?p \<longrightarrow> ?p = payload ! (?n - 1 - i))"
    using padding_fold by simp
  also have "\<dots> \<longleftrightarrow> padding_valid payload"
  proof -
    have "i < ?k" if "i \<le> unat ?p" "unat ?p \<le> ?n - 1" for i
      using that unat_byte_lt [of ?p] False by (cases payload) auto
    moreover have "unat ?p < ?n \<longleftrightarrow> unat ?p \<le> ?n - 1" using False by (cases payload) auto
    ultimately show ?thesis using False unfolding padding_valid_def Let_def by metis
  qed
  finally have g: "?g = - 1 \<longleftrightarrow> padding_valid payload" .
  have "snd (examinePadding payload) = (if ?g = - 1 then - 1 else 0)"
    using False p init smear [of ?g] by (simp add: examinePadding_def Let_def)
  moreover have "fst (examinePadding payload) = unat ?p + 1" using False p by (simp add: examinePadding_def Let_def)
  ultimately show ?thesis using g False by (simp add: prod_eq_iff)
qed

section \<open>Chaining\<close>

text \<open>\<^verbatim>\<open>CryptBlocks\<close> of the two block modes, for data of a multiple of 16 bytes.\<close>

function cbc_enc :: "(bytes \<Rightarrow> bytes) \<Rightarrow> bytes \<Rightarrow> bytes \<Rightarrow> bytes" where
  "cbc_enc E prev data =
     (if data = [] then [] else let c = E (xor_bytes (take 16 data) prev) in c @ cbc_enc E c (drop 16 data))"
  by pat_completeness auto
termination by (relation "measure (\<lambda>(E, prev, data). length data)") auto

function cbc_dec :: "(bytes \<Rightarrow> bytes) \<Rightarrow> bytes \<Rightarrow> bytes \<Rightarrow> bytes" where
  "cbc_dec D prev data =
     (if data = [] then [] else let c = take 16 data in xor_bytes (D c) prev @ cbc_dec D c (drop 16 data))"
  by pat_completeness auto
termination by (relation "measure (\<lambda>(D, prev, data). length data)") auto

declare cbc_enc.simps [simp del] cbc_dec.simps [simp del]

lemma cbc_Nil [simp]: "cbc_enc E iv [] = []" "cbc_dec D iv [] = []"
  by (simp_all add: cbc_enc.simps cbc_dec.simps)

section \<open>Records\<close>

text \<open>
  One end: the block cipher of the write key, the inverse of the read key, the keys of the two
  authentication codes and the hash function of HMAC.
\<close>

record cbc_suite =
  cb_write :: "bytes \<Rightarrow> bytes"
  cb_read :: "bytes \<Rightarrow> bytes"
  cb_writeMac :: bytes
  cb_readMac :: bytes
  cb_h :: hash_fun

definition cbc_hmac :: "cbc_suite \<Rightarrow> rec_header \<Rightarrow> bytes \<Rightarrow> bytes \<Rightarrow> bytes" where
  "cbc_hmac c h payload key =
     hf_hmac (cb_h c) key (put_u16 (rh_Epoch h) @ put_u48 (rh_SequenceNumber h) @ [rh_ContentType h, rh_Major h, rh_Minor h] @
       put_u16 (u16_len (length payload)) @ payload)"

text \<open>\<^verbatim>\<open>hmacCID\<close> takes the inner plaintext apart; \<open>None\<close> is the panic in there.\<close>

definition cbc_hmacCID :: "cbc_suite \<Rightarrow> rec_header \<Rightarrow> bytes \<Rightarrow> bytes \<Rightarrow> (dtls_error + bytes) option" where
  "cbc_hmacCID c h payload key =
     (case inner_Unmarshal payload of
        None \<Rightarrow> None
      | Some (Inl e) \<Rightarrow> Some (Inl e)
      | Some (Inr ip) \<Rightarrow> Some (Inr (hf_hmac (cb_h c) key
          (put_u64 seqNumPlaceholder @ [ContentTypeConnectionID, of_nat (length (rh_ConnectionID h)), ContentTypeConnectionID,
             rh_Major h, rh_Minor h] @ put_u16 (rh_Epoch h) @ put_u48 (rh_SequenceNumber h) @ rh_ConnectionID h @
             put_u16 (u16_len (length payload)) @ ip_Content ip @ [ip_RealType ip] @ replicate (ip_Zeros ip) 0 @ payload))))"

definition cbc_mac :: "cbc_suite \<Rightarrow> rec_header \<Rightarrow> bytes \<Rightarrow> bytes \<Rightarrow> (dtls_error + bytes) option" where
  "cbc_mac c h payload key =
     (if rh_ContentType h = ContentTypeConnectionID then cbc_hmacCID c h payload key else Some (Inr (cbc_hmac c h payload key)))"

text \<open>\<^verbatim>\<open>Encrypt\<close>, with the random initialisation vector as an argument.\<close>

definition cbc_Encrypt :: "cbc_suite \<Rightarrow> bytes option \<Rightarrow> rec_header \<Rightarrow> bytes \<Rightarrow> (dtls_error + bytes) option" where
  "cbc_Encrypt c rnd h raw =
     (let payload = drop (rec_Size h) raw; hdr = take (rec_Size h) raw in
      case cbc_mac c h payload (cb_writeMac c) of
        None \<Rightarrow> None
      | Some (Inl e) \<Rightarrow> Some (Inl e)
      | Some (Inr mac) \<Rightarrow>
          let body = payload @ mac;
              paddingLen = 16 - length body mod 16;
              body = body @ replicate paddingLen (of_nat (paddingLen - 1))
          in case rnd of
            None \<Rightarrow> Some (Inl ErrRandom)
          | Some iv \<Rightarrow>
              let r = hdr @ iv @ cbc_enc (cb_write c) iv body
              in Some (Inr (put_at (rec_Size h - 2) (put_u16 (u16_len (length r - rec_Size h))) r)))"

text \<open>\<^verbatim>\<open>Decrypt\<close>; \<open>None\<close> is a panic: of the inner plaintext, or of the slice before its start.\<close>

definition cbc_Decrypt :: "cbc_suite \<Rightarrow> nat \<Rightarrow> bytes \<Rightarrow> (dtls_error + bytes) option" where
  "cbc_Decrypt c n inp =
     (case rec_Unmarshal inp (rec_header0\<lparr>rh_ConnectionID := replicate n 0\<rparr>) of
        Inl e \<Rightarrow> Some (Inl e)
      | Inr h \<Rightarrow>
          let body = drop (rec_Size h) inp in
          if rh_ContentType h = ContentTypeChangeCipherSpec then Some (Inr inp)
          else if length body mod 16 \<noteq> 0 \<or> length body < 16 + max (hf_size (cb_h c) + 1) 16 then Some (Inl ErrNotEnoughRoomForNonce)
          else let body = cbc_dec (cb_read c) (take 16 body) (drop 16 body);
                   (paddingLen, paddingGood) = examinePadding body in
            if paddingGood \<noteq> 255 then Some (Inl ErrInvalidMAC)
            else if length body < hf_size (cb_h c) then Some (Inl ErrInvalidMAC)
            else if length body < hf_size (cb_h c) + paddingLen then None
            else let dataEnd = length body - hf_size (cb_h c) - paddingLen;
                     expectedMAC = take (hf_size (cb_h c)) (drop dataEnd body) in
              case cbc_mac c h (take dataEnd body) (cb_readMac c) of
                None \<Rightarrow> None
              | Some (Inl _) \<Rightarrow> Some (Inl ErrInvalidMAC)
              | Some (Inr actualMAC) \<Rightarrow>
                  if actualMAC = expectedMAC then Some (Inr (take (rec_Size h) inp @ take dataEnd body)) else Some (Inl ErrInvalidMAC))"

section \<open>Cipher suites\<close>

text \<open>The block cipher and its inverse by key.\<close>

record block_cipher =
  bc_enc :: "bytes \<Rightarrow> bytes \<Rightarrow> bytes"
  bc_dec :: "bytes \<Rightarrow> bytes \<Rightarrow> bytes"

definition NewCBC :: "block_cipher \<Rightarrow> bytes \<Rightarrow> bytes \<Rightarrow> bytes \<Rightarrow> bytes \<Rightarrow> hash_fun \<Rightarrow> cbc_suite" where
  "NewCBC bc localKey localMac remoteKey remoteMac hashFunc =
     \<lparr>cb_write = bc_enc bc localKey, cb_read = bc_dec bc remoteKey, cb_writeMac = localMac, cb_readMac = remoteMac, cb_h = hashFunc\<rparr>"

text \<open>
  \<^verbatim>\<open>Init\<close> of the two suites: the hash function of the key derivation and the one of the
  authentication code. The initialisation vectors of the keys are not used, every record has its own.
\<close>

definition Aes256CbcSha_Init :: "block_cipher \<Rightarrow> hash_fun \<Rightarrow> hash_fun \<Rightarrow> bytes \<Rightarrow> bytes \<Rightarrow> bytes \<Rightarrow> bool \<Rightarrow> cbc_suite option" where
  "Aes256CbcSha_Init bc sha256 sha1 masterSecret clientRandom serverRandom isClient =
     (case GenerateEncryptionKeys masterSecret clientRandom serverRandom 20 32 16 sha256 of
        None \<Rightarrow> None
      | Some keys \<Rightarrow> Some
          (if isClient
           then NewCBC bc (ek_ClientWriteKey keys) (ek_ClientMACKey keys) (ek_ServerWriteKey keys) (ek_ServerMACKey keys) sha1
           else NewCBC bc (ek_ServerWriteKey keys) (ek_ServerMACKey keys) (ek_ClientWriteKey keys) (ek_ClientMACKey keys) sha1))"

definition PskAes128CbcSha256_Init :: "block_cipher \<Rightarrow> hash_fun \<Rightarrow> bytes \<Rightarrow> bytes \<Rightarrow> bytes \<Rightarrow> bool \<Rightarrow> cbc_suite option" where
  "PskAes128CbcSha256_Init bc sha256 masterSecret clientRandom serverRandom isClient =
     (case GenerateEncryptionKeys masterSecret clientRandom serverRandom 32 16 16 sha256 of
        None \<Rightarrow> None
      | Some keys \<Rightarrow> Some
          (if isClient
           then NewCBC bc (ek_ClientWriteKey keys) (ek_ClientMACKey keys) (ek_ServerWriteKey keys) (ek_ServerMACKey keys) sha256
           else NewCBC bc (ek_ServerWriteKey keys) (ek_ServerMACKey keys) (ek_ClientWriteKey keys) (ek_ClientMACKey keys) sha256))"

section \<open>Lemmas on chaining\<close>

text \<open>A permutation of blocks of 16 bytes with its inverse.\<close>

definition block_pair :: "(bytes \<Rightarrow> bytes) \<Rightarrow> (bytes \<Rightarrow> bytes) \<Rightarrow> bool" where
  "block_pair E D \<longleftrightarrow> (\<forall>x. length x = 16 \<longrightarrow> length (E x) = 16 \<and> length (D x) = 16 \<and> D (E x) = x)"

lemma cbc_roundtrip:
  assumes "block_pair E D"
  shows "length iv = 16 \<Longrightarrow> length data = 16 * n \<Longrightarrow>
    length (cbc_enc E iv data) = length data \<and> cbc_dec D iv (cbc_enc E iv data) = data"
proof (induction n arbitrary: iv data)
  case 0
  then show ?case by (simp add: cbc_enc.simps cbc_dec.simps)
next
  case (Suc n)
  let ?x = "xor_bytes (take 16 data) iv"
  let ?c = "E ?x" and ?r = "drop 16 data"
  have c: "length ?c = 16" "D ?c = ?x" using assms Suc.prems by (auto simp: block_pair_def)
  have enc: "cbc_enc E iv data = ?c @ cbc_enc E ?c ?r"
    using Suc.prems(2) by (subst cbc_enc.simps) (auto simp: Let_def)
  have ih: "length (cbc_enc E ?c ?r) = length ?r" "cbc_dec D ?c (cbc_enc E ?c ?r) = ?r"
    using Suc.IH [OF c(1), of ?r] Suc.prems(2) by auto
  have "?c \<noteq> []" using c(1) by auto
  then have "cbc_dec D iv (?c @ cbc_enc E ?c ?r) = xor_bytes ?x iv @ ?r"
    using c ih(2) by (subst cbc_dec.simps) (simp add: Let_def)
  then show ?case
    using enc ih(1) c(1) Suc.prems xor_bytes_cancel [of "take 16 data" iv] by simp
qed

lemma length_cbc_dec:
  assumes "\<And>x. length x = 16 \<Longrightarrow> length (D x) = 16"
  shows "length iv = 16 \<Longrightarrow> length data = 16 * n \<Longrightarrow> length (cbc_dec D iv data) = length data"
proof (induction n arbitrary: iv data)
  case (Suc n)
  have "cbc_dec D iv data = xor_bytes (D (take 16 data)) iv @ cbc_dec D (take 16 data) (drop 16 data)"
    using Suc.prems(2) by (subst cbc_dec.simps) (auto simp: Let_def)
  moreover have "length (cbc_dec D (take 16 data) (drop 16 data)) = length data - 16"
    using Suc.IH [of "take 16 data" "drop 16 data"] Suc.prems(2) by simp
  ultimately show ?case using Suc.prems assms [of "take 16 data"] by simp
qed (simp add: cbc_dec.simps)

text \<open>The padding that \<^verbatim>\<open>Encrypt\<close> appends is valid and is found again.\<close>

lemma padding_appended:
  assumes "0 < k" "k \<le> 16"
  shows "padding_valid (xs @ replicate k (of_nat (k - 1)))" "unat (last (xs @ replicate k (of_nat (k - 1) :: byte))) + 1 = k"
proof -
  let ?p = "of_nat (k - 1) :: byte"
  have l: "last (xs @ replicate k ?p) = ?p" using assms(1) by (simp add: last_append)
  have u: "unat ?p = k - 1" by (simp only: unat_of_nat) (use assms in simp)
  show "unat (last (xs @ replicate k ?p)) + 1 = k" using l u assms(1) by simp
  have "(xs @ replicate k ?p) ! (length xs + k - 1 - i) = ?p" if "i \<le> k - 1" for i
  proof -
    have e: "length xs + k - 1 - i = length xs + (k - 1 - i)" using that assms(1) by simp
    have "k - 1 - i < k" using assms(1) by simp
    then show ?thesis by (simp only: e nth_append_length_plus nth_replicate)
  qed
  then show "padding_valid (xs @ replicate k ?p)"
    unfolding padding_valid_def Let_def l u using assms(1) by auto
qed

section \<open>Records end to end\<close>

definition cbc_pair :: "cbc_suite \<Rightarrow> cbc_suite \<Rightarrow> bool" where
  "cbc_pair a b \<longleftrightarrow> block_pair (cb_write a) (cb_read b) \<and> cb_writeMac a = cb_readMac b \<and> cb_h a = cb_h b \<and> hash_ok (cb_h b)"

lemma cbc_mac_len [simp]: "cbc_mac c (h\<lparr>rh_ContentLen := l\<rparr>) p k = cbc_mac c h p k"
  by (simp add: cbc_mac_def cbc_hmac_def cbc_hmacCID_def split: option.splits sum.splits)

lemma cbc_mac_size: "hash_ok (cb_h c) \<Longrightarrow> cbc_mac c h p k = Some (Inr m) \<Longrightarrow> length m = hf_size (cb_h c)"
  by (auto simp: cbc_mac_def cbc_hmac_def cbc_hmacCID_def hash_ok_def split: if_splits option.splits sum.splits)

lemma cbc_mac_same: "cb_h a = cb_h b \<Longrightarrow> cbc_mac a h p k = cbc_mac b h p k"
  by (simp add: cbc_mac_def cbc_hmac_def cbc_hmacCID_def split: option.splits sum.splits)

text \<open>What \<^verbatim>\<open>Decrypt\<close> does behind the header with a body of whole blocks that is long enough.\<close>

lemma cbc_Decrypt_eq:
  assumes "header_fits h n" "rec_Marshal (h\<lparr>rh_ContentLen := l\<rparr>) = Inr hdr" "rh_ContentType h \<noteq> ContentTypeChangeCipherSpec"
    and "length iv = 16" "16 dvd length ct" "max (hf_size (cb_h b) + 1) 16 \<le> length ct"
    and "length plain = length ct" "length ct < 2 ^ 31" and plain: "plain = cbc_dec (cb_read b) iv ct"
  shows "cbc_Decrypt b n (hdr @ iv @ ct) =
    (let pl = unat (last plain) + 1; e = length plain - hf_size (cb_h b) - pl in
     if \<not> padding_valid plain then Some (Inl ErrInvalidMAC)
     else if length plain < hf_size (cb_h b) + pl then None
     else case cbc_mac b h (take e plain) (cb_readMac b) of
       None \<Rightarrow> None
     | Some (Inl _) \<Rightarrow> Some (Inl ErrInvalidMAC)
     | Some (Inr m) \<Rightarrow> if m = take (hf_size (cb_h b)) (drop e plain) then Some (Inr (hdr @ take e plain)) else Some (Inl ErrInvalidMAC))"
proof -
  note rd = header_fits_read [OF assms(1,2)]
  have sz: "rec_Size (h\<lparr>rh_ContentLen := 0\<rparr>) = rec_Size h" by (simp add: rec_Size_def)
  have dr: "drop (rec_Size h) (hdr @ iv @ ct) = iv @ ct" "take (rec_Size h) (hdr @ iv @ ct) = hdr" using rd(2) by simp_all
  have ne: "\<not> length (iv @ ct) < 16 + max (hf_size (cb_h b) + 1) 16" and mod: "length (iv @ ct) mod 16 = 0"
    using assms(4-6) by auto
  have nn: "plain \<noteq> []" using assms(6,7) by auto
  have ex: "examinePadding plain = (unat (last plain) + 1, if padding_valid plain then 255 else 0)"
    using examinePadding_exact [of plain] assms(7,8) nn by simp
  have pl: "cbc_dec (cb_read b) (take 16 (iv @ ct)) (drop 16 (iv @ ct)) = plain" using plain assms(4) by simp
  have ms: "\<not> length plain < hf_size (cb_h b)" using assms(6,7) by simp
  show ?thesis
    unfolding cbc_Decrypt_def rd(1) sum.case using assms(3) ne mod ms
    by (simp only: Let_def sz dr pl ex) (simp split: option.splits sum.splits)
qed

text \<open>A record that one end makes, and what the other makes of it.\<close>

definition cbc_body :: "cbc_suite \<Rightarrow> bytes \<Rightarrow> bytes \<Rightarrow> bytes \<Rightarrow> bytes" where
  "cbc_body a iv payload mac =
     (let body = payload @ mac; k = 16 - length body mod 16 in cbc_enc (cb_write a) iv (body @ replicate k (of_nat (k - 1))))"

lemma cbc_Encrypt_eq:
  assumes "rec_Marshal h = Inr hdr" "cbc_mac a h payload (cb_writeMac a) = Some (Inr mac)"
  shows "\<exists>hr. rec_Marshal (sealed_header h (length iv + length (cbc_body a iv payload mac))) = Inr hr \<and> length hr = rec_Size h \<and>
    cbc_Encrypt a (Some iv) h (hdr @ payload) = Some (Inr (hr @ iv @ cbc_body a iv payload mac))"
proof -
  note len = rec_Size_Marshal [OF assms(1)]
  let ?ct = "cbc_body a iv payload mac"
  let ?hr = "take (rec_Size h - 2) hdr @ put_u16 (u16_len (length iv + length ?ct))"
  have "rec_Marshal (sealed_header h (length iv + length ?ct)) = Inr ?hr"
    using put_len_Marshal(1) [OF assms(1)] by (simp add: sealed_header_def)
  moreover have "length ?hr = rec_Size h" using len by (simp add: rec_Size_def FixedHeaderSize_def)
  moreover have "cbc_Encrypt a (Some iv) h (hdr @ payload) = Some (Inr (?hr @ iv @ ?ct))"
  proof -
    have dt: "drop (rec_Size h) (hdr @ payload) = payload" "take (rec_Size h) (hdr @ payload) = hdr" using len by simp_all
    have "length (hdr @ iv @ ?ct) - rec_Size h = length iv + length ?ct" using len by simp
    then show ?thesis
      using assms(2) put_len_Marshal(2) [OF assms(1)] unfolding cbc_Encrypt_def cbc_body_def Let_def dt by simp
  qed
  ultimately show ?thesis by blast
qed

lemma cbc_body_dec:
  assumes "block_pair (cb_write a) D" "length iv = 16" and k_def: "k = 16 - length (payload @ mac) mod 16"
  shows "cbc_dec D iv (cbc_body a iv payload mac) = payload @ mac @ replicate k (of_nat (k - 1))"
    and "length (cbc_body a iv payload mac) = length payload + length mac + k" "16 dvd length (cbc_body a iv payload mac)"
proof -
  let ?p = "payload @ mac @ replicate k (of_nat (k - 1))"
  have "length ?p = 16 * (length (payload @ mac) div 16 + 1)"
  proof -
    have "k + length (payload @ mac) mod 16 = 16" unfolding k_def by simp
    then show ?thesis using div_mult_mod_eq [of "length (payload @ mac)" 16]
      by (simp only: length_append length_replicate) presburger
  qed
  from cbc_roundtrip [OF assms(1,2) this] this
  show "cbc_dec D iv (cbc_body a iv payload mac) = ?p" "length (cbc_body a iv payload mac) = length payload + length mac + k"
    "16 dvd length (cbc_body a iv payload mac)"
    unfolding cbc_body_def Let_def k_def [symmetric] append_assoc by (simp_all del: length_append, simp)
qed

lemma cbc_record_roundtrip:
  assumes "cbc_pair a b" "header_fits h n" "rh_ContentType h \<noteq> ContentTypeChangeCipherSpec" "length iv = 16"
    and "rec_Marshal h = Inr hdr" "cbc_mac a h payload (cb_writeMac a) = Some (Inr mac)" "length payload + hf_size (cb_h b) + 16 < 2 ^ 31"
  shows "\<exists>hr r. rec_Marshal (sealed_header h (length r - rec_Size h)) = Inr hr \<and> cbc_Encrypt a (Some iv) h (hdr @ payload) = Some (Inr r) \<and>
    cbc_Decrypt b n r = Some (Inr (hr @ payload))"
proof -
  let ?ct = "cbc_body a iv payload mac" and ?k = "16 - length (payload @ mac) mod 16"
  let ?pl = "payload @ mac @ replicate ?k (of_nat (?k - 1))"
  obtain hr where hr: "rec_Marshal (sealed_header h (length iv + length ?ct)) = Inr hr" "length hr = rec_Size h"
    "cbc_Encrypt a (Some iv) h (hdr @ payload) = Some (Inr (hr @ iv @ ?ct))"
    using cbc_Encrypt_eq [OF assms(5,6)] by blast
  have bp: "block_pair (cb_write a) (cb_read b)" and h: "cb_h a = cb_h b" "hash_ok (cb_h b)" and km: "cb_writeMac a = cb_readMac b"
    using assms(1) by (simp_all add: cbc_pair_def)
  note body = cbc_body_dec [OF bp assms(4) refl, of payload mac]
  have mac: "length mac = hf_size (cb_h b)" using cbc_mac_size [OF _ assms(6)] h by simp
  have k: "0 < ?k" "?k \<le> 16" by simp_all
  have pad: "padding_valid ?pl" "unat (last ?pl) + 1 = ?k" using padding_appended [OF k, of "payload @ mac"] by simp_all
  have "16 \<le> length ?ct" using body(2,3) k(1) by (intro dvd_imp_le) simp_all
  then have c: "max (hf_size (cb_h b) + 1) 16 \<le> length ?ct" "length ?pl = length ?ct" "length ?ct < 2 ^ 31"
    using body(2) k mac assms(7) by simp_all
  have m: "cbc_mac b h payload (cb_readMac b) = Some (Inr mac)" using assms(6) km cbc_mac_same [OF h(1)] by simp
  have e: "length ?pl - hf_size (cb_h b) - ?k = length payload" "\<not> length ?pl < hf_size (cb_h b) + ?k" using mac by simp_all
  have tk: "take (length payload) ?pl = payload" "take (hf_size (cb_h b)) (drop (length payload) ?pl) = mac" using mac by simp_all
  have "cbc_Decrypt b n (hr @ iv @ ?ct) = Some (Inr (hr @ payload))"
    unfolding cbc_Decrypt_eq [OF assms(2) hr(1) [unfolded sealed_header_def] assms(3,4) body(3) c body(1) [symmetric]] Let_def pad(2) e(1) tk m
    using pad(1) e(2) by simp
  moreover have "length (hr @ iv @ ?ct) - rec_Size h = length iv + length ?ct" using hr(2) by simp
  ultimately show ?thesis using hr by metis
qed

text \<open>The two ends of a CBC suite, and the records that have a code: outside an identifier all of them.\<close>

definition cipher_ok :: "block_cipher \<Rightarrow> bool" where
  "cipher_ok bc \<longleftrightarrow> (\<forall>k. block_pair (bc_enc bc k) (bc_dec bc k))"

lemma NewCBC_pair: "cipher_ok bc \<Longrightarrow> hash_ok hf \<Longrightarrow> cbc_pair (NewCBC bc k1 m1 k2 m2 hf) (NewCBC bc k2 m2 k1 m1 hf)"
  by (simp add: cbc_pair_def NewCBC_def cipher_ok_def)

lemma cbc_mac_plain: "rh_ContentType h \<noteq> ContentTypeConnectionID \<Longrightarrow> \<exists>m. cbc_mac c h p k = Some (Inr m)"
  by (simp add: cbc_mac_def)

definition cbc_carries :: "cbc_suite \<Rightarrow> cbc_suite \<Rightarrow> bool" where
  "cbc_carries a b \<longleftrightarrow>
     (\<forall>h n iv hdr payload. header_fits h n \<and> rh_ContentType h \<notin> {ContentTypeChangeCipherSpec, ContentTypeConnectionID} \<and>
        length iv = 16 \<and> rec_Marshal h = Inr hdr \<and> length payload < 2 ^ 16 \<longrightarrow>
        (\<exists>hr r. rec_Marshal (sealed_header h (length r - rec_Size h)) = Inr hr \<and> cbc_Encrypt a (Some iv) h (hdr @ payload) = Some (Inr r) \<and>
           cbc_Decrypt b n r = Some (Inr (hr @ payload))))"

lemma cbc_pair_carries:
  assumes "cbc_pair a b" "hf_size (cb_h b) < 2 ^ 16"
  shows "cbc_carries a b"
  unfolding cbc_carries_def
proof (intro allI impI, elim conjE)
  fix h n iv hdr payload
  assume h: "header_fits h n" "rh_ContentType h \<notin> {ContentTypeChangeCipherSpec, ContentTypeConnectionID}"
    "length (iv :: bytes) = 16" "rec_Marshal h = Inr hdr" "length (payload :: bytes) < 2 ^ 16"
  obtain m where m: "cbc_mac a h payload (cb_writeMac a) = Some (Inr m)" using cbc_mac_plain h(2) by blast
  have "length payload + hf_size (cb_h b) + 16 < 2 ^ 31" using h(5) assms(2) by simp
  then show "\<exists>hr r. rec_Marshal (sealed_header h (length r - rec_Size h)) = Inr hr \<and> cbc_Encrypt a (Some iv) h (hdr @ payload) = Some (Inr r) \<and>
           cbc_Decrypt b n r = Some (Inr (hr @ payload))"
    using cbc_record_roundtrip [OF assms(1) h(1) _ h(3,4) m] h(2) by blast
qed


lemma overpadded:
  assumes "length (y :: bytes) = 16"
  shows "padding_valid (y @ replicate 16 12)" "unat (last (y @ replicate 16 (12 :: byte))) = 12"
proof -
  have l: "last (y @ replicate 16 (12 :: byte)) = 12" by (simp add: last_append)
  then show u: "unat (last (y @ replicate 16 (12 :: byte))) = 12" by simp
  have u12: "unat (12 :: byte) = 12" by simp
  have "(y @ replicate 16 12) ! (31 - i) = (12 :: byte)" if "i \<le> 12" for i
  proof -
    have "\<not> 31 - i < 16" "31 - i - 16 < 16" using that by arith+
    then show ?thesis by (simp only: nth_append assms if_False nth_replicate)
  qed
  moreover have "length (y @ replicate 16 (12 :: byte)) - 1 = 31" "y @ replicate 16 (12 :: byte) \<noteq> []" "12 < length (y @ replicate 16 (12 :: byte))"
    using assms by simp_all
  ultimately show "padding_valid (y @ replicate 16 12)"
    unfolding padding_valid_def Let_def l u12 by metis
qed

lemma xor_bytes_mask: "length xs = length zs \<Longrightarrow> xor_bytes xs (xor_bytes xs zs) = zs"
proof (induction xs arbitrary: zs)
  case (Cons x xs)
  then show ?case by (cases zs) (simp_all add: xor_bytes_def xor.assoc [symmetric])
qed (simp add: xor_bytes_def)

lemma overpadded_panics:
  assumes "header_fits h n" "rh_ContentType h \<noteq> ContentTypeChangeCipherSpec" "rec_Marshal (sealed_header h l) = Inr hdr" "length iv = 16"
    and "hf_size (cb_h b) = 20" "length y = 16" "length ct = 32" "cbc_dec (cb_read b) iv ct = y @ replicate 16 12"
  shows "cbc_Decrypt b n (hdr @ iv @ ct) = None"
proof -
  let ?p = "y @ replicate 16 12"
  have c: "16 dvd length ct" "max (hf_size (cb_h b) + 1) 16 \<le> length ct" "length ?p = length ct" "length ct < 2 ^ 31"
    using assms(5-7) by simp_all
  note e = cbc_Decrypt_eq [OF assms(1) assms(3) [unfolded sealed_header_def] assms(2,4) c assms(8) [symmetric]]
  have "length ?p < hf_size (cb_h b) + (unat (last ?p) + 1)" unfolding overpadded(2) [OF assms(6)] using assms(5,6) by simp
  then show ?thesis unfolding e Let_def using overpadded(1) [OF assms(6)] by simp
qed

text \<open>The block before a known one decides what the known one is decrypted to.\<close>

lemma cbc_dec_two:
  assumes "length f = 16" "length c = 16" "D c = d" "length d = 16" "f = xor_bytes d z" "length z = 16"
  shows "cbc_dec D x (f @ c) = xor_bytes (D f) x @ z"
proof -
  have ne: "f @ c \<noteq> []" "c \<noteq> []" using assms(1,2) by auto
  have "cbc_dec D f c = xor_bytes d f" using assms(2,3) ne(2) by (subst cbc_dec.simps) (simp add: Let_def)
  moreover have "xor_bytes d f = z" using assms(4-6) by (simp add: xor_bytes_mask)
  ultimately show ?thesis using assms(1) ne by (subst cbc_dec.simps) (auto simp: Let_def)
qed

lemma cbc_body_first:
  assumes "16 \<le> length payload"
  shows "\<exists>rest. cbc_body a iv payload mac = cb_write a (xor_bytes (take 16 payload) iv) @ rest"
proof -
  have "cbc_enc E iv (payload @ q) = E (xor_bytes (take 16 payload) iv) @ cbc_enc E (E (xor_bytes (take 16 payload) iv)) (drop 16 (payload @ q))" for E q
    using assms by (subst cbc_enc.simps) (auto simp: Let_def)
  then show ?thesis unfolding cbc_body_def Let_def append_assoc by blast
qed

text \<open>
  C25: A peer under an HMAC of 20 bytes can be stopped without its keys. Whoever sees one genuine record
  and knows the first 16 bytes of its payload (say, the start of a known protocol) computes from
  them a record that makes \<^verbatim>\<open>Decrypt\<close> panic: padding of 13 bytes in a body of 32 is valid, but does
  not leave 20 bytes for the code, and the slice starts before the buffer.
\<close>

theorem cbc_forgery_panics:
  assumes "cbc_pair a b" "hf_size (cb_h b) = 20" "header_fits h n" "rh_ContentType h \<notin> {ContentTypeChangeCipherSpec, ContentTypeConnectionID}"
    and "length iv = 16" "rec_Marshal h = Inr hdr" "cbc_Encrypt a (Some iv) h (hdr @ payload) = Some (Inr r)" "16 \<le> length payload"
    and "header_fits h' n" "rh_ContentType h' \<noteq> ContentTypeChangeCipherSpec" "rec_Marshal (sealed_header h' 48) = Inr hdr'" "length x = 16"
  shows "cbc_Decrypt b n (hdr' @ x @ xor_bytes (xor_bytes (take 16 payload) iv) (replicate 16 12) @ take 16 (drop (rec_Size h + 16) r)) = None"
proof -
  let ?d = "xor_bytes (take 16 payload) iv" and ?z = "replicate 16 12 :: bytes"
  let ?c = "cb_write a ?d" and ?f = "xor_bytes ?d ?z"
  obtain mac where mac: "cbc_mac a h payload (cb_writeMac a) = Some (Inr mac)" using cbc_mac_plain assms(4) by blast
  have bp: "length y = 16 \<Longrightarrow> length (cb_write a y) = 16 \<and> length (cb_read b y) = 16 \<and> cb_read b (cb_write a y) = y" for y
    using assms(1) by (simp add: cbc_pair_def block_pair_def)
  have d: "length ?d = 16" using assms(5,8) by simp
  have f: "length ?f = 16" using d by simp
  obtain hr rest where hr: "length hr = rec_Size h" "r = hr @ iv @ ?c @ rest"
    using cbc_Encrypt_eq [OF assms(6) mac, of iv] cbc_body_first [OF assms(8), of a iv mac] assms(7) by auto
  have c: "take 16 (drop (rec_Size h + 16) r) = ?c" unfolding hr(2) using hr(1) assms(5) bp [OF d] by simp
  have "cbc_dec (cb_read b) x (?f @ ?c) = xor_bytes (cb_read b ?f) x @ ?z"
    using bp [OF d] by (intro cbc_dec_two [OF f _ _ d refl]) simp_all
  then show ?thesis unfolding c
    using bp [OF d] bp [OF f] f assms(12) by (intro overpadded_panics [OF assms(9-12,2)]) simp_all
qed

text \<open>An instance: a cipher that shifts bytes, a hash of 20 bytes and a record with 16 bytes of data.\<close>

definition shift_cipher :: block_cipher where
  "shift_cipher = \<lparr>bc_enc = \<lambda>k. map (\<lambda>b. b + 3), bc_dec = \<lambda>k. map (\<lambda>b. b - 3)\<rparr>"

definition hash20 :: hash_fun where
  "hash20 = \<lparr>hf_size = 20, hf_sum = \<lambda>d. take 20 (d @ replicate 20 0), hf_hmac = \<lambda>k d. take 20 (rev d @ k @ replicate 20 0)\<rparr>"

lemma shift_cipher_ok: "cipher_ok shift_cipher"
  by (simp add: cipher_ok_def shift_cipher_def block_pair_def o_def)

lemma hash20_ok: "hash_ok hash20" "hf_size hash20 = 20"
  by (simp_all add: hash_ok_def hash20_def min_def)

definition cbc_header :: rec_header where
  "cbc_header = \<lparr>rh_ContentType = 23, rh_ContentLen = 0, rh_Major = 0xfe, rh_Minor = 0xfd, rh_Epoch = 1, rh_SequenceNumber = 5, rh_ConnectionID = []\<rparr>"


theorem cbc_forgery_panics_witness:
  "\<exists>a b hdr' f. cbc_pair a b \<and> header_fits cbc_header 0 \<and> rec_Marshal (sealed_header cbc_header 48) = Inr hdr' \<and> cbc_Decrypt b 0 (hdr' @ f) = None"
proof -
  let ?a = "NewCBC shift_cipher [1] [2] [3] [4] hash20" and ?b = "NewCBC shift_cipher [3] [4] [1] [2] hash20"
  have p: "cbc_pair ?a ?b" "hf_size (cb_h ?b) = 20"
    using NewCBC_pair [OF shift_cipher_ok hash20_ok(1)] hash20_ok(2) by (simp_all add: NewCBC_def)
  have h: "header_fits cbc_header 0" "rh_ContentType cbc_header \<notin> {ContentTypeChangeCipherSpec, ContentTypeConnectionID}"
    by (simp_all add: header_fits_def cbc_header_def MaxSequenceNumber_def version_ok_def content_types)
  obtain hdr hdr' where m: "rec_Marshal cbc_header = Inr hdr" "rec_Marshal (sealed_header cbc_header 48) = Inr hdr'"
    by (simp add: rec_Marshal_def cbc_header_def sealed_header_def MaxSequenceNumber_def)
  obtain mac where mac: "cbc_mac ?a cbc_header (replicate 16 7) (cb_writeMac ?a) = Some (Inr mac)" using cbc_mac_plain h(2) by blast
  obtain r where "cbc_Encrypt ?a (Some (replicate 16 9)) cbc_header (hdr @ replicate 16 7) = Some (Inr r)"
    using cbc_Encrypt_eq [OF m(1) mac] by blast
  from cbc_forgery_panics [OF p h _ m(1) this _ h(1) _ m(2), of "replicate 16 0"] h(2)
  show ?thesis using p(1) h(1) m(2) by auto
qed

end
