(* ===== verification/Packet_Buffer.thy ===== *)
theory Packet_Buffer
  imports Go_Prelude "HOL-Library.Sublist"
begin

text \<open>
  The buffer of received datagrams behind each connection of a DTLS listener
  (\<^verbatim>\<open>golib/replace/dtls/internal/net/buffer.go\<close>): a ring of slots with the address each datagram
  came from, which grows when it is full.

  The lemmas say which queue of datagrams a ring stands for and what each operation does to it. The
  ring is a queue only as long as it grows with its oldest datagram in slot 0.
\<close>

section \<open>The ring\<close>

record 'a packet_buffer =
  pb_packets :: "('a \<times> bytes) list"
  pb_write :: nat
  pb_read :: nat
  pb_full :: bool
  pb_notify :: bool
  pb_closed :: bool

text \<open>A slot that was never written has no address; \<open>nil\<close> stands for it.\<close>

definition NewPacketBuffer :: "'a \<Rightarrow> 'a packet_buffer" where
  "NewPacketBuffer nil =
     \<lparr>pb_packets = replicate 1 (nil, []), pb_write = 0, pb_read = 0, pb_full = False, pb_notify = False, pb_closed = False\<rparr>"

definition pb_newSize :: "nat \<Rightarrow> nat" where
  "pb_newSize n = (if n < 128 then n * 2 else 5 * n div 4)"

text \<open>\<^verbatim>\<open>copy\<close> into a fresh slice of empty slots.\<close>

definition copy_into :: "nat \<Rightarrow> 'b \<Rightarrow> 'b list \<Rightarrow> 'b list" where
  "copy_into n z xs = take n xs @ replicate (n - length xs) z"

definition pb_grow :: "'a \<Rightarrow> 'a packet_buffer \<Rightarrow> 'a packet_buffer" where
  "pb_grow nil b =
     (let newSize = pb_newSize (length (pb_packets b));
          src = (if pb_read b < pb_write b then take (pb_write b - pb_read b) (drop (pb_read b) (pb_packets b))
                 else drop (pb_read b) (pb_packets b) @ take (pb_write b) (pb_packets b));
          n = min newSize (length src)
      in b\<lparr>pb_packets := copy_into newSize (nil, []) src, pb_write := n, pb_full := False\<rparr>)"

datatype pb_error = ErrClosedPipe | ErrShortBuffer | PbEOF | PbTimeout

text \<open>The second result says whether a waiting reader is woken.\<close>

definition pb_WriteTo :: "'a \<Rightarrow> bytes \<Rightarrow> 'a \<Rightarrow> 'a packet_buffer \<Rightarrow> (pb_error + nat) \<times> bool \<times> 'a packet_buffer" where
  "pb_WriteTo nil pkt addr b =
     (if pb_closed b then (Inl ErrClosedPipe, False, b)
      else let notify = pb_notify b;
               b = b\<lparr>pb_notify := False\<rparr>;
               b = (if pb_full b then pb_grow nil b else b);
               b = b\<lparr>pb_packets := (pb_packets b)[pb_write b := (addr, pkt)]\<rparr>;
               b = b\<lparr>pb_write := pb_write b + 1\<rparr>;
               b = (if length (pb_packets b) = pb_write b then b\<lparr>pb_write := 0\<rparr> else b);
               b = (if pb_write b = pb_read b then b\<lparr>pb_full := True\<rparr> else b)
           in (Inr (length pkt), notify, b))"

text \<open>
  One round of \<^verbatim>\<open>ReadFrom\<close> with a buffer of \<open>len\<close> bytes: a result, or the reader waits to be
  woken for the next round. \<open>bytes.Buffer.Read\<close> of an empty datagram is an end of file,
  unless there is no room to read into either.
\<close>

definition pb_ReadFrom :: "bool \<Rightarrow> nat \<Rightarrow> 'a packet_buffer \<Rightarrow> (pb_error + bytes \<times> 'a) option \<times> 'a packet_buffer" where
  "pb_ReadFrom expired len b =
     (if expired then (Some (Inl PbTimeout), b)
      else if pb_read b \<noteq> pb_write b \<or> pb_full b then
        let (addr, data) = pb_packets b ! pb_read b in
        if len < length data then (Some (Inl ErrShortBuffer), b)
        else if data = [] \<and> len \<noteq> 0 then (Some (Inl PbEOF), b)
        else let b = b\<lparr>pb_read := pb_read b + 1\<rparr>;
                 b = (if length (pb_packets b) = pb_read b then b\<lparr>pb_read := 0\<rparr> else b);
                 b = (if pb_full b then b\<lparr>pb_full := False\<rparr> else b)
             in (Some (Inr (data, addr)), b)
      else if pb_closed b then (Some (Inl PbEOF), b)
      else (None, b\<lparr>pb_notify := True\<rparr>))"

definition pb_Close :: "'a packet_buffer \<Rightarrow> bool \<times> 'a packet_buffer" where
  "pb_Close b = (if pb_closed b then (False, b) else (pb_notify b, b\<lparr>pb_notify := False, pb_closed := True\<rparr>))"

section \<open>The queue of a ring\<close>

definition pb_ok :: "'a packet_buffer \<Rightarrow> bool" where
  "pb_ok b \<longleftrightarrow> pb_read b < length (pb_packets b) \<and> pb_write b < length (pb_packets b) \<and> (pb_full b \<longrightarrow> pb_read b = pb_write b)"

definition pb_count :: "'a packet_buffer \<Rightarrow> nat" where
  "pb_count b = (if pb_full b then length (pb_packets b)
     else if pb_read b \<le> pb_write b then pb_write b - pb_read b
     else pb_write b + length (pb_packets b) - pb_read b)"

definition ring_from :: "nat \<Rightarrow> 'b list \<Rightarrow> 'b list" where
  "ring_from r xs = drop r xs @ take r xs"

definition pb_queue :: "'a packet_buffer \<Rightarrow> ('a \<times> bytes) list" where
  "pb_queue b = take (pb_count b) (ring_from (pb_read b) (pb_packets b))"

lemma length_ring_from [simp]: "length (ring_from r xs) = length xs"
  by (simp add: ring_from_def min_def)

lemma ring_from_update:
  assumes "r < length xs" "k < length xs"
  shows "ring_from r (xs[(if r + k < length xs then r + k else r + k - length xs) := v]) = (ring_from r xs)[k := v]"
  using assms by (auto simp: ring_from_def list_update_append drop_update_swap take_update_swap list_update_beyond add.commute)

lemma length_pb_queue: "pb_ok b \<Longrightarrow> length (pb_queue b) = pb_count b"
  by (auto simp: pb_queue_def pb_count_def pb_ok_def)

lemma take_Suc_update: "k < length xs \<Longrightarrow> take (Suc k) (xs[k := v]) = take k xs @ [v]"
  by (simp add: take_Suc_conv_app_nth)

lemma pb_queue_Cons:
  assumes "pb_ok b" "pb_read b \<noteq> pb_write b \<or> pb_full b"
  shows "\<exists>q. pb_queue b = pb_packets b ! pb_read b # q"
proof -
  have "0 < pb_count b" using assms by (auto simp: pb_count_def pb_ok_def)
  moreover have "drop (pb_read b) (pb_packets b) = pb_packets b ! pb_read b # drop (Suc (pb_read b)) (pb_packets b)"
    using assms(1) by (simp add: pb_ok_def Cons_nth_drop_Suc)
  ultimately show ?thesis by (cases "pb_count b") (auto simp: pb_queue_def ring_from_def)
qed

lemma pb_queue_empty: "pb_ok b \<Longrightarrow> pb_queue b = [] \<longleftrightarrow> pb_read b = pb_write b \<and> \<not> pb_full b"
  using length_pb_queue [of b] by (auto simp: pb_count_def pb_ok_def split: if_splits)

section \<open>Operations on the queue\<close>

lemma pb_grow_queue:
  assumes "pb_ok b" "pb_full b"
  shows "pb_ok (pb_grow nil b) \<and> \<not> pb_full (pb_grow nil b) \<and> pb_queue (pb_grow nil b) = drop (pb_read b) (pb_queue b) \<and>
    pb_read (pb_grow nil b) = pb_read b"
proof -
  let ?n = "length (pb_packets b)" and ?r = "pb_read b"
  let ?s = "ring_from ?r (pb_packets b)"
  have r: "pb_write b = ?r" "?r < ?n" using assms by (simp_all add: pb_ok_def)
  have new: "?n < pb_newSize ?n" using r(2) by (auto simp: pb_newSize_def)
  have g: "pb_grow nil b = b\<lparr>pb_packets := ?s @ replicate (pb_newSize ?n - ?n) (nil, []), pb_write := ?n, pb_full := False\<rparr>"
    using r new by (simp add: pb_grow_def Let_def copy_into_def ring_from_def)
  have "pb_queue (pb_grow nil b) = drop ?r ?s"
    unfolding g pb_queue_def pb_count_def using r(2) by (simp add: ring_from_def [of _ "ring_from _ _ @ _"])
  moreover have "pb_queue b = ?s" using assms(2) by (simp add: pb_queue_def pb_count_def)
  ultimately show ?thesis using g r(2) new by (simp add: pb_ok_def)
qed

text \<open>The rest of \<^verbatim>\<open>WriteTo\<close> when there is room.\<close>

definition pb_store :: "'a \<times> bytes \<Rightarrow> 'a packet_buffer \<Rightarrow> 'a packet_buffer" where
  "pb_store v b =
     (let b = b\<lparr>pb_packets := (pb_packets b)[pb_write b := v]\<rparr>;
          b = b\<lparr>pb_write := pb_write b + 1\<rparr>;
          b = (if length (pb_packets b) = pb_write b then b\<lparr>pb_write := 0\<rparr> else b)
      in if pb_write b = pb_read b then b\<lparr>pb_full := True\<rparr> else b)"

lemma pb_store_queue:
  assumes "pb_ok b" "\<not> pb_full b"
  shows "pb_ok (pb_store v b) \<and> pb_queue (pb_store v b) = pb_queue b @ [v]"
proof -
  let ?n = "length (pb_packets b)" and ?r = "pb_read b" and ?k = "pb_count b"
  have r: "?r < ?n" "?k < ?n" using assms by (auto simp: pb_ok_def pb_count_def)
  have w: "pb_write b = (if ?r + ?k < ?n then ?r + ?k else ?r + ?k - ?n)"
    using assms by (auto simp: pb_ok_def pb_count_def)
  have pk: "pb_packets (pb_store v b) = (pb_packets b)[pb_write b := v]" "pb_read (pb_store v b) = ?r"
    by (simp_all add: pb_store_def Let_def)
  have ok: "pb_ok (pb_store v b)" using assms by (auto simp: pb_store_def Let_def pb_ok_def)
  have "pb_count (pb_store v b) = Suc ?k"
    using assms by (auto simp: pb_store_def Let_def pb_ok_def pb_count_def split: if_splits)
  moreover have "ring_from ?r ((pb_packets b)[pb_write b := v]) = (ring_from ?r (pb_packets b))[?k := v]"
    unfolding w by (rule ring_from_update [OF r])
  ultimately have "pb_queue (pb_store v b) = take ?k (ring_from ?r (pb_packets b)) @ [v]"
    using take_Suc_update [of ?k "ring_from ?r (pb_packets b)" v] r(2) by (simp add: pb_queue_def pk)
  then show ?thesis using ok by (simp add: pb_queue_def)
qed

lemma pb_WriteTo_store:
  "\<not> pb_closed b \<Longrightarrow> pb_WriteTo nil pkt addr b =
     (Inr (length pkt), pb_notify b,
      pb_store (addr, pkt) (if pb_full b then pb_grow nil (b\<lparr>pb_notify := False\<rparr>) else b\<lparr>pb_notify := False\<rparr>))"
  by (simp add: pb_WriteTo_def pb_store_def Let_def)

lemma pb_ok_notify [simp]: "pb_ok (b\<lparr>pb_notify := x\<rparr>) = pb_ok b" "pb_queue (b\<lparr>pb_notify := x\<rparr>) = pb_queue b"
  by (simp_all add: pb_ok_def pb_queue_def pb_count_def)

lemma pb_WriteTo_queue:
  assumes "pb_ok b" "\<not> pb_closed b"
  shows "\<exists>b'. pb_WriteTo nil pkt addr b = (Inr (length pkt), pb_notify b, b') \<and> pb_ok b' \<and>
    pb_queue b' = drop (if pb_full b then pb_read b else 0) (pb_queue b) @ [(addr, pkt)]"
proof (cases "pb_full b")
  case True
  then show ?thesis
    using pb_grow_queue [of "b\<lparr>pb_notify := False\<rparr>" nil] assms pb_store_queue [of "pb_grow nil (b\<lparr>pb_notify := False\<rparr>)" "(addr, pkt)"]
    by (auto simp: pb_WriteTo_store)
next
  case False
  then show ?thesis
    using assms pb_store_queue [of "b\<lparr>pb_notify := False\<rparr>" "(addr, pkt)"] by (auto simp: pb_WriteTo_store)
qed

definition pb_advance :: "'a packet_buffer \<Rightarrow> 'a packet_buffer" where
  "pb_advance b =
     (let b = b\<lparr>pb_read := pb_read b + 1\<rparr>;
          b = (if length (pb_packets b) = pb_read b then b\<lparr>pb_read := 0\<rparr> else b)
      in if pb_full b then b\<lparr>pb_full := False\<rparr> else b)"

lemma ring_from_next:
  assumes "r < length xs"
  shows "ring_from (if r + 1 = length xs then 0 else r + 1) xs = tl (ring_from r xs) @ [xs ! r]"
proof -
  have "ring_from r xs = xs ! r # drop (Suc r) xs @ take r xs"
    using assms by (simp add: ring_from_def Cons_nth_drop_Suc [symmetric])
  then have "tl (ring_from r xs) @ [xs ! r] = drop (Suc r) xs @ take (Suc r) xs"
    using assms by (simp add: take_Suc_conv_app_nth)
  then show ?thesis by (simp add: ring_from_def)
qed

lemma pb_advance_queue:
  assumes "pb_ok b" "pb_read b \<noteq> pb_write b \<or> pb_full b"
  shows "pb_ok (pb_advance b) \<and> pb_queue (pb_advance b) = tl (pb_queue b)"
proof -
  let ?n = "length (pb_packets b)" and ?r = "pb_read b"
  let ?r' = "if ?r + 1 = ?n then 0 else ?r + 1"
  have ok: "pb_ok (pb_advance b)" using assms by (auto simp: pb_advance_def Let_def pb_ok_def)
  have c: "pb_count b = Suc (pb_count (pb_advance b))"
    using assms by (auto simp: pb_advance_def Let_def pb_ok_def pb_count_def split: if_splits)
  have f: "pb_packets (pb_advance b) = pb_packets b" "pb_read (pb_advance b) = ?r'" by (simp_all add: pb_advance_def Let_def)
  have n: "pb_count b \<le> ?n" using assms(1) by (auto simp: pb_count_def pb_ok_def)
  have "ring_from ?r' (pb_packets b) = tl (ring_from ?r (pb_packets b)) @ [pb_packets b ! ?r]"
    using assms(1) ring_from_next [of ?r "pb_packets b"] by (simp add: pb_ok_def)
  then have "pb_queue (pb_advance b) = take (pb_count (pb_advance b)) (tl (ring_from ?r (pb_packets b)))"
    using n c by (simp add: pb_queue_def f)
  then show ?thesis using ok c by (simp add: pb_queue_def tl_take)
qed

text \<open>What a read does, on every branch.\<close>

lemma pb_ReadFrom_queue:
  assumes "pb_ok b"
  shows "pb_ReadFrom False len b =
    (case pb_queue b of
       [] \<Rightarrow> if pb_closed b then (Some (Inl PbEOF), b) else (None, b\<lparr>pb_notify := True\<rparr>)
     | (addr, data) # q \<Rightarrow>
         if len < length data then (Some (Inl ErrShortBuffer), b)
         else if data = [] \<and> len \<noteq> 0 then (Some (Inl PbEOF), b)
         else (Some (Inr (data, addr)), pb_advance b))"
proof (cases "pb_queue b")
  case Nil
  then show ?thesis using pb_queue_empty [OF assms] by (simp add: pb_ReadFrom_def)
next
  case (Cons v q)
  then have "pb_read b \<noteq> pb_write b \<or> pb_full b" using pb_queue_empty [OF assms] by auto
  then show ?thesis using pb_queue_Cons [OF assms] Cons
    by (cases v) (auto simp: pb_ReadFrom_def pb_advance_def Let_def split: prod.splits)
qed

section \<open>A queue that may lose\<close>

text \<open>
  What a listener can rely on: entries come out in the order in which they went in, each once and
  unchanged, but a growing queue may drop entries at its front.
\<close>

locale lossy_queue =
  fixes ok :: "'s \<Rightarrow> bool" and qu :: "'s \<Rightarrow> 'x list" and enq :: "'x \<Rightarrow> 's \<Rightarrow> 's" and deq :: "'s \<Rightarrow> ('x \<times> 's) option"
  assumes enq_ok: "ok s \<Longrightarrow> ok (enq x s)"
    and enq_qu: "ok s \<Longrightarrow> \<exists>k y. qu (enq x s) = drop k (qu s) @ y \<and> y \<in> {[], [x]}"
    and deq_ok: "ok s \<Longrightarrow> deq s = Some (x, s') \<Longrightarrow> ok s' \<and> qu s = x # qu s'"
begin

lemma enq_subseq: "ok s \<Longrightarrow> subseq (qu (enq x s)) (qu s @ [x])"
proof -
  assume "ok s"
  then obtain k y where y: "qu (enq x s) = drop k (qu s) @ y" "y \<in> {[], [x]}" using enq_qu by blast
  have "subseq (drop k (qu s)) (qu s)" by (rule suffix_imp_subseq [OF suffix_drop])
  moreover have "subseq y [x]" using y(2) by auto
  ultimately show ?thesis unfolding y(1) by (rule list_emb_append_mono)
qed

end

text \<open>A run: \<open>Some x\<close> puts \<open>x\<close> in, \<open>None\<close> takes one out if there is one.\<close>

fun queue_run :: "('x \<Rightarrow> 's \<Rightarrow> 's) \<Rightarrow> ('s \<Rightarrow> ('x \<times> 's) option) \<Rightarrow> 'x option list \<Rightarrow> 's \<Rightarrow> 'x list \<times> 's" where
  "queue_run enq deq [] s = ([], s)"
| "queue_run enq deq (Some x # os) s = queue_run enq deq os (enq x s)"
| "queue_run enq deq (None # os) s =
     (case deq s of None \<Rightarrow> queue_run enq deq os s | Some (x, s') \<Rightarrow> map_prod ((#) x) id (queue_run enq deq os s'))"

context lossy_queue
begin

lemma run_ok: "ok s \<Longrightarrow> ok (snd (queue_run enq deq os s))"
proof (induction os arbitrary: s)
  case (Cons a os)
  then show ?case by (cases a) (auto simp: enq_ok split: option.splits dest: deq_ok)
qed simp

lemma run_subseq:
  "ok s \<Longrightarrow> subseq (fst (queue_run enq deq os s) @ qu (snd (queue_run enq deq os s))) (qu s @ map the (filter (\<lambda>v. v \<noteq> None) os))"
proof (induction os arbitrary: s)
  case (Cons a os)
  show ?case
  proof (cases a)
    case None
    show ?thesis
    proof (cases "deq s")
      case None
      then show ?thesis using Cons \<open>a = None\<close> by simp
    next
      case (Some p)
      then obtain x s' where p: "deq s = Some (x, s')" by (cases p) auto
      then have "ok s'" "qu s = x # qu s'" using deq_ok [OF Cons.prems] by blast+
      then show ?thesis using Cons.IH [of s'] p \<open>a = None\<close> by simp
    qed
  next
    case (Some x)
    let ?r = "map the (filter (\<lambda>v. v \<noteq> None) os)"
    have "subseq (fst (queue_run enq deq os (enq x s)) @ qu (snd (queue_run enq deq os (enq x s)))) (qu (enq x s) @ ?r)"
      by (rule Cons.IH [OF enq_ok [OF Cons.prems]])
    also have "subseq (qu (enq x s) @ ?r) ((qu s @ [x]) @ ?r)"
      by (rule list_emb_append_mono [OF enq_subseq [OF Cons.prems]]) simp
    finally show ?thesis using Some by simp
  qed
qed simp

end

definition pb_enq :: "'a \<Rightarrow> 'a \<times> bytes \<Rightarrow> 'a packet_buffer \<Rightarrow> 'a packet_buffer" where
  "pb_enq nil v b = snd (snd (pb_WriteTo nil (snd v) (fst v) b))"

definition pb_deq :: "nat \<Rightarrow> 'a packet_buffer \<Rightarrow> (('a \<times> bytes) \<times> 'a packet_buffer) option" where
  "pb_deq len b = (case pb_ReadFrom False len b of (Some (Inr (data, addr)), b') \<Rightarrow> Some ((addr, data), b') | _ \<Rightarrow> None)"

lemma pb_enq_queue:
  "pb_ok b \<Longrightarrow> pb_enq nil v b = b \<and> pb_closed b \<or> \<not> pb_closed b \<and>
     pb_ok (pb_enq nil v b) \<and> pb_queue (pb_enq nil v b) = drop (if pb_full b then pb_read b else 0) (pb_queue b) @ [v]"
  using pb_WriteTo_queue [of b nil "snd v" "fst v"] by (cases "pb_closed b") (auto simp: pb_enq_def pb_WriteTo_def)

lemma pb_deq_queue: "pb_ok b \<Longrightarrow> pb_deq len b = Some (v, b') \<Longrightarrow> b' = pb_advance b \<and> pb_ok b' \<and> pb_queue b = v # pb_queue b'"
  using pb_advance_queue [of b] pb_queue_empty [of b]
  by (auto simp: pb_deq_def pb_ReadFrom_queue split: list.splits if_splits prod.splits option.splits)

interpretation ring: lossy_queue pb_ok pb_queue "pb_enq nil" "pb_deq len" for nil :: 'a and len
proof
  fix s :: "'a packet_buffer" and x
  assume "pb_ok s"
  from pb_enq_queue [OF this, of nil x] this
  show "pb_ok (pb_enq nil x s)" "\<exists>k y. pb_queue (pb_enq nil x s) = drop k (pb_queue s) @ y \<and> y \<in> {[], [x]}"
    by (auto intro: exI [of _ 0])
qed (auto dest: pb_deq_queue)

lemma pb_new_ok: "pb_ok (NewPacketBuffer nil)" "pb_queue (NewPacketBuffer nil) = []"
  by (simp_all add: NewPacketBuffer_def pb_ok_def pb_queue_def pb_count_def)

text \<open>
  C23: Whatever datagrams are written and read, in whatever order, what is read from the ring of a
  connection and what is still in it is a subsequence of what was written: in order, no datagram
  twice, with its own address and its own bytes. A write loses nothing unless the ring is full and
  its oldest datagram is not in slot 0; then exactly as many datagrams are lost as the slot's number.
\<close>

theorem packet_buffer_refines:
  "let (out, b) = queue_run (pb_enq nil) (pb_deq len) os (NewPacketBuffer nil) in
     pb_ok b \<and> subseq (out @ pb_queue b) (map the (filter (\<lambda>v. v \<noteq> None) os)) \<and>
     (pb_closed b \<or> pb_queue (pb_enq nil v b) = drop (if pb_full b then pb_read b else 0) (pb_queue b) @ [v])"
proof -
  let ?r = "queue_run (pb_enq nil) (pb_deq len) os (NewPacketBuffer nil)"
  have ok: "pb_ok (snd ?r)" by (rule ring.run_ok [OF pb_new_ok(1)])
  moreover have "subseq (fst ?r @ pb_queue (snd ?r)) (map the (filter (\<lambda>v. v \<noteq> None) os))"
    using ring.run_subseq [OF pb_new_ok(1), of nil len os nil] by (simp add: pb_new_ok(2))
  ultimately show ?thesis using pb_enq_queue [OF ok, of nil v] by (auto simp: split_beta)
qed

text \<open>
  Growing loses datagrams. Four datagrams are written to a new ring and one is read in between;
  the three reads that follow never give the second datagram.
\<close>

lemma packet_buffer_loses:
  "fst (queue_run (pb_enq 0) (pb_deq 8192) [Some (1 :: nat, [11]), Some (1, [12]), None, Some (1, [13]), Some (1, [14]), None, None, None]
     (NewPacketBuffer 0)) = [(1, [11]), (1, [13]), (1, [14])]"
  by code_simp

text \<open>
  An empty datagram ends a connection. Once it is the oldest, every read with room reports the end of
  the stream and leaves it where it is, and it stays the oldest until the ring grows.
\<close>

lemma empty_datagram_blocks:
  assumes "pb_ok b" "pb_queue b = (a, []) # q" "0 < len"
  shows "pb_ReadFrom False len b = (Some (Inl PbEOF), b) \<and>
    (pb_full b \<or> pb_closed b \<or> pb_queue (pb_enq nil v b) = (a, []) # q @ [v])"
  using assms pb_enq_queue [OF assms(1), of nil v] by (auto simp: pb_ReadFrom_queue)

end
