(* ===== verification/Dtls_Ext.thy ===== *)
theory Dtls_Ext
  imports Dtls_Record "HOL-Library.Monad_Syntax"
begin

text \<open>
  The extensions of the hello messages (\<^verbatim>\<open>golib/replace/dtls/pkg/protocol/extension\<close>): how each is
  written and read, and the list of them. In the readers \<open>None\<close> is a panic: an index or a slice out
  of range.

  The package \<^verbatim>\<open>golang.org/x/crypto/cryptobyte\<close>, which three of the extensions are written with, is an argument.
\<close>

section \<open>Access to slices\<close>

definition idx :: "bytes \<Rightarrow> nat \<Rightarrow> byte option" where
  "idx data i = (if i < length data then Some (data ! i) else None)"

definition u16_at :: "bytes \<Rightarrow> nat \<Rightarrow> u16 option" where
  "u16_at data i = (if i + 2 \<le> length data then Some (be16 (drop i data)) else None)"

definition tail_at :: "bytes \<Rightarrow> nat \<Rightarrow> bytes option" where
  "tail_at data i = (if i \<le> length data then Some (drop i data) else None)"

definition sub_at :: "bytes \<Rightarrow> nat \<Rightarrow> nat \<Rightarrow> bytes option" where
  "sub_at data i j = (if i \<le> j \<and> j \<le> length data then Some (take (j - i) (drop i data)) else None)"

section \<open>Errors, constants and tables\<close>

datatype hs_error =
    HBufferTooSmall | HLengthMismatch | HInvalidExtensionType | HInvalidSNIFormat | HInvalidCIDFormat | HALPNInvalidFormat
  | HALPNNoAppProto | HMasterKeyIdentifierTooLarge | HBuilder
  | HUnableToMarshalFragmented | HHandshakeMessageUnset | HInvalidClientKeyExchange | HInvalidHashAlgorithm
  | HInvalidSignatureAlgorithm | HCookieTooLong | HInvalidEllipticCurveType | HInvalidNamedCurve | HCipherSuiteUnset
  | HCompressionMethodUnset | HInvalidCompressionMethod | HNotImplemented

abbreviation (input) ServerNameTypeValue :: u16 where "ServerNameTypeValue \<equiv> 0"
abbreviation (input) SupportedEllipticCurvesTypeValue :: u16 where "SupportedEllipticCurvesTypeValue \<equiv> 10"
abbreviation (input) SupportedPointFormatsTypeValue :: u16 where "SupportedPointFormatsTypeValue \<equiv> 11"
abbreviation (input) SupportedSignatureAlgorithmsTypeValue :: u16 where "SupportedSignatureAlgorithmsTypeValue \<equiv> 13"
abbreviation (input) UseSRTPTypeValue :: u16 where "UseSRTPTypeValue \<equiv> 14"
abbreviation (input) ALPNTypeValue :: u16 where "ALPNTypeValue \<equiv> 16"
abbreviation (input) UseExtendedMasterSecretTypeValue :: u16 where "UseExtendedMasterSecretTypeValue \<equiv> 23"
abbreviation (input) ConnectionIDTypeValue :: u16 where "ConnectionIDTypeValue \<equiv> 54"
abbreviation (input) RenegotiationInfoTypeValue :: u16 where "RenegotiationInfoTypeValue \<equiv> 65281"

text \<open>The curves, hash functions, signatures, profiles and point formats that are known.\<close>

definition Curves :: "u16 set" where "Curves = {0x17, 0x18, 0x1d}"
definition hash_Algorithms :: "byte set" where "hash_Algorithms = {0, 1, 2, 3, 4, 5, 6, 8}"
definition signature_Algorithms :: "u16 set" where "signature_Algorithms = {0, 1, 3, 7}"
definition srtpProtectionProfiles :: "u16 set" where "srtpProtectionProfiles = {1, 2, 3, 4, 5, 6, 7, 8}"
abbreviation (input) CurvePointFormatUncompressed :: byte where "CurvePointFormatUncompressed \<equiv> 0"

text \<open>
  The readers and the builders of length-prefixed strings. A reader fails, or gives the string
  and what follows it; a builder fails if the string is too long.
\<close>

record cryptobyte =
  ReadUint8 :: "bytes \<Rightarrow> (byte \<times> bytes) option"
  ReadUint16 :: "bytes \<Rightarrow> (u16 \<times> bytes) option"
  ReadUint8LengthPrefixed :: "bytes \<Rightarrow> (bytes \<times> bytes) option"
  ReadUint16LengthPrefixed :: "bytes \<Rightarrow> (bytes \<times> bytes) option"
  AddUint8LengthPrefixed :: "bytes \<Rightarrow> bytes option"
  AddUint16LengthPrefixed :: "bytes \<Rightarrow> bytes option"

section \<open>Extensions\<close>

text \<open>A pair of a hash function and a signature, and the extensions.\<close>

type_synonym sig_hash = "byte \<times> u16"

datatype extension =
    ServerName bytes
  | SupportedEllipticCurves "u16 list"
  | SupportedPointFormats "byte list"
  | SupportedSignatureAlgorithms "sig_hash list"
  | UseSRTP "u16 list" bytes
  | ALPN "bytes list"
  | UseExtendedMasterSecret bool
  | RenegotiationInfo byte
  | ConnectionID bytes

fun TypeValue :: "extension \<Rightarrow> u16" where
  "TypeValue (ServerName _) = ServerNameTypeValue"
| "TypeValue (SupportedEllipticCurves _) = SupportedEllipticCurvesTypeValue"
| "TypeValue (SupportedPointFormats _) = SupportedPointFormatsTypeValue"
| "TypeValue (SupportedSignatureAlgorithms _) = SupportedSignatureAlgorithmsTypeValue"
| "TypeValue (UseSRTP _ _) = UseSRTPTypeValue"
| "TypeValue (ALPN _) = ALPNTypeValue"
| "TypeValue (UseExtendedMasterSecret _) = UseExtendedMasterSecretTypeValue"
| "TypeValue (RenegotiationInfo _) = RenegotiationInfoTypeValue"
| "TypeValue (ConnectionID _) = ConnectionIDTypeValue"

subsection \<open>Writing\<close>

definition builder :: "bytes option \<Rightarrow> hs_error + bytes" where
  "builder b = (case b of None \<Rightarrow> Inl HBuilder | Some x \<Rightarrow> Inr x)"

text \<open>\<^verbatim>\<open>Marshal\<close> of each extension, and the method call on the interface.\<close>

definition ServerName_Marshal :: "cryptobyte \<Rightarrow> bytes \<Rightarrow> hs_error + bytes" where
  "ServerName_Marshal cb name = builder (do {
     n \<leftarrow> AddUint16LengthPrefixed cb name;
     l \<leftarrow> AddUint16LengthPrefixed cb (0 # n);
     d \<leftarrow> AddUint16LengthPrefixed cb l;
     Some (put_u16 ServerNameTypeValue @ d) })"

definition SupportedEllipticCurves_Marshal :: "u16 list \<Rightarrow> bytes" where
  "SupportedEllipticCurves_Marshal cs =
     put_u16 SupportedEllipticCurvesTypeValue @ put_u16 (u16_len (2 + length cs * 2)) @ put_u16 (u16_len (length cs * 2)) @
       concat (map put_u16 cs)"

definition SupportedPointFormats_Marshal :: "byte list \<Rightarrow> bytes" where
  "SupportedPointFormats_Marshal ps =
     put_u16 SupportedPointFormatsTypeValue @ put_u16 (u16_len (1 + length ps)) @ [of_nat (length ps)] @ ps"

definition SupportedSignatureAlgorithms_Marshal :: "sig_hash list \<Rightarrow> bytes" where
  "SupportedSignatureAlgorithms_Marshal as =
     put_u16 SupportedSignatureAlgorithmsTypeValue @ put_u16 (u16_len (2 + length as * 2)) @ put_u16 (u16_len (length as * 2)) @
       concat (map (\<lambda>(h, s). [h, ucast s]) as)"

definition UseSRTP_Marshal :: "u16 list \<Rightarrow> bytes \<Rightarrow> hs_error + bytes" where
  "UseSRTP_Marshal ps mki =
     (if 255 < length mki then Inl HMasterKeyIdentifierTooLarge
      else Inr (put_u16 UseSRTPTypeValue @ put_u16 (u16_len (2 + length ps * 2 + 1 + length mki)) @ put_u16 (u16_len (length ps * 2)) @
        concat (map put_u16 ps) @ [of_nat (length mki)] @ mki))"

definition ALPN_Marshal :: "cryptobyte \<Rightarrow> bytes list \<Rightarrow> hs_error + bytes" where
  "ALPN_Marshal cb ps = builder (do {
     xs \<leftarrow> those (map (AddUint8LengthPrefixed cb) ps);
     l \<leftarrow> AddUint16LengthPrefixed cb (concat xs);
     d \<leftarrow> AddUint16LengthPrefixed cb l;
     Some (put_u16 ALPNTypeValue @ d) })"

definition UseExtendedMasterSecret_Marshal :: "bool \<Rightarrow> bytes" where
  "UseExtendedMasterSecret_Marshal supported =
     (if supported then put_u16 UseExtendedMasterSecretTypeValue @ put_u16 0 else [])"

definition RenegotiationInfo_Marshal :: "byte \<Rightarrow> bytes" where
  "RenegotiationInfo_Marshal c = put_u16 RenegotiationInfoTypeValue @ put_u16 1 @ [c]"

definition ConnectionID_Marshal :: "cryptobyte \<Rightarrow> bytes \<Rightarrow> hs_error + bytes" where
  "ConnectionID_Marshal cb cid = builder (do {
     c \<leftarrow> AddUint8LengthPrefixed cb cid;
     d \<leftarrow> AddUint16LengthPrefixed cb c;
     Some (put_u16 ConnectionIDTypeValue @ d) })"

lemmas marshal_defs [simp] = ServerName_Marshal_def SupportedEllipticCurves_Marshal_def SupportedPointFormats_Marshal_def
  SupportedSignatureAlgorithms_Marshal_def UseSRTP_Marshal_def ALPN_Marshal_def UseExtendedMasterSecret_Marshal_def
  RenegotiationInfo_Marshal_def ConnectionID_Marshal_def

fun ext_Marshal :: "cryptobyte \<Rightarrow> extension \<Rightarrow> hs_error + bytes" where
  "ext_Marshal cb (ServerName name) = ServerName_Marshal cb name"
| "ext_Marshal cb (SupportedEllipticCurves cs) = Inr (SupportedEllipticCurves_Marshal cs)"
| "ext_Marshal cb (SupportedPointFormats ps) = Inr (SupportedPointFormats_Marshal ps)"
| "ext_Marshal cb (SupportedSignatureAlgorithms as) = Inr (SupportedSignatureAlgorithms_Marshal as)"
| "ext_Marshal cb (UseSRTP ps mki) = UseSRTP_Marshal ps mki"
| "ext_Marshal cb (ALPN ps) = ALPN_Marshal cb ps"
| "ext_Marshal cb (UseExtendedMasterSecret supported) = Inr (UseExtendedMasterSecret_Marshal supported)"
| "ext_Marshal cb (RenegotiationInfo c) = Inr (RenegotiationInfo_Marshal c)"
| "ext_Marshal cb (ConnectionID cid) = ConnectionID_Marshal cb cid"

text \<open>\<^verbatim>\<open>Marshal\<close> of a list of extensions.\<close>

fun exts_concat :: "cryptobyte \<Rightarrow> extension list \<Rightarrow> hs_error + bytes" where
  "exts_concat cb [] = Inr []"
| "exts_concat cb (e # es) =
     (case ext_Marshal cb e of Inl x \<Rightarrow> Inl x
      | Inr raw \<Rightarrow> (case exts_concat cb es of Inl x \<Rightarrow> Inl x | Inr rs \<Rightarrow> Inr (raw @ rs)))"

definition exts_Marshal :: "cryptobyte \<Rightarrow> extension list \<Rightarrow> hs_error + bytes" where
  "exts_Marshal cb es = (case exts_concat cb es of Inl x \<Rightarrow> Inl x | Inr raw \<Rightarrow> Inr (put_u16 (u16_len (length raw)) @ raw))"

subsection \<open>Reading\<close>

text \<open>
  Each reader gets the rest of the buffer from its own type on, and takes the extension from the
  start of it. A failed \<^verbatim>\<open>ReadUint16\<close> or \<^verbatim>\<open>ReadUint16LengthPrefixed\<close> whose result is not looked at leaves the zero value.
\<close>

definition read_type :: "cryptobyte \<Rightarrow> bytes \<Rightarrow> u16 \<times> bytes" where
  "read_type cb data = (case ReadUint16 cb data of None \<Rightarrow> (0, data) | Some x \<Rightarrow> x)"

definition read_data :: "cryptobyte \<Rightarrow> bytes \<Rightarrow> bytes" where
  "read_data cb val = (case ReadUint16LengthPrefixed cb val of None \<Rightarrow> [] | Some (x, _) \<Rightarrow> x)"

text \<open>The loops over the names; the fuel is the length of what is to be read, and \<open>None\<close> is also a loop that does not end.\<close>

fun sni_loop :: "cryptobyte \<Rightarrow> nat \<Rightarrow> bytes \<Rightarrow> bytes \<Rightarrow> (hs_error + bytes) option" where
  "sni_loop cb 0 nameList name = (if nameList = [] then Some (Inr name) else None)"
| "sni_loop cb (Suc k) nameList name =
     (if nameList = [] then Some (Inr name)
      else case ReadUint8 cb nameList of
        None \<Rightarrow> Some (Inl HInvalidSNIFormat)
      | Some (nameType, r) \<Rightarrow>
          (case ReadUint16LengthPrefixed cb r of
             None \<Rightarrow> Some (Inl HInvalidSNIFormat)
           | Some (serverName, r') \<Rightarrow>
               if serverName = [] then Some (Inl HInvalidSNIFormat)
               else if nameType \<noteq> 0 then sni_loop cb k r' name
               else if name \<noteq> [] then Some (Inl HInvalidSNIFormat)
               else if last serverName = 46 then Some (Inl HInvalidSNIFormat)
               else sni_loop cb k r' serverName))"

definition ServerName_Unmarshal :: "cryptobyte \<Rightarrow> bytes \<Rightarrow> (hs_error + extension) option" where
  "ServerName_Unmarshal cb data =
     (let (t, val) = read_type cb data in
      if t \<noteq> ServerNameTypeValue then Some (Inl HInvalidExtensionType)
      else case ReadUint16LengthPrefixed cb (read_data cb val) of
        None \<Rightarrow> Some (Inl HInvalidSNIFormat)
      | Some (nameList, _) \<Rightarrow>
          if nameList = [] then Some (Inl HInvalidSNIFormat)
          else map_option (map_sum id ServerName) (sni_loop cb (length nameList) nameList []))"

fun alpn_loop :: "cryptobyte \<Rightarrow> nat \<Rightarrow> bytes \<Rightarrow> (hs_error + bytes list) option" where
  "alpn_loop cb 0 protoList = (if protoList = [] then Some (Inr []) else None)"
| "alpn_loop cb (Suc k) protoList =
     (if protoList = [] then Some (Inr [])
      else case ReadUint8LengthPrefixed cb protoList of
        None \<Rightarrow> Some (Inl HALPNInvalidFormat)
      | Some (proto, r) \<Rightarrow>
          if proto = [] then Some (Inl HALPNInvalidFormat)
          else map_option (map_sum id ((#) proto)) (alpn_loop cb k r))"

definition ALPN_Unmarshal :: "cryptobyte \<Rightarrow> bytes \<Rightarrow> (hs_error + extension) option" where
  "ALPN_Unmarshal cb data =
     (let (t, val) = read_type cb data in
      if t \<noteq> ALPNTypeValue then Some (Inl HInvalidExtensionType)
      else case ReadUint16LengthPrefixed cb (read_data cb val) of
        None \<Rightarrow> Some (Inl HALPNInvalidFormat)
      | Some (protoList, _) \<Rightarrow>
          if protoList = [] then Some (Inl HALPNInvalidFormat)
          else map_option (map_sum id ALPN) (alpn_loop cb (length protoList) protoList))"

definition ConnectionID_Unmarshal :: "cryptobyte \<Rightarrow> bytes \<Rightarrow> (hs_error + extension) option" where
  "ConnectionID_Unmarshal cb data =
     (let (t, val) = read_type cb data in
      if t \<noteq> ConnectionIDTypeValue then Some (Inl HInvalidExtensionType)
      else case ReadUint8LengthPrefixed cb (read_data cb val) of
        None \<Rightarrow> Some (Inl HInvalidCIDFormat)
      | Some (cid, _) \<Rightarrow> Some (Inr (ConnectionID cid)))"

definition RenegotiationInfo_Unmarshal :: "bytes \<Rightarrow> (hs_error + extension) option" where
  "RenegotiationInfo_Unmarshal data =
     (if length data < 5 then Some (Inl HBufferTooSmall)
      else do {
        t \<leftarrow> u16_at data 0;
        if t \<noteq> RenegotiationInfoTypeValue then Some (Inl HInvalidExtensionType)
        else do { c \<leftarrow> idx data 4; Some (Inr (RenegotiationInfo c)) } })"

abbreviation (input) supportedGroupsHeaderSize :: nat where "supportedGroupsHeaderSize \<equiv> 6"

definition SupportedEllipticCurves_Unmarshal :: "bytes \<Rightarrow> (hs_error + extension) option" where
  "SupportedEllipticCurves_Unmarshal data =
     (if length data \<le> supportedGroupsHeaderSize then Some (Inl HBufferTooSmall)
      else do {
        t \<leftarrow> u16_at data 0;
        if t \<noteq> SupportedEllipticCurvesTypeValue then Some (Inl HInvalidExtensionType)
        else do {
          l \<leftarrow> u16_at data 4;
          let groupCount = unat l div 2;
          if length data < supportedGroupsHeaderSize + groupCount * 2 then Some (Inl HLengthMismatch)
          else do {
            gs \<leftarrow> those (map (\<lambda>i. u16_at data (supportedGroupsHeaderSize + i * 2)) [0..<groupCount]);
            Some (Inr (SupportedEllipticCurves (filter (\<lambda>g. g \<in> Curves) gs))) } } })"

definition SupportedPointFormats_Unmarshal :: "bytes \<Rightarrow> (hs_error + extension) option" where
  "SupportedPointFormats_Unmarshal data =
     (if length data \<le> 5 then Some (Inl HBufferTooSmall)
      else do {
        t \<leftarrow> u16_at data 0;
        if t \<noteq> SupportedPointFormatsTypeValue then Some (Inl HInvalidExtensionType)
        else do {
          n \<leftarrow> idx data 4;
          if length data < 5 + unat n then Some (Inl HLengthMismatch)
          else do {
            ps \<leftarrow> those (map (\<lambda>i. idx data (5 + i)) [0..<unat n]);
            Some (Inr (SupportedPointFormats (filter (\<lambda>p. p = CurvePointFormatUncompressed) ps))) } } })"

definition read_sig_hash :: "bytes \<Rightarrow> nat \<Rightarrow> sig_hash option" where
  "read_sig_hash data i = do { h \<leftarrow> idx data i; s \<leftarrow> idx data (i + 1); Some (h, ucast s) }"

definition known_sig_hash :: "sig_hash \<Rightarrow> bool" where
  "known_sig_hash a \<longleftrightarrow> fst a \<in> hash_Algorithms \<and> snd a \<in> signature_Algorithms"

definition SupportedSignatureAlgorithms_Unmarshal :: "bytes \<Rightarrow> (hs_error + extension) option" where
  "SupportedSignatureAlgorithms_Unmarshal data =
     (if length data \<le> 6 then Some (Inl HBufferTooSmall)
      else do {
        t \<leftarrow> u16_at data 0;
        if t \<noteq> SupportedSignatureAlgorithmsTypeValue then Some (Inl HInvalidExtensionType)
        else do {
          l \<leftarrow> u16_at data 4;
          let algorithmCount = unat l div 2;
          if length data < 6 + algorithmCount * 2 then Some (Inl HLengthMismatch)
          else do {
            as \<leftarrow> those (map (\<lambda>i. read_sig_hash data (6 + i * 2)) [0..<algorithmCount]);
            Some (Inr (SupportedSignatureAlgorithms (filter known_sig_hash as))) } } })"

definition UseSRTP_Unmarshal :: "bytes \<Rightarrow> (hs_error + extension) option" where
  "UseSRTP_Unmarshal data =
     (if length data \<le> 6 then Some (Inl HBufferTooSmall)
      else do {
        t \<leftarrow> u16_at data 0;
        if t \<noteq> UseSRTPTypeValue then Some (Inl HInvalidExtensionType)
        else do {
          l \<leftarrow> u16_at data 4;
          let profileCount = unat l div 2;
          let mkiIndex = supportedGroupsHeaderSize + profileCount * 2;
          if length data < mkiIndex + 1 then Some (Inl HLengthMismatch)
          else do {
            ps \<leftarrow> those (map (\<lambda>i. u16_at data (6 + i * 2)) [0..<profileCount]);
            mkiLen \<leftarrow> idx data mkiIndex;
            if length data \<le> mkiIndex + unat mkiLen then Some (Inl HLengthMismatch)
            else do {
              mki \<leftarrow> sub_at data (mkiIndex + 1) (mkiIndex + 1 + unat mkiLen);
              Some (Inr (UseSRTP (filter (\<lambda>p. p \<in> srtpProtectionProfiles) ps) mki)) } } } })"

definition UseExtendedMasterSecret_Unmarshal :: "bytes \<Rightarrow> (hs_error + extension) option" where
  "UseExtendedMasterSecret_Unmarshal data =
     (if length data < 4 then Some (Inl HBufferTooSmall)
      else do {
        t \<leftarrow> u16_at data 0;
        if t \<noteq> UseExtendedMasterSecretTypeValue then Some (Inl HInvalidExtensionType)
        else Some (Inr (UseExtendedMasterSecret True)) })"

text \<open>The switch on the type; an unknown extension is passed over.\<close>

definition ext_Unmarshal :: "cryptobyte \<Rightarrow> u16 \<Rightarrow> bytes \<Rightarrow> (hs_error + extension option) option" where
  "ext_Unmarshal cb t data =
     (let known = map_option (map_sum id Some) in
      if t = ServerNameTypeValue then known (ServerName_Unmarshal cb data)
      else if t = SupportedEllipticCurvesTypeValue then known (SupportedEllipticCurves_Unmarshal data)
      else if t = SupportedPointFormatsTypeValue then known (SupportedPointFormats_Unmarshal data)
      else if t = SupportedSignatureAlgorithmsTypeValue then known (SupportedSignatureAlgorithms_Unmarshal data)
      else if t = UseSRTPTypeValue then known (UseSRTP_Unmarshal data)
      else if t = ALPNTypeValue then known (ALPN_Unmarshal cb data)
      else if t = UseExtendedMasterSecretTypeValue then known (UseExtendedMasterSecret_Unmarshal data)
      else if t = RenegotiationInfoTypeValue then known (RenegotiationInfo_Unmarshal data)
      else if t = ConnectionIDTypeValue then known (ConnectionID_Unmarshal cb data)
      else Some (Inr None))"

definition add_ext :: "extension option \<Rightarrow> extension list \<Rightarrow> extension list" where
  "add_ext eo es = (case eo of None \<Rightarrow> es | Some e \<Rightarrow> e # es)"

function exts_loop :: "cryptobyte \<Rightarrow> bytes \<Rightarrow> nat \<Rightarrow> (hs_error + extension list) option" where
  "exts_loop cb buf offset =
     (if length buf \<le> offset then Some (Inr [])
      else if length buf < offset + 2 then Some (Inl HBufferTooSmall)
      else do {
        t \<leftarrow> u16_at buf offset;
        data \<leftarrow> tail_at buf offset;
        r \<leftarrow> ext_Unmarshal cb t data;
        case r of
          Inl e \<Rightarrow> Some (Inl e)
        | Inr eo \<Rightarrow>
            if length buf < offset + 4 then Some (Inl HBufferTooSmall)
            else do {
              l \<leftarrow> u16_at buf (offset + 2);
              rs \<leftarrow> exts_loop cb buf (offset + 4 + unat l);
              Some (map_sum id (add_ext eo) rs) } })"
  by pat_completeness auto
termination by (relation "measure (\<lambda>(cb, buf, offset). length buf - offset)") auto

declare exts_loop.simps [simp del]

definition exts_Unmarshal :: "cryptobyte \<Rightarrow> bytes \<Rightarrow> (hs_error + extension list) option" where
  "exts_Unmarshal cb buf =
     (if length buf = 0 then Some (Inr [])
      else if length buf < 2 then Some (Inl HBufferTooSmall)
      else do {
        declaredLen \<leftarrow> u16_at buf 0;
        if length buf - 2 \<noteq> unat declaredLen then Some (Inl HLengthMismatch)
        else exts_loop cb buf 2 })"

definition ALPNProtocolSelection :: "bytes list \<Rightarrow> bytes list \<Rightarrow> hs_error + bytes" where
  "ALPNProtocolSelection supportedProtocols peerSupportedProtocols =
     (if supportedProtocols = [] \<or> peerSupportedProtocols = [] then Inr []
      else case find (\<lambda>s. s \<in> set peerSupportedProtocols) supportedProtocols of
        None \<Rightarrow> Inl HALPNNoAppProto
      | Some s \<Rightarrow> Inr s)"

section \<open>What the package of readers and builders does\<close>

definition cb_ok :: "cryptobyte \<Rightarrow> bool" where
  "cb_ok cb \<longleftrightarrow>
     (\<forall>b r. ReadUint8 cb (b # r) = Some (b, r)) \<and>
     (\<forall>w r. ReadUint16 cb (put_u16 w @ r) = Some (w, r)) \<and>
     (\<forall>x r. length x < 256 \<longrightarrow> ReadUint8LengthPrefixed cb (of_nat (length x) # x @ r) = Some (x, r)) \<and>
     (\<forall>x r. length x < 65536 \<longrightarrow> ReadUint16LengthPrefixed cb (put_u16 (u16_len (length x)) @ x @ r) = Some (x, r)) \<and>
     (\<forall>x. AddUint8LengthPrefixed cb x = (if length x < 256 then Some (of_nat (length x) # x) else None)) \<and>
     (\<forall>x. AddUint16LengthPrefixed cb x = (if length x < 65536 then Some (put_u16 (u16_len (length x)) @ x) else None))"

text \<open>What is left after a read is shorter.\<close>

definition cb_advances :: "cryptobyte \<Rightarrow> bool" where
  "cb_advances cb \<longleftrightarrow>
     (\<forall>s b r. ReadUint8 cb s = Some (b, r) \<longrightarrow> length r < length s) \<and>
     (\<forall>s x r. ReadUint8LengthPrefixed cb s = Some (x, r) \<longrightarrow> length r < length s) \<and>
     (\<forall>s x r. ReadUint16LengthPrefixed cb s = Some (x, r) \<longrightarrow> length r < length s)"

section \<open>No reader panics\<close>

lemma those_map_Some: "(\<And>x. x \<in> set xs \<Longrightarrow> f x \<noteq> None) \<Longrightarrow> \<exists>ys. those (map f xs) = Some ys"
  by (induction xs) (auto split: option.splits)

lemma sni_loop_total: "cb_advances cb \<Longrightarrow> length nl \<le> k \<Longrightarrow> sni_loop cb k nl name \<noteq> None"
proof (induction k arbitrary: nl name)
  case (Suc k)
  have "sni_loop cb k r' n \<noteq> None" if "ReadUint8 cb nl = Some (b, r)" "ReadUint16LengthPrefixed cb r = Some (x, r')" for b r x r' n
  proof -
    have "length r < length nl" "length r' < length r" using Suc.prems(1) that unfolding cb_advances_def by blast+
    then show ?thesis using Suc by simp
  qed
  then show ?case by (auto split: option.splits)
qed simp

lemma alpn_loop_total: "cb_advances cb \<Longrightarrow> length pl \<le> k \<Longrightarrow> alpn_loop cb k pl \<noteq> None"
proof (induction k arbitrary: pl)
  case (Suc k)
  have "alpn_loop cb k r \<noteq> None" if "ReadUint8LengthPrefixed cb pl = Some (x, r)" for x r
  proof -
    have "length r < length pl" using Suc.prems(1) that unfolding cb_advances_def by blast
    then show ?thesis using Suc by simp
  qed
  then show ?case by (auto split: option.splits)
qed simp

lemma those_u16: "a + n * 2 \<le> length data \<Longrightarrow> \<exists>ys. those (map (\<lambda>i. u16_at data (a + i * 2)) [0..<n]) = Some ys"
  by (intro those_map_Some) (auto simp: u16_at_def)

lemma those_sig_hash: "a + n * 2 \<le> length data \<Longrightarrow> \<exists>ys. those (map (\<lambda>i. read_sig_hash data (a + i * 2)) [0..<n]) = Some ys"
  by (intro those_map_Some) (auto simp: read_sig_hash_def idx_def)

lemma those_idx: "a + n \<le> length data \<Longrightarrow> \<exists>ys. those (map (\<lambda>i. idx data (a + i)) [0..<n]) = Some ys"
  by (intro those_map_Some) (auto simp: idx_def)

lemma names_total:
  assumes "cb_advances cb"
  shows "ServerName_Unmarshal cb data \<noteq> None" "ALPN_Unmarshal cb data \<noteq> None" "ConnectionID_Unmarshal cb data \<noteq> None"
  using sni_loop_total [OF assms order_refl] alpn_loop_total [OF assms order_refl]
  by (auto simp: ServerName_Unmarshal_def ALPN_Unmarshal_def ConnectionID_Unmarshal_def split: prod.splits option.splits)

lemma fixed_total: "RenegotiationInfo_Unmarshal data \<noteq> None" "UseExtendedMasterSecret_Unmarshal data \<noteq> None"
  by (auto simp: RenegotiationInfo_Unmarshal_def UseExtendedMasterSecret_Unmarshal_def u16_at_def idx_def)

lemma SupportedEllipticCurves_total: "SupportedEllipticCurves_Unmarshal data \<noteq> None"
proof (cases "length data \<le> 6")
  case False
  then show ?thesis
    using those_u16 [of 6 "unat (be16 (drop 4 data)) div 2" data]
    by (auto simp: SupportedEllipticCurves_Unmarshal_def u16_at_def [of data 0] u16_at_def [of data 4] Let_def)
qed (simp add: SupportedEllipticCurves_Unmarshal_def)

lemma SupportedPointFormats_total: "SupportedPointFormats_Unmarshal data \<noteq> None"
proof (cases "length data \<le> 5")
  case False
  then show ?thesis
    using those_idx [of 5 "unat (data ! 4)" data]
    by (auto simp: SupportedPointFormats_Unmarshal_def u16_at_def idx_def [of data 4])
qed (simp add: SupportedPointFormats_Unmarshal_def)

lemma SupportedSignatureAlgorithms_total: "SupportedSignatureAlgorithms_Unmarshal data \<noteq> None"
proof (cases "length data \<le> 6")
  case False
  then show ?thesis
    using those_sig_hash [of 6 "unat (be16 (drop 4 data)) div 2" data]
    by (auto simp: SupportedSignatureAlgorithms_Unmarshal_def u16_at_def Let_def)
qed (simp add: SupportedSignatureAlgorithms_Unmarshal_def)

lemma UseSRTP_total: "UseSRTP_Unmarshal data \<noteq> None"
proof (cases "length data \<le> 6")
  case False
  let ?n = "unat (be16 (drop 4 data)) div 2"
  show ?thesis
  proof (cases "6 + ?n * 2 + 1 \<le> length data")
    case True
    then obtain ps where "those (map (\<lambda>i. u16_at data (6 + i * 2)) [0..<?n]) = Some ps" using those_u16 [of 6 ?n data] by auto
    then show ?thesis
      using False True
      by (auto simp: UseSRTP_Unmarshal_def u16_at_def [of data 0] u16_at_def [of data 4] idx_def sub_at_def Let_def)
  qed (use False in \<open>simp add: UseSRTP_Unmarshal_def u16_at_def Let_def\<close>)
qed (simp add: UseSRTP_Unmarshal_def)

lemma ext_Unmarshal_total: "cb_advances cb \<Longrightarrow> ext_Unmarshal cb t data \<noteq> None"
  by (simp add: ext_Unmarshal_def Let_def names_total fixed_total SupportedEllipticCurves_total SupportedPointFormats_total
      SupportedSignatureAlgorithms_total UseSRTP_total del: not_None_eq)

lemma exts_loop_total:
  assumes "cb_advances cb"
  shows "exts_loop cb buf offset \<noteq> None"
proof (induction "length buf - offset" arbitrary: offset rule: less_induct)
  case less
  show ?case
  proof (cases "length buf < offset + 2")
    case False
    let ?t = "be16 (drop offset buf)" and ?data = "drop offset buf"
    obtain r where r: "ext_Unmarshal cb ?t ?data = Some r" using ext_Unmarshal_total [OF assms] by blast
    have t: "u16_at buf offset = Some ?t" "tail_at buf offset = Some ?data" using False by (simp_all add: u16_at_def tail_at_def)
    have ih: "\<exists>rs. exts_loop cb buf (offset + 4 + n) = Some rs" for n using less [of "offset + 4 + n"] False by auto
    show ?thesis
    proof (cases r)
      case (Inr eo)
      obtain rs where "exts_loop cb buf (offset + 4 + unat (be16 (drop (offset + 2) buf))) = Some rs" using ih by blast
      moreover have "\<not> length buf < offset + 4 \<Longrightarrow> u16_at buf (offset + 2) = Some (be16 (drop (offset + 2) buf))" by (simp add: u16_at_def)
      ultimately show ?thesis using Inr False r t by (subst exts_loop.simps) (simp del: add_2_eq_Suc')
    qed (use False r t in \<open>subst exts_loop.simps, simp\<close>)
  qed (simp add: exts_loop.simps)
qed

lemma exts_Unmarshal_total: "cb_advances cb \<Longrightarrow> exts_Unmarshal cb buf \<noteq> None"
  using exts_loop_total [of cb buf 2] by (auto simp: exts_Unmarshal_def u16_at_def)

section \<open>Extensions survive the wire\<close>

lemma those_nth: "(\<And>i. i < length xs \<Longrightarrow> f i = Some (xs ! i)) \<Longrightarrow> those (map f [0..<length xs]) = Some xs"
proof (induction xs arbitrary: f)
  case (Cons x xs)
  have "those (map (\<lambda>i. f (Suc i)) [0..<length xs]) = Some xs" using Cons.prems by (intro Cons.IH) force
  moreover have "map f [0..<length (x # xs)] = f 0 # map (\<lambda>i. f (Suc i)) [0..<length xs]"
    by (simp add: upt_conv_Cons map_Suc_upt [symmetric] del: upt_Suc)
  ultimately show ?case using Cons.prems [of 0] by simp
qed simp

lemma drop_concat_pairs:
  assumes "\<And>x. length (f x) = 2" "i < length xs"
  shows "drop (i * 2) (concat (map f xs)) = f (xs ! i) @ concat (map f (drop (Suc i) xs))"
  using assms(2)
proof (induction xs arbitrary: i)
  case (Cons x xs)
  then show ?case by (cases i) (simp_all add: assms(1))
qed simp

lemma length_concat_pairs: "(\<And>x. length (f x) = 2) \<Longrightarrow> length (concat (map f xs)) = length xs * 2"
  by (induction xs) simp_all

lemma drop_pairs_app:
  assumes "\<And>x. length (f x) = 2" "i < length xs"
  shows "drop (length pre + i * 2) (pre @ concat (map f xs) @ rest) = f (xs ! i) @ concat (map f (drop (Suc i) xs)) @ rest"
  using assms by (simp add: drop_concat_pairs length_concat_pairs)

lemma u16_list_read:
  "those (map (\<lambda>i. u16_at (pre @ concat (map put_u16 xs) @ rest) (length pre + i * 2)) [0..<length xs]) = Some xs"
proof (rule those_nth)
  fix i
  assume i: "i < length xs"
  have "length pre + i * 2 + 2 \<le> length (pre @ concat (map put_u16 xs) @ rest)" using i by (simp add: length_concat_pairs)
  then show "u16_at (pre @ concat (map put_u16 xs) @ rest) (length pre + i * 2) = Some (xs ! i)"
    using drop_pairs_app [of put_u16 i xs pre rest] i by (simp add: u16_at_def)
qed

lemma idx_drop: "idx d (n + k) = idx (drop n d) k"
  by (cases "n \<le> length d") (auto simp: idx_def)

lemma idx_app: "idx (pre @ x # rest) (length pre) = Some x"
  by (simp add: idx_def)

lemma sig_hash_list_read:
  assumes "\<forall>a \<in> set xs. known_sig_hash a"
  shows "those (map (\<lambda>i. read_sig_hash (pre @ concat (map (\<lambda>(h, s). [h, ucast s]) xs) @ rest) (length pre + i * 2)) [0..<length xs]) = Some xs"
proof (rule those_nth)
  fix i
  let ?f = "\<lambda>(h :: byte, s :: u16). [h, ucast s :: byte]" and ?d = "pre @ concat (map (\<lambda>(h, s). [h, ucast s]) xs) @ rest"
  assume i: "i < length xs"
  obtain h s where hs: "xs ! i = (h, s)" by force
  have "(h, s) \<in> set xs" using nth_mem [OF i] hs by simp
  then have "s \<in> {0, 1, 3, 7}" using assms by (auto simp: known_sig_hash_def signature_Algorithms_def)
  then have s: "ucast (ucast s :: byte) = s" by auto
  have two: "length (?f x) = 2" for x by (cases x) simp
  define n where "n = length pre + i * 2"
  obtain r where r: "drop n ?d = h # ucast s # r"
    using drop_pairs_app [of ?f i xs pre rest, OF two i] hs unfolding n_def by simp
  then have "idx ?d (n + 0) = Some h" "idx ?d (n + 1) = Some (ucast s)" unfolding idx_drop r by (simp_all add: idx_def)
  then show "read_sig_hash ?d (length pre + i * 2) = Some (xs ! i)" using hs s by (simp add: read_sig_hash_def n_def)
qed

text \<open>An extension that can be read back, and what it is on the wire: its type, the length and the body \<open>d\<close>.\<close>

fun ext_ok :: "extension \<Rightarrow> bool" where
  "ext_ok (ServerName n) \<longleftrightarrow> n \<noteq> [] \<and> length n < 65531 \<and> last n \<noteq> 46"
| "ext_ok (SupportedEllipticCurves cs) \<longleftrightarrow> cs \<noteq> [] \<and> set cs \<subseteq> Curves \<and> length cs < 32767"
| "ext_ok (SupportedPointFormats ps) \<longleftrightarrow> ps \<noteq> [] \<and> set ps \<subseteq> {CurvePointFormatUncompressed} \<and> length ps < 256"
| "ext_ok (SupportedSignatureAlgorithms as) \<longleftrightarrow> as \<noteq> [] \<and> (\<forall>a \<in> set as. known_sig_hash a) \<and> length as < 32767"
| "ext_ok (UseSRTP ps mki) \<longleftrightarrow> set ps \<subseteq> srtpProtectionProfiles \<and> length mki < 256 \<and> length ps < 32000"
| "ext_ok (ALPN ps) \<longleftrightarrow> ps \<noteq> [] \<and> (\<forall>p \<in> set ps. p \<noteq> [] \<and> length p < 256) \<and> length ps + length (concat ps) < 65534"
| "ext_ok (UseExtendedMasterSecret b) \<longleftrightarrow> b"
| "ext_ok (RenegotiationInfo c) \<longleftrightarrow> True"
| "ext_ok (ConnectionID cid) \<longleftrightarrow> length cid < 256"

definition ext_wire :: "extension \<Rightarrow> bytes \<Rightarrow> bytes" where
  "ext_wire e d = put_u16 (TypeValue e) @ put_u16 (u16_len (length d)) @ d"

definition ext_carried :: "cryptobyte \<Rightarrow> extension \<Rightarrow> bytes \<Rightarrow> bool" where
  "ext_carried cb e d \<longleftrightarrow> ext_Marshal cb e = Inr (ext_wire e d) \<and> length d < 65536 \<and>
     (\<forall>rest. ext_Unmarshal cb (TypeValue e) (ext_wire e d @ rest) = Some (Inr (Some e)))"

lemma u16_at_wire: "u16_at (put_u16 a @ r) 0 = Some a" "u16_at (put_u16 a @ put_u16 b @ put_u16 c @ r) 4 = Some c"
  "u16_at (put_u16 a @ put_u16 b @ r) 2 = Some b"
  by (simp_all add: u16_at_def)

lemma filter_subset: "set xs \<subseteq> A \<Longrightarrow> filter (\<lambda>x. x \<in> A) xs = xs"
  by (auto intro: filter_True)

lemma carried_curves:
  assumes "ext_ok (SupportedEllipticCurves cs)"
  shows "ext_carried cb (SupportedEllipticCurves cs) (put_u16 (u16_len (length cs * 2)) @ concat (map put_u16 cs))"
proof -
  let ?t = SupportedEllipticCurvesTypeValue and ?n = "length cs * 2"
  let ?pre = "put_u16 ?t @ put_u16 (u16_len (2 + ?n)) @ put_u16 (u16_len ?n)"
  have un: "unat (u16_len ?n) div 2 = length cs" using assms by simp
  have r: "SupportedEllipticCurves_Unmarshal (?pre @ concat (map put_u16 cs) @ rest) = Some (Inr (SupportedEllipticCurves cs))" for rest
    using u16_list_read [of ?pre cs rest] assms
    by (simp add: SupportedEllipticCurves_Unmarshal_def u16_at_wire un length_concat_pairs filter_subset Let_def)
  show ?thesis using r assms
    by (simp add: ext_carried_def ext_wire_def length_concat_pairs ext_Unmarshal_def)
qed

lemma carried_formats:
  assumes "ext_ok (SupportedPointFormats ps)"
  shows "ext_carried cb (SupportedPointFormats ps) (of_nat (length ps) # ps)"
proof -
  let ?pre = "put_u16 SupportedPointFormatsTypeValue @ put_u16 (u16_len (1 + length ps)) @ [of_nat (length ps) :: byte]"
  have un: "unat (of_nat (length ps) :: byte) = length ps" using assms by (simp add: unat_of_nat)
  have "those (map (\<lambda>i. idx (?pre @ ps @ rest) (5 + i)) [0..<length ps]) = Some ps" for rest
  proof (rule those_nth)
    fix i assume "i < length ps"
    then have "idx (?pre @ ps @ rest) (length ?pre + i) = Some (ps ! i)" unfolding idx_drop by (simp add: idx_def nth_append)
    then show "idx (?pre @ ps @ rest) (5 + i) = Some (ps ! i)" by simp
  qed
  moreover have "idx (?pre @ ps @ rest) 4 = Some (of_nat (length ps))" for rest by (simp add: idx_def nth_append)
  moreover have "filter (\<lambda>p. p = CurvePointFormatUncompressed) ps = ps" using assms by (auto intro: filter_True)
  ultimately have "SupportedPointFormats_Unmarshal (?pre @ ps @ rest) = Some (Inr (SupportedPointFormats ps))" for rest
    using assms by (simp add: SupportedPointFormats_Unmarshal_def u16_at_wire un)
  then show ?thesis using assms by (simp add: ext_carried_def ext_wire_def ext_Unmarshal_def)
qed

lemma carried_sig_algs:
  assumes "ext_ok (SupportedSignatureAlgorithms as)"
  shows "ext_carried cb (SupportedSignatureAlgorithms as) (put_u16 (u16_len (length as * 2)) @ concat (map (\<lambda>(h, s). [h, ucast s]) as))"
proof -
  let ?n = "length as * 2" and ?f = "\<lambda>(h :: byte, s :: u16). [h, ucast s :: byte]"
  let ?pre = "put_u16 SupportedSignatureAlgorithmsTypeValue @ put_u16 (u16_len (2 + ?n)) @ put_u16 (u16_len ?n)"
  have un: "unat (u16_len ?n) div 2 = length as" using assms by simp
  have len: "length (concat (map ?f as)) = ?n" by (rule length_concat_pairs) (simp add: split_beta)
  have "filter known_sig_hash as = as" using assms by (auto intro: filter_True)
  then have "SupportedSignatureAlgorithms_Unmarshal (?pre @ concat (map ?f as) @ rest) = Some (Inr (SupportedSignatureAlgorithms as))" for rest
    using sig_hash_list_read [of as ?pre rest] assms len
    by (simp add: SupportedSignatureAlgorithms_Unmarshal_def u16_at_wire un Let_def)
  then show ?thesis using assms len by (simp add: ext_carried_def ext_wire_def ext_Unmarshal_def)
qed

lemma carried_srtp:
  assumes "ext_ok (UseSRTP ps mki)"
  shows "ext_carried cb (UseSRTP ps mki) (put_u16 (u16_len (length ps * 2)) @ concat (map put_u16 ps) @ of_nat (length mki) # mki)"
proof -
  let ?n = "length ps * 2"
  let ?pre = "put_u16 UseSRTPTypeValue @ put_u16 (u16_len (2 + ?n + 1 + length mki)) @ put_u16 (u16_len ?n)"
  let ?d = "\<lambda>rest. ?pre @ concat (map put_u16 ps) @ (of_nat (length mki) :: byte) # mki @ rest"
  have un: "unat (u16_len ?n) div 2 = length ps" and um: "unat (of_nat (length mki) :: byte) = length mki"
    using assms by (simp_all add: unat_of_nat)
  have len: "length (concat (map put_u16 ps)) = ?n" by (simp add: length_concat_pairs)
  have l: "length (?pre @ concat (map put_u16 ps)) = 6 + ?n" using len by simp
  have "idx (?d rest) (6 + ?n) = Some (of_nat (length mki))" for rest
    using idx_app [of "?pre @ concat (map put_u16 ps)" "of_nat (length mki)" "mki @ rest"] unfolding l by (simp only: append_assoc)
  moreover have "sub_at (?d rest) (6 + ?n + 1) (6 + ?n + 1 + length mki) = Some mki" for rest
    using len by (simp add: sub_at_def)
  moreover have "filter (\<lambda>p. p \<in> srtpProtectionProfiles) ps = ps" using assms by (simp add: filter_subset)
  ultimately have "UseSRTP_Unmarshal (?d rest) = Some (Inr (UseSRTP ps mki))" for rest
    using u16_list_read [of ?pre ps "of_nat (length mki) # mki @ rest"] len
    by (simp add: UseSRTP_Unmarshal_def u16_at_wire un um Let_def)
  then show ?thesis using assms len by (simp add: ext_carried_def ext_wire_def ext_Unmarshal_def)
qed

lemma carried_fixed: "ext_carried cb (UseExtendedMasterSecret True) []" "ext_carried cb (RenegotiationInfo c) [c]"
  by (simp_all add: ext_carried_def ext_wire_def ext_Unmarshal_def UseExtendedMasterSecret_Unmarshal_def u16_at_def
      RenegotiationInfo_Unmarshal_def idx_def nth_append u16_len_def)

lemma cb_reads:
  assumes "cb_ok cb"
  shows "ReadUint8 cb (b # r) = Some (b, r)" "ReadUint16 cb (put_u16 w @ r) = Some (w, r)"
    "length x < 256 \<Longrightarrow> ReadUint8LengthPrefixed cb (of_nat (length x) # x @ r) = Some (x, r)"
    "length x < 65536 \<Longrightarrow> ReadUint16LengthPrefixed cb (put_u16 (u16_len (length x)) @ x @ r) = Some (x, r)"
    "AddUint8LengthPrefixed cb x = (if length x < 256 then Some (of_nat (length x) # x) else None)"
    "AddUint16LengthPrefixed cb x = (if length x < 65536 then Some (put_u16 (u16_len (length x)) @ x) else None)"
  using assms unfolding cb_ok_def by blast+

lemma ext_read_wire:
  assumes "cb_ok cb" "length d < 65536"
  shows "read_type cb (put_u16 t @ r) = (t, r)" "read_data cb (put_u16 (u16_len (length d)) @ d @ r) = d"
  using cb_reads [OF assms(1)] assms(2) by (simp_all add: read_type_def read_data_def)

lemma carried_cid:
  assumes "cb_ok cb" "ext_ok (ConnectionID cid)"
  shows "ext_carried cb (ConnectionID cid) (of_nat (length cid) # cid)"
proof -
  note cb = cb_reads [OF assms(1)]
  have l: "length cid < 256" using assms(2) by simp
  let ?d = "of_nat (length cid) # cid :: bytes"
  have "ConnectionID_Unmarshal cb (ext_wire (ConnectionID cid) ?d @ rest) = Some (Inr (ConnectionID cid))" for rest
    using cb(3) [OF l, of "[]"] l ext_read_wire [OF assms(1), of ?d]
    by (simp add: ConnectionID_Unmarshal_def ext_wire_def)
  moreover have "ext_Marshal cb (ConnectionID cid) = Inr (ext_wire (ConnectionID cid) ?d)"
    using l by (simp add: builder_def cb(5,6) ext_wire_def)
  ultimately show ?thesis using l by (simp add: ext_carried_def ext_Unmarshal_def)
qed

lemma carried_sni:
  assumes "cb_ok cb" "ext_ok (ServerName n)"
  shows "ext_carried cb (ServerName n) (put_u16 (u16_len (length n + 3)) @ 0 # put_u16 (u16_len (length n)) @ n)"
proof -
  note cb = cb_reads [OF assms(1)]
  let ?l = "0 # put_u16 (u16_len (length n)) @ n :: bytes"
  let ?d = "put_u16 (u16_len (length ?l)) @ ?l"
  have n: "n \<noteq> []" "length n < 65531" "last n \<noteq> 46" using assms(2) by simp_all
  have "sni_loop cb (length ?l) ?l [] = Some (Inr n)"
    using n cb(4) [of n "[]"] by (cases "length n") (simp_all add: cb(1))
  moreover have "ReadUint16LengthPrefixed cb ?d = Some (?l, [])" using n cb(4) [of ?l "[]"] by simp
  ultimately have "ServerName_Unmarshal cb (ext_wire (ServerName n) ?d @ rest) = Some (Inr (ServerName n))" for rest
    using n ext_read_wire [OF assms(1), of ?d] by (simp add: ServerName_Unmarshal_def ext_wire_def del: sni_loop.simps)
  moreover have "ext_Marshal cb (ServerName n) = Inr (ext_wire (ServerName n) ?d)"
    using n by (simp add: builder_def cb(6) ext_wire_def)
  ultimately have "ext_carried cb (ServerName n) ?d" using n by (simp add: ext_carried_def ext_Unmarshal_def)
  then show ?thesis by (simp add: eval_nat_numeral)
qed

definition prefixed :: "bytes \<Rightarrow> bytes" where
  "prefixed p = of_nat (length p) # p"

lemma length_prefixed: "length (concat (map prefixed ps)) = length ps + length (concat ps)"
  by (induction ps) (simp_all add: prefixed_def)

lemma alpn_loop_read:
  assumes "cb_ok cb"
  shows "\<forall>p \<in> set ps. p \<noteq> [] \<and> length p < 256 \<Longrightarrow> length ps \<le> k \<Longrightarrow> alpn_loop cb k (concat (map prefixed ps)) = Some (Inr ps)"
proof (induction ps arbitrary: k)
  case Nil
  then show ?case by (cases k) simp_all
next
  case (Cons p ps)
  then obtain k' where "k = Suc k'" "length ps \<le> k'" by (cases k) auto
  then show ?case using Cons cb_reads(3) [OF assms, of p "concat (map prefixed ps)"] by (simp add: prefixed_def [of p])
qed

lemma carried_alpn:
  assumes "cb_ok cb" "ext_ok (ALPN ps)"
  shows "ext_carried cb (ALPN ps) (put_u16 (u16_len (length ps + length (concat ps))) @ concat (map prefixed ps))"
proof -
  note cb = cb_reads [OF assms(1)]
  let ?l = "concat (map prefixed ps)"
  let ?d = "put_u16 (u16_len (length ?l)) @ ?l"
  have ps: "ps \<noteq> []" "\<forall>p \<in> set ps. p \<noteq> [] \<and> length p < 256" "length ps + length (concat ps) < 65534" using assms(2) by simp_all
  have ne: "?l \<noteq> []" using ps(1) by (cases ps) (simp_all add: prefixed_def)
  have "those (map (AddUint8LengthPrefixed cb) qs) = Some (map prefixed qs)" if "\<forall>p \<in> set qs. length p < 256" for qs
    using that by (induction qs) (simp_all add: cb(5) prefixed_def)
  then have "ext_Marshal cb (ALPN ps) = Inr (ext_wire (ALPN ps) ?d)"
    using ps length_prefixed [of ps] by (simp add: builder_def cb(6) ext_wire_def)
  moreover have "ALPN_Unmarshal cb (ext_wire (ALPN ps) ?d @ rest) = Some (Inr (ALPN ps))" for rest
    using ne ps length_prefixed [of ps] cb(4) [of ?l "[]"] ext_read_wire [OF assms(1), of ?d] alpn_loop_read [OF assms(1) ps(2), of "length ?l"]
    by (simp add: ALPN_Unmarshal_def ext_wire_def)
  ultimately have "ext_carried cb (ALPN ps) ?d" using ps length_prefixed [of ps] by (simp add: ext_carried_def ext_Unmarshal_def)
  then show ?thesis by (simp add: length_prefixed)
qed

lemma carried: "cb_ok cb \<Longrightarrow> ext_ok e \<Longrightarrow> \<exists>d. ext_carried cb e d"
proof (cases e)
  case (UseExtendedMasterSecret b)
  then show "ext_ok e \<Longrightarrow> ?thesis" using carried_fixed(1) by auto
qed (use carried_sni carried_curves carried_formats carried_sig_algs carried_srtp carried_alpn carried_fixed(2) carried_cid in blast)+

lemma exts_loop_read:
  assumes "cb_ok cb"
  shows "\<forall>e \<in> set es. ext_ok e \<Longrightarrow> 2 \<le> length pre \<Longrightarrow>
    \<exists>raw. exts_concat cb es = Inr raw \<and> exts_loop cb (pre @ raw) (length pre) = Some (Inr es)"
proof (induction es arbitrary: pre)
  case Nil
  then show ?case by (simp add: exts_loop.simps)
next
  case (Cons e es)
  obtain d where d: "ext_carried cb e d" using carried [OF assms] Cons.prems by auto
  then have m: "ext_Marshal cb e = Inr (ext_wire e d)" "length d < 65536"
    and u: "\<And>rest. ext_Unmarshal cb (TypeValue e) (ext_wire e d @ rest) = Some (Inr (Some e))" by (simp_all add: ext_carried_def)
  obtain raw where raw: "exts_concat cb es = Inr raw" "exts_loop cb ((pre @ ext_wire e d) @ raw) (length (pre @ ext_wire e d)) = Some (Inr es)"
    using Cons.IH [of "pre @ ext_wire e d"] Cons.prems by auto
  let ?buf = "pre @ ext_wire e d @ raw"
  have at: "u16_at ?buf (length pre) = Some (TypeValue e)" "tail_at ?buf (length pre) = Some (ext_wire e d @ raw)"
    "u16_at ?buf (length pre + 2) = Some (u16_len (length d))" "length pre + 4 \<le> length ?buf"
    by (simp_all add: u16_at_def tail_at_def ext_wire_def)
  have nxt: "length pre + 4 + unat (u16_len (length d)) = length (pre @ ext_wire e d)" using m(2) by (simp add: ext_wire_def)
  have "exts_loop cb ?buf (length pre) = Some (Inr (e # es))"
    using at u [of raw] raw(2) unfolding nxt [symmetric]
    by (subst exts_loop.simps) (auto simp: add_ext_def simp del: add_2_eq_Suc')
  then show ?case using m(1) raw(1) by simp
qed

text \<open>What is written for extensions that are in order is read back to the same list.\<close>

lemma exts_roundtrip:
  assumes "cb_ok cb" "\<forall>e \<in> set es. ext_ok e"
  shows "\<exists>raw. exts_concat cb es = Inr raw \<and> (length raw < 65536 \<longrightarrow>
    exts_Marshal cb es = Inr (put_u16 (u16_len (length raw)) @ raw) \<and> exts_Unmarshal cb (put_u16 (u16_len (length raw)) @ raw) = Some (Inr es))"
proof -
  obtain raw0 where raw0: "exts_concat cb es = Inr raw0" using exts_loop_read [OF assms, of "[0, 0]"] by auto
  let ?pre = "put_u16 (u16_len (length raw0))"
  have "exts_loop cb (?pre @ raw0) 2 = Some (Inr es)" using exts_loop_read [OF assms, of ?pre] raw0 by simp
  then show ?thesis using raw0 by (simp add: exts_Marshal_def exts_Unmarshal_def u16_at_def)
qed

text \<open>An instance of the package.\<close>

definition plain_cb :: cryptobyte where
  "plain_cb = \<lparr>ReadUint8 = \<lambda>s. case s of [] \<Rightarrow> None | b # r \<Rightarrow> Some (b, r),
     ReadUint16 = \<lambda>s. if length s < 2 then None else Some (be16 s, drop 2 s),
     ReadUint8LengthPrefixed = \<lambda>s. case s of [] \<Rightarrow> None
       | b # r \<Rightarrow> if length r < unat b then None else Some (take (unat b) r, drop (unat b) r),
     ReadUint16LengthPrefixed = \<lambda>s. if length s < 2 then None
       else let n = unat (be16 s); r = drop 2 s in if length r < n then None else Some (take n r, drop n r),
     AddUint8LengthPrefixed = \<lambda>x. if length x < 256 then Some (of_nat (length x) # x) else None,
     AddUint16LengthPrefixed = \<lambda>x. if length x < 65536 then Some (put_u16 (u16_len (length x)) @ x) else None\<rparr>"

lemma plain_cb_ok: "cb_ok plain_cb" "cb_advances plain_cb"
proof -
  have "unat (of_nat (length (x :: bytes)) :: byte) = length x" if "length x < 256" for x using that by (simp add: unat_of_nat)
  then show "cb_ok plain_cb" by (simp add: cb_ok_def plain_cb_def Let_def)
  show "cb_advances plain_cb" by (auto simp: cb_advances_def plain_cb_def Let_def split: list.splits if_splits)
qed

end
