(* ===== verification/Dtls_Hello.thy ===== *)
theory Dtls_Hello
  imports Dtls_Ext
begin

text \<open>
  The messages of the DTLS handshake (\<^verbatim>\<open>golib/replace/dtls/pkg/protocol/handshake\<close>): how each is
  written and read, and the switch on the type. In the readers \<open>None\<close> is a panic.

  The lemmas: every message that is in order survives the wire, and the readers panic exactly for
  two messages of the key exchanges with a pre-shared key.
\<close>

section \<open>Parts of messages\<close>

text \<open>
  A loop that stops at the first error and collects what is accepted: each step panics, fails, or
  gives an element or none.
\<close>

fun collect :: "('i \<Rightarrow> (hs_error + 'a option) option) \<Rightarrow> 'i list \<Rightarrow> (hs_error + 'a list) option" where
  "collect f [] = Some (Inr [])"
| "collect f (i # is) = do {
     r \<leftarrow> f i;
     case r of
       Inl e \<Rightarrow> Some (Inl e)
     | Inr xo \<Rightarrow> do {
         rs \<leftarrow> collect f is;
         Some (map_sum id (\<lambda>xs. case xo of None \<Rightarrow> xs | Some x \<Rightarrow> x # xs) rs) } }"

text \<open>\<^verbatim>\<open>Random\<close>: the time in seconds and 28 bytes.\<close>

record hs_random =
  rnd_GMTUnixTime :: int
  rnd_RandomBytes :: bytes

definition RandomBytesLength :: nat where "RandomBytesLength = 28"
definition RandomLength :: nat where "RandomLength = RandomBytesLength + 4"

definition MarshalFixed :: "hs_random \<Rightarrow> bytes" where
  "MarshalFixed r = put_u32 (word_of_int (rnd_GMTUnixTime r)) @ take RandomBytesLength (rnd_RandomBytes r)"

definition UnmarshalFixed :: "bytes \<Rightarrow> hs_random" where
  "UnmarshalFixed data = \<lparr>rnd_GMTUnixTime = uint (be32 data), rnd_RandomBytes = drop 4 data\<rparr>"

definition decodeCipherSuiteIDs :: "bytes \<Rightarrow> (hs_error + u16 list) option" where
  "decodeCipherSuiteIDs buf =
     (if length buf < 2 then Some (Inl HBufferTooSmall)
      else do {
        l \<leftarrow> u16_at buf 0;
        collect (\<lambda>i. if length buf < i * 2 + 4 then Some (Inl HBufferTooSmall)
                     else do { x \<leftarrow> u16_at buf (i * 2 + 2); Some (Inr (Some x)) }) [0..<unat l div 2] })"

definition encodeCipherSuiteIDs :: "u16 list \<Rightarrow> bytes" where
  "encodeCipherSuiteIDs ids = put_u16 (u16_len (length ids * 2)) @ concat (map put_u16 ids)"

text \<open>The only compression method is none at all.\<close>

definition CompressionMethods :: "byte set" where "CompressionMethods = {0}"

definition DecodeCompressionMethods :: "bytes \<Rightarrow> (hs_error + byte list) option" where
  "DecodeCompressionMethods buf =
     (if length buf < 1 then Some (Inl HBufferTooSmall)
      else do {
        n \<leftarrow> idx buf 0;
        collect (\<lambda>i. if length buf \<le> i + 1 then Some (Inl HBufferTooSmall)
                     else do { x \<leftarrow> idx buf (i + 1); Some (Inr (if x \<in> CompressionMethods then Some x else None)) }) [0..<unat n] })"

definition EncodeCompressionMethods :: "byte list \<Rightarrow> bytes" where
  "EncodeCompressionMethods c = of_nat (length c) # rev c"

section \<open>Hello messages\<close>

record client_hello =
  ch_Major :: byte
  ch_Minor :: byte
  ch_Random :: hs_random
  ch_Cookie :: bytes
  ch_SessionID :: bytes
  ch_CipherSuiteIDs :: "u16 list"
  ch_CompressionMethods :: "byte list"
  ch_Extensions :: "extension list"

definition ClientHello_Marshal :: "cryptobyte \<Rightarrow> client_hello \<Rightarrow> hs_error + bytes" where
  "ClientHello_Marshal cb m =
     (if 255 < length (ch_Cookie m) then Inl HCookieTooLong
      else let out = [ch_Major m, ch_Minor m] @ MarshalFixed (ch_Random m) @
             of_nat (length (ch_SessionID m)) # ch_SessionID m @ of_nat (length (ch_Cookie m)) # ch_Cookie m @
             encodeCipherSuiteIDs (ch_CipherSuiteIDs m) @ EncodeCompressionMethods (ch_CompressionMethods m)
           in case exts_Marshal cb (ch_Extensions m) of Inl e \<Rightarrow> Inl e | Inr es \<Rightarrow> Inr (out @ es))"

text \<open>A byte with a length and as many bytes behind it, as the hello messages have them: one more byte must follow.\<close>

definition vector8 :: "bytes \<Rightarrow> nat \<Rightarrow> (hs_error + bytes) option" where
  "vector8 data currOffset =
     (if length data \<le> currOffset + 1 then Some (Inl HBufferTooSmall)
      else do {
        n \<leftarrow> idx data currOffset;
        if length data \<le> currOffset + 1 + unat n then Some (Inl HBufferTooSmall)
        else map_option Inr (sub_at data (currOffset + 1) (currOffset + 1 + unat n)) })"

definition ClientHello_Unmarshal :: "cryptobyte \<Rightarrow> bytes \<Rightarrow> (hs_error + client_hello) option" where
  "ClientHello_Unmarshal cb data =
     (if length data < 2 + RandomLength then Some (Inl HBufferTooSmall)
      else do {
        major \<leftarrow> idx data 0;
        minor \<leftarrow> idx data 1;
        let random = UnmarshalFixed (take RandomLength (drop 2 data));
        sid \<leftarrow> vector8 data 34;
        case sid of Inl e \<Rightarrow> Some (Inl e) | Inr sessionID \<Rightarrow> do {
          let off1 = 35 + length sessionID;
          ck \<leftarrow> vector8 data off1;
          case ck of Inl e \<Rightarrow> Some (Inl e) | Inr cookie \<Rightarrow> do {
            let off2 = off1 + 1 + length cookie;
            if length data < off2 then Some (Inl HBufferTooSmall)
            else do {
              d2 \<leftarrow> tail_at data off2;
              cs \<leftarrow> decodeCipherSuiteIDs d2;
              case cs of Inl e \<Rightarrow> Some (Inl e) | Inr cipherSuiteIDs \<Rightarrow>
                if length data < off2 + 2 then Some (Inl HBufferTooSmall)
                else do {
                  l \<leftarrow> u16_at data off2;
                  let off3 = off2 + unat l + 2;
                  if length data < off3 then Some (Inl HBufferTooSmall)
                  else do {
                    d3 \<leftarrow> tail_at data off3;
                    cm \<leftarrow> DecodeCompressionMethods d3;
                    case cm of Inl e \<Rightarrow> Some (Inl e) | Inr compressionMethods \<Rightarrow>
                      if length data < off3 then Some (Inl HBufferTooSmall)
                      else do {
                        n \<leftarrow> idx data off3;
                        d4 \<leftarrow> tail_at data (off3 + unat n + 1);
                        es \<leftarrow> exts_Unmarshal cb d4;
                        case es of Inl e \<Rightarrow> Some (Inl e) | Inr extensions \<Rightarrow>
                          Some (Inr \<lparr>ch_Major = major, ch_Minor = minor, ch_Random = random, ch_Cookie = cookie,
                            ch_SessionID = sessionID, ch_CipherSuiteIDs = cipherSuiteIDs,
                            ch_CompressionMethods = compressionMethods, ch_Extensions = extensions\<rparr>) } } } } } } })"

record server_hello =
  sh_Major :: byte
  sh_Minor :: byte
  sh_Random :: hs_random
  sh_SessionID :: bytes
  sh_CipherSuiteID :: "u16 option"
  sh_CompressionMethod :: "byte option"
  sh_Extensions :: "extension list"

definition ServerHello_Marshal :: "cryptobyte \<Rightarrow> server_hello \<Rightarrow> hs_error + bytes" where
  "ServerHello_Marshal cb m =
     (case sh_CipherSuiteID m of
        None \<Rightarrow> Inl HCipherSuiteUnset
      | Some cs \<Rightarrow>
          (case sh_CompressionMethod m of
             None \<Rightarrow> Inl HCompressionMethodUnset
           | Some cm \<Rightarrow>
               let out = [sh_Major m, sh_Minor m] @ MarshalFixed (sh_Random m) @ of_nat (length (sh_SessionID m)) # sh_SessionID m @
                 put_u16 cs @ [cm]
               in case exts_Marshal cb (sh_Extensions m) of Inl e \<Rightarrow> Inl e | Inr es \<Rightarrow> Inr (out @ es)))"

definition ServerHello_Unmarshal :: "cryptobyte \<Rightarrow> bytes \<Rightarrow> (hs_error + server_hello) option" where
  "ServerHello_Unmarshal cb data =
     (if length data < 2 + RandomLength then Some (Inl HBufferTooSmall)
      else do {
        major \<leftarrow> idx data 0;
        minor \<leftarrow> idx data 1;
        let random = UnmarshalFixed (take RandomLength (drop 2 data));
        sid \<leftarrow> vector8 data 34;
        case sid of Inl e \<Rightarrow> Some (Inl e) | Inr sessionID \<Rightarrow> do {
          let off1 = 35 + length sessionID;
          if length data < off1 + 2 then Some (Inl HBufferTooSmall)
          else do {
            cs \<leftarrow> u16_at data off1;
            if length data \<le> off1 + 2 then Some (Inl HBufferTooSmall)
            else do {
              cm \<leftarrow> idx data (off1 + 2);
              if cm \<notin> CompressionMethods then Some (Inl HInvalidCompressionMethod)
              else do {
                let m = \<lparr>sh_Major = major, sh_Minor = minor, sh_Random = random, sh_SessionID = sessionID,
                  sh_CipherSuiteID = Some cs, sh_CompressionMethod = Some cm, sh_Extensions = []\<rparr>;
                if length data \<le> off1 + 3 then Some (Inr m)
                else do {
                  d \<leftarrow> tail_at data (off1 + 3);
                  es \<leftarrow> exts_Unmarshal cb d;
                  case es of Inl e \<Rightarrow> Some (Inl e) | Inr extensions \<Rightarrow> Some (Inr (m\<lparr>sh_Extensions := extensions\<rparr>)) } } } } } })"

section \<open>The other messages\<close>

text \<open>\<^verbatim>\<open>HelloVerifyRequest\<close>: a version and a cookie.\<close>

record verify_request =
  vr_Major :: byte
  vr_Minor :: byte
  vr_Cookie :: bytes

definition HelloVerifyRequest_Marshal :: "verify_request \<Rightarrow> hs_error + bytes" where
  "HelloVerifyRequest_Marshal m =
     (if 255 < length (vr_Cookie m) then Inl HCookieTooLong
      else Inr ([vr_Major m, vr_Minor m, of_nat (length (vr_Cookie m))] @ vr_Cookie m))"

definition HelloVerifyRequest_Unmarshal :: "bytes \<Rightarrow> (hs_error + verify_request) option" where
  "HelloVerifyRequest_Unmarshal data =
     (if length data < 3 then Some (Inl HBufferTooSmall)
      else do {
        major \<leftarrow> idx data 0;
        minor \<leftarrow> idx data 1;
        n \<leftarrow> idx data 2;
        if length data < unat n + 3 then Some (Inl HBufferTooSmall)
        else do {
          c \<leftarrow> sub_at data 3 (3 + unat n);
          Some (Inr \<lparr>vr_Major = major, vr_Minor = minor, vr_Cookie = c\<rparr>) } })"

text \<open>A chain of certificates.\<close>

definition Certificate_Marshal :: "bytes list \<Rightarrow> bytes" where
  "Certificate_Marshal cs =
     (let body = concat (map (\<lambda>r. put_u24 (of_nat (length r)) @ r) cs) in put_u24 (of_nat (length body)) @ body)"

function cert_loop :: "bytes \<Rightarrow> nat \<Rightarrow> (hs_error + bytes list) option" where
  "cert_loop data offset =
     (if length data \<le> offset then Some (Inr [])
      else do {
        d \<leftarrow> tail_at data offset;
        let certificateLen = unat (be24 d);
        let offset' = offset + 3;
        if length data < offset' + certificateLen then Some (Inl HLengthMismatch)
        else do {
          c \<leftarrow> sub_at data offset' (offset' + certificateLen);
          rs \<leftarrow> cert_loop data (offset' + certificateLen);
          Some (map_sum id ((#) c) rs) } })"
  by pat_completeness auto
termination by (relation "measure (\<lambda>(data, offset). length data - offset)") auto

declare cert_loop.simps [simp del]

definition Certificate_Unmarshal :: "bytes \<Rightarrow> (hs_error + bytes list) option" where
  "Certificate_Unmarshal data =
     (if length data < 3 then Some (Inl HBufferTooSmall)
      else if unat (be24 data) + 3 \<noteq> length data then Some (Inl HLengthMismatch)
      else cert_loop data 3)"

text \<open>\<^verbatim>\<open>CertificateRequest\<close>.\<close>

record cert_request =
  cr_CertificateTypes :: "byte list"
  cr_SignatureHashAlgorithms :: "sig_hash list"
  cr_CertificateAuthoritiesNames :: "bytes list"

definition clientcertificate_Types :: "byte set" where "clientcertificate_Types = {1, 64}"

definition CertificateRequest_Marshal :: "cert_request \<Rightarrow> bytes" where
  "CertificateRequest_Marshal m =
     (let casLength = sum_list (map (\<lambda>ca. length ca + 2) (cr_CertificateAuthoritiesNames m)) in
      of_nat (length (cr_CertificateTypes m)) # cr_CertificateTypes m @
      put_u16 (u16_len (length (cr_SignatureHashAlgorithms m) * 2)) @ concat (map (\<lambda>(h, s). [h, ucast s]) (cr_SignatureHashAlgorithms m)) @
      put_u16 (u16_len casLength) @
      (if 0 < casLength then concat (map (\<lambda>ca. put_u16 (u16_len (length ca)) @ ca) (cr_CertificateAuthoritiesNames m)) else []))"

function cas_loop :: "bytes \<Rightarrow> (hs_error + bytes list) option" where
  "cas_loop cas =
     (if cas = [] then Some (Inr [])
      else if length cas < 2 then Some (Inl HBufferTooSmall)
      else do {
        caLen \<leftarrow> u16_at cas 0;
        let cas' = drop 2 cas;
        if length cas' < unat caLen then Some (Inl HBufferTooSmall)
        else do {
          rs \<leftarrow> cas_loop (drop (unat caLen) cas');
          Some (map_sum id ((#) (take (unat caLen) cas')) rs) } })"
  by pat_completeness auto
termination by (relation "measure length") auto

declare cas_loop.simps [simp del]

definition CertificateRequest_Unmarshal :: "bytes \<Rightarrow> (hs_error + cert_request) option" where
  "CertificateRequest_Unmarshal data =
     (if length data < 5 then Some (Inl HBufferTooSmall)
      else do {
        n \<leftarrow> idx data 0;
        if length data < 1 + unat n then Some (Inl HBufferTooSmall)
        else do {
          ts \<leftarrow> those (map (\<lambda>i. idx data (1 + i)) [0..<unat n]);
          let off1 = 1 + unat n;
          if length data < off1 + 2 then Some (Inl HBufferTooSmall)
          else do {
            l \<leftarrow> u16_at data off1;
            let off2 = off1 + 2;
            if length data < off2 + unat l then Some (Inl HBufferTooSmall)
            else do {
              as \<leftarrow> collect (\<lambda>i. if length data < off2 + i * 2 + 2 then Some (Inl HBufferTooSmall)
                  else do { a \<leftarrow> read_sig_hash data (off2 + i * 2); Some (Inr (if known_sig_hash a then Some a else None)) })
                [0..<(unat l + 1) div 2];
              case as of Inl e \<Rightarrow> Some (Inl e) | Inr algs \<Rightarrow> do {
                let off3 = off2 + unat l;
                if length data < off3 + 2 then Some (Inl HBufferTooSmall)
                else do {
                  cl \<leftarrow> u16_at data off3;
                  let off4 = off3 + 2;
                  if length data < off4 + unat cl then Some (Inl HBufferTooSmall)
                  else do {
                    cas \<leftarrow> sub_at data off4 (off4 + unat cl);
                    ns \<leftarrow> cas_loop cas;
                    Some (map_sum id (\<lambda>names. \<lparr>cr_CertificateTypes = filter (\<lambda>t. t \<in> clientcertificate_Types) ts,
                      cr_SignatureHashAlgorithms = algs, cr_CertificateAuthoritiesNames = names\<rparr>) ns) } } } } } } })"

text \<open>\<^verbatim>\<open>CertificateVerify\<close>.\<close>

record cert_verify =
  cv_HashAlgorithm :: byte
  cv_SignatureAlgorithm :: u16
  cv_Signature :: bytes

definition CertificateVerify_Marshal :: "cert_verify \<Rightarrow> bytes" where
  "CertificateVerify_Marshal m =
     [cv_HashAlgorithm m, ucast (cv_SignatureAlgorithm m)] @ put_u16 (u16_len (length (cv_Signature m))) @ cv_Signature m"

definition CertificateVerify_Unmarshal :: "bytes \<Rightarrow> (hs_error + cert_verify) option" where
  "CertificateVerify_Unmarshal data =
     (if length data < 4 then Some (Inl HBufferTooSmall)
      else do {
        h \<leftarrow> idx data 0;
        if h \<notin> hash_Algorithms then Some (Inl HInvalidHashAlgorithm)
        else do {
          s \<leftarrow> idx data 1;
          if ucast s \<notin> signature_Algorithms then Some (Inl HInvalidSignatureAlgorithm)
          else do {
            l \<leftarrow> u16_at data 2;
            if unat l + 4 \<noteq> length data then Some (Inl HBufferTooSmall)
            else do {
              d \<leftarrow> tail_at data 4;
              Some (Inr \<lparr>cv_HashAlgorithm = h, cv_SignatureAlgorithm = ucast s, cv_Signature = d\<rparr>) } } } })"

section \<open>Key exchanges\<close>

text \<open>The bit mask of the key exchange; an identity or a key that is \<open>nil\<close> is \<open>None\<close>.\<close>

abbreviation (input) KeyExchangeAlgorithmNone :: u64 where "KeyExchangeAlgorithmNone \<equiv> 0"
abbreviation (input) KeyExchangeAlgorithmPsk :: u64 where "KeyExchangeAlgorithmPsk \<equiv> 2"
abbreviation (input) KeyExchangeAlgorithmEcdhe :: u64 where "KeyExchangeAlgorithmEcdhe \<equiv> 4"

definition kx_Has :: "u64 \<Rightarrow> u64 \<Rightarrow> bool" where
  "kx_Has a v \<longleftrightarrow> a AND v = v"

record client_kx =
  ck_IdentityHint :: "bytes option"
  ck_PublicKey :: "bytes option"

definition ClientKeyExchange_Marshal :: "client_kx \<Rightarrow> hs_error + bytes" where
  "ClientKeyExchange_Marshal m =
     (if ck_IdentityHint m = None \<and> ck_PublicKey m = None then Inl HInvalidClientKeyExchange
      else Inr ((case ck_IdentityHint m of None \<Rightarrow> [] | Some h \<Rightarrow> put_u16 (u16_len (length h)) @ h) @
        (case ck_PublicKey m of None \<Rightarrow> [] | Some k \<Rightarrow> of_nat (length k) # k)))"

definition ClientKeyExchange_Unmarshal :: "u64 \<Rightarrow> bytes \<Rightarrow> (hs_error + client_kx) option" where
  "ClientKeyExchange_Unmarshal kx data =
     (if length data < 2 then Some (Inl HBufferTooSmall)
      else if kx = KeyExchangeAlgorithmNone then Some (Inl HCipherSuiteUnset)
      else do {
        pskLength \<leftarrow> u16_at data 0;
        if kx_Has kx KeyExchangeAlgorithmPsk \<and> length data - 2 < unat pskLength then Some (Inl HBufferTooSmall)
        else do {
          (hint, offset) \<leftarrow> (if kx_Has kx KeyExchangeAlgorithmPsk
            then map_option (\<lambda>h. (Some h, unat pskLength + 2)) (sub_at data 2 (unat pskLength + 2)) else Some (None, 0));
          if kx_Has kx KeyExchangeAlgorithmEcdhe
          then do {
            n \<leftarrow> idx data offset;
            if int (length data) - 1 - int offset < int (unat n) then Some (Inl HBufferTooSmall)
            else do {
              k \<leftarrow> tail_at data (offset + 1);
              Some (Inr \<lparr>ck_IdentityHint = hint, ck_PublicKey = Some k\<rparr>) } }
          else Some (Inr \<lparr>ck_IdentityHint = hint, ck_PublicKey = None\<rparr>) } })"

record server_kx =
  sk_IdentityHint :: "bytes option"
  sk_EllipticCurveType :: byte
  sk_NamedCurve :: u16
  sk_PublicKey :: bytes
  sk_HashAlgorithm :: byte
  sk_SignatureAlgorithm :: u16
  sk_Signature :: bytes

definition CurveTypes :: "byte set" where "CurveTypes = {3}"

definition ServerKeyExchange_Marshal :: "server_kx \<Rightarrow> hs_error + bytes" where
  "ServerKeyExchange_Marshal m =
     (let out = (case sk_IdentityHint m of None \<Rightarrow> [] | Some h \<Rightarrow> put_u16 (u16_len (length h)) @ h) in
      if sk_EllipticCurveType m = 0 \<or> sk_PublicKey m = [] then Inr out
      else let out = out @ sk_EllipticCurveType m # put_u16 (sk_NamedCurve m) @ of_nat (length (sk_PublicKey m)) # sk_PublicKey m in
        if sk_HashAlgorithm m \<noteq> 0 \<and> sk_Signature m = [] then Inl HInvalidHashAlgorithm
        else if sk_HashAlgorithm m = 0 \<and> sk_Signature m \<noteq> [] then Inl HInvalidHashAlgorithm
        else if sk_SignatureAlgorithm m = 0 \<and> (sk_HashAlgorithm m \<noteq> 0 \<or> sk_Signature m \<noteq> []) then Inl HInvalidSignatureAlgorithm
        else if sk_SignatureAlgorithm m = 0 then Inr out
        else Inr (out @ [sk_HashAlgorithm m, ucast (sk_SignatureAlgorithm m)] @ put_u16 (u16_len (length (sk_Signature m))) @ sk_Signature m))"

text \<open>The part behind the identity.\<close>

definition ServerKeyExchange_rest :: "bytes option \<Rightarrow> bytes \<Rightarrow> (hs_error + server_kx) option" where
  "ServerKeyExchange_rest hint data = do {
     ct \<leftarrow> idx data 0;
     if ct \<notin> CurveTypes then Some (Inl HInvalidEllipticCurveType)
     else if length data - 1 < 2 then Some (Inl HBufferTooSmall)
     else do {
       nc \<leftarrow> u16_at data 1;
       if nc \<notin> Curves then Some (Inl HInvalidNamedCurve)
       else if length data < 4 then Some (Inl HBufferTooSmall)
       else do {
         n \<leftarrow> idx data 3;
         let off = 4 + unat n;
         if length data < off then Some (Inl HBufferTooSmall)
         else do {
           pk \<leftarrow> sub_at data 4 off;
           let m = \<lparr>sk_IdentityHint = hint, sk_EllipticCurveType = ct, sk_NamedCurve = nc, sk_PublicKey = pk,
             sk_HashAlgorithm = 0, sk_SignatureAlgorithm = 0, sk_Signature = []\<rparr>;
           if length data = off then Some (Inr m)
           else if length data \<le> off then Some (Inl HBufferTooSmall)
           else do {
             h \<leftarrow> idx data off;
             if h \<notin> hash_Algorithms then Some (Inl HInvalidHashAlgorithm)
             else if length data \<le> off + 1 then Some (Inl HBufferTooSmall)
             else do {
               s \<leftarrow> idx data (off + 1);
               if ucast s \<notin> signature_Algorithms then Some (Inl HInvalidSignatureAlgorithm)
               else if length data < off + 2 + 2 then Some (Inl HBufferTooSmall)
               else do {
                 l \<leftarrow> u16_at data (off + 2);
                 if length data < off + 4 + unat l then Some (Inl HBufferTooSmall)
                 else do {
                   sg \<leftarrow> sub_at data (off + 4) (off + 4 + unat l);
                   Some (Inr (m\<lparr>sk_HashAlgorithm := h, sk_SignatureAlgorithm := ucast s, sk_Signature := sg\<rparr>)) } } } } } } } }"

text \<open>\<open>2 + hintLength\<close> is computed at the width of 16 bits.\<close>

definition ServerKeyExchange_Unmarshal :: "u64 \<Rightarrow> bytes \<Rightarrow> (hs_error + server_kx) option" where
  "ServerKeyExchange_Unmarshal kx data =
     (if length data < 2 then Some (Inl HBufferTooSmall)
      else if kx = KeyExchangeAlgorithmNone then Some (Inl HCipherSuiteUnset)
      else do {
        hintLength \<leftarrow> u16_at data 0;
        (hint, data) \<leftarrow> (if unat hintLength \<le> length data - 2 \<and> kx_Has kx KeyExchangeAlgorithmPsk
          then do {
            h \<leftarrow> sub_at data 2 (unat (2 + hintLength));
            d \<leftarrow> tail_at data (unat (2 + hintLength));
            Some (Some h, d) }
          else Some (None, data));
        if kx = KeyExchangeAlgorithmPsk
        then (if data = []
              then Some (Inr \<lparr>sk_IdentityHint = hint, sk_EllipticCurveType = 0, sk_NamedCurve = 0, sk_PublicKey = [],
                sk_HashAlgorithm = 0, sk_SignatureAlgorithm = 0, sk_Signature = []\<rparr>)
              else Some (Inl HLengthMismatch))
        else if \<not> kx_Has kx KeyExchangeAlgorithmEcdhe then Some (Inl HLengthMismatch)
        else ServerKeyExchange_rest hint data })"

section \<open>Handshakes\<close>

datatype hs_message =
    MHelloVerifyRequest verify_request
  | MClientHello client_hello
  | MServerHello server_hello
  | MCertificate "bytes list"
  | MServerKeyExchange server_kx
  | MCertificateRequest cert_request
  | MServerHelloDone
  | MCertificateVerify cert_verify
  | MClientKeyExchange client_kx
  | MFinished bytes

fun message_Type :: "hs_message \<Rightarrow> byte" where
  "message_Type (MClientHello _) = 1"
| "message_Type (MServerHello _) = 2"
| "message_Type (MHelloVerifyRequest _) = 3"
| "message_Type (MCertificate _) = 11"
| "message_Type (MServerKeyExchange _) = 12"
| "message_Type (MCertificateRequest _) = 13"
| "message_Type MServerHelloDone = 14"
| "message_Type (MCertificateVerify _) = 15"
| "message_Type (MClientKeyExchange _) = 16"
| "message_Type (MFinished _) = 20"

fun message_Marshal :: "cryptobyte \<Rightarrow> hs_message \<Rightarrow> hs_error + bytes" where
  "message_Marshal cb (MClientHello m) = ClientHello_Marshal cb m"
| "message_Marshal cb (MServerHello m) = ServerHello_Marshal cb m"
| "message_Marshal cb (MHelloVerifyRequest m) = HelloVerifyRequest_Marshal m"
| "message_Marshal cb (MCertificate m) = Inr (Certificate_Marshal m)"
| "message_Marshal cb (MServerKeyExchange m) = ServerKeyExchange_Marshal m"
| "message_Marshal cb (MCertificateRequest m) = Inr (CertificateRequest_Marshal m)"
| "message_Marshal cb MServerHelloDone = Inr []"
| "message_Marshal cb (MCertificateVerify m) = Inr (CertificateVerify_Marshal m)"
| "message_Marshal cb (MClientKeyExchange m) = ClientKeyExchange_Marshal m"
| "message_Marshal cb (MFinished d) = Inr d"

definition handshake_Marshal :: "cryptobyte \<Rightarrow> hs_header \<Rightarrow> hs_message option \<Rightarrow> hs_error + bytes" where
  "handshake_Marshal cb h mo =
     (case mo of
        None \<Rightarrow> Inl HHandshakeMessageUnset
      | Some m \<Rightarrow>
          if hh_FragmentOffset h \<noteq> 0 then Inl HUnableToMarshalFragmented
          else case message_Marshal cb m of
            Inl e \<Rightarrow> Inl e
          | Inr msg \<Rightarrow>
              Inr (hs_Marshal (h\<lparr>hh_Length := of_nat (length msg), hh_FragmentLength := of_nat (length msg), hh_Type := message_Type m\<rparr>) @ msg))"

definition message_Unmarshal :: "cryptobyte \<Rightarrow> u64 \<Rightarrow> byte \<Rightarrow> bytes \<Rightarrow> (hs_error + hs_message) option" where
  "message_Unmarshal cb kx t body =
     (if t = 1 then map_option (map_sum id MClientHello) (ClientHello_Unmarshal cb body)
      else if t = 3 then map_option (map_sum id MHelloVerifyRequest) (HelloVerifyRequest_Unmarshal body)
      else if t = 2 then map_option (map_sum id MServerHello) (ServerHello_Unmarshal cb body)
      else if t = 11 then map_option (map_sum id MCertificate) (Certificate_Unmarshal body)
      else if t = 12 then map_option (map_sum id MServerKeyExchange) (ServerKeyExchange_Unmarshal kx body)
      else if t = 13 then map_option (map_sum id MCertificateRequest) (CertificateRequest_Unmarshal body)
      else if t = 14 then Some (Inr MServerHelloDone)
      else if t = 16 then map_option (map_sum id MClientKeyExchange) (ClientKeyExchange_Unmarshal kx body)
      else if t = 20 then Some (Inr (MFinished body))
      else if t = 15 then map_option (map_sum id MCertificateVerify) (CertificateVerify_Unmarshal body)
      else Some (Inl HNotImplemented))"

definition handshake_Unmarshal :: "cryptobyte \<Rightarrow> u64 \<Rightarrow> bytes \<Rightarrow> (hs_error + hs_header \<times> hs_message) option" where
  "handshake_Unmarshal cb kx data =
     (case hs_Unmarshal data of
        Inl _ \<Rightarrow> Some (Inl HBufferTooSmall)
      | Inr h \<Rightarrow> do {
          d \<leftarrow> tail_at data 1;
          let reportedLen = be24 d;
          if of_nat (length data - HeaderLength) \<noteq> reportedLen then Some (Inl HLengthMismatch)
          else if reportedLen \<noteq> hh_FragmentLength h then Some (Inl HLengthMismatch)
          else do {
            t \<leftarrow> idx data 0;
            body \<leftarrow> tail_at data HeaderLength;
            m \<leftarrow> message_Unmarshal cb kx t body;
            Some (map_sum id (Pair h) m) } })"

section \<open>Which messages make a reader panic\<close>

lemma collect_total: "(\<And>i. i \<in> set is \<Longrightarrow> f i \<noteq> None) \<Longrightarrow> \<exists>r. collect f is = Some r"
proof (induction "is")
  case (Cons i "is")
  then obtain r where "f i = Some r" "\<exists>rs. collect f is = Some rs" by fastforce
  then show ?case by (auto split: sum.splits)
qed simp

lemma collect_total': "(\<And>i. i \<in> set is \<Longrightarrow> f i \<noteq> None) \<Longrightarrow> collect f is \<noteq> None"
  using collect_total [of "is" f] by auto

lemma decodeCipherSuiteIDs_total: "\<exists>r. decodeCipherSuiteIDs buf = Some r"
proof (cases "length buf < 2")
  case False
  then show ?thesis unfolding decodeCipherSuiteIDs_def
    by (simp add: u16_at_def [of buf 0], intro collect_total) (auto simp: u16_at_def)
qed (simp add: decodeCipherSuiteIDs_def)

lemma DecodeCompressionMethods_total: "\<exists>r. DecodeCompressionMethods buf = Some r"
proof (cases "length buf < 1")
  case False
  then show ?thesis unfolding DecodeCompressionMethods_def
    by (simp add: idx_def [of buf 0], intro collect_total) (auto simp: idx_def)
qed (simp add: DecodeCompressionMethods_def)

text \<open>A list of compression methods is read only if all of it is there.\<close>

lemma collect_Inr: "collect f is = Some (Inr xs) \<Longrightarrow> i \<in> set is \<Longrightarrow> \<exists>x. f i = Some (Inr x)"
proof (induction "is" arbitrary: xs)
  case (Cons j js)
  obtain r where r: "f j = Some r" using Cons.prems(1) by (cases "f j") simp_all
  obtain x where x: "r = Inr x" using Cons.prems(1) r by (cases r) simp_all
  obtain rs where rs: "collect f js = Some rs" using Cons.prems(1) r x by (cases "collect f js") simp_all
  obtain ys where "rs = Inr ys" using Cons.prems(1) r x rs by (cases rs) simp_all
  then show ?case using Cons.IH Cons.prems(2) r x rs by auto
qed simp

lemma DecodeCompressionMethods_length: "DecodeCompressionMethods buf = Some (Inr xs) \<Longrightarrow> unat (buf ! 0) + 1 \<le> length buf"
proof (rule ccontr)
  assume d: "DecodeCompressionMethods buf = Some (Inr xs)" "\<not> unat (buf ! 0) + 1 \<le> length buf"
  let ?f = "\<lambda>i. if length buf \<le> i + 1 then Some (Inl HBufferTooSmall)
    else do { x \<leftarrow> idx buf (i + 1); Some (Inr (if x \<in> CompressionMethods then Some x else None)) }"
  have ne: "\<not> length buf < 1" using d(1) by (auto simp: DecodeCompressionMethods_def)
  then have c: "collect ?f [0..<unat (buf ! 0)] = Some (Inr xs)" using d(1) by (simp add: DecodeCompressionMethods_def idx_def [of buf 0])
  have "length buf - 1 < unat (buf ! 0)" using d(2) ne by linarith
  then have "length buf - 1 \<in> set [0..<unat (buf ! 0)]" by simp
  from collect_Inr [OF c this] show False using ne by simp
qed

lemma vector8_total: "\<exists>r. vector8 data i = Some r"
  by (auto simp: vector8_def idx_def sub_at_def)

lemma vector8_Inr: "vector8 data i = Some (Inr x) \<Longrightarrow> i + 1 + length x < length data"
  by (auto simp: vector8_def idx_def sub_at_def split: if_splits)

lemma bind_total: "m \<noteq> None \<Longrightarrow> (\<And>x. m = Some x \<Longrightarrow> f x \<noteq> None) \<Longrightarrow> Option.bind m f \<noteq> None"
  by (cases m) simp_all

lemma sum_total: "(\<And>e. r = Inl e \<Longrightarrow> f e \<noteq> None) \<Longrightarrow> (\<And>x. r = Inr x \<Longrightarrow> g x \<noteq> None) \<Longrightarrow> (case r of Inl e \<Rightarrow> f e | Inr x \<Rightarrow> g x) \<noteq> None"
  by (cases r) simp_all

lemma if_total: "(c \<Longrightarrow> x \<noteq> None) \<Longrightarrow> (\<not> c \<Longrightarrow> y \<noteq> None) \<Longrightarrow> (if c then x else y) \<noteq> None"
  by simp

lemma access_None [simp]:
  "idx data i = None \<longleftrightarrow> length data \<le> i" "u16_at data i = None \<longleftrightarrow> length data < i + 2"
  "tail_at data i = None \<longleftrightarrow> length data < i" "sub_at data i j = None \<longleftrightarrow> j < i \<or> length data < j"
  by (auto simp: idx_def u16_at_def tail_at_def sub_at_def)

lemma parts_total [simp]:
  "vector8 data i \<noteq> None" "decodeCipherSuiteIDs buf \<noteq> None" "DecodeCompressionMethods buf \<noteq> None"
  using vector8_total decodeCipherSuiteIDs_total DecodeCompressionMethods_total by auto

lemmas total_intros = bind_total sum_total if_total

lemma compression_access:
  assumes "tail_at data i = Some d" "DecodeCompressionMethods d = Some (Inr cm)"
  shows "i < length data" "idx data i = Some n \<Longrightarrow> i + unat n + 1 \<le> length data"
proof -
  have d: "d = drop i data" "i \<le> length data" using assms(1) by (auto simp: tail_at_def split: if_splits)
  have l: "unat (d ! 0) + 1 \<le> length d" by (rule DecodeCompressionMethods_length [OF assms(2)])
  then show "i < length data" using d by simp
  then show "idx data i = Some n \<Longrightarrow> i + unat n + 1 \<le> length data" using l d by (auto simp: idx_def split: if_splits)
qed

lemma ClientHello_total:
  assumes "cb_advances cb"
  shows "ClientHello_Unmarshal cb data \<noteq> None"
  unfolding ClientHello_Unmarshal_def Let_def RandomLength_def RandomBytesLength_def
  by (intro total_intros) (auto simp: not_less not_le exts_Unmarshal_total [OF assms] simp del: not_None_eq dest: compression_access)

lemma ServerHello_total:
  assumes "cb_advances cb"
  shows "ServerHello_Unmarshal cb data \<noteq> None"
  unfolding ServerHello_Unmarshal_def Let_def RandomLength_def RandomBytesLength_def
  by (intro total_intros) (auto simp: not_less not_le exts_Unmarshal_total [OF assms] simp del: not_None_eq)

lemma verify_total: "HelloVerifyRequest_Unmarshal data \<noteq> None" "CertificateVerify_Unmarshal data \<noteq> None"
  unfolding HelloVerifyRequest_Unmarshal_def CertificateVerify_Unmarshal_def
  by (intro total_intros; auto simp: not_less not_le simp del: not_None_eq)+

lemma Certificate_total: "Certificate_Unmarshal data \<noteq> None"
proof -
  have "cert_loop data offset \<noteq> None" for offset
  proof (induction "length data - offset" arbitrary: offset rule: less_induct)
    case less
    show ?case
      by (subst cert_loop.simps, unfold Let_def, intro total_intros) (use less in \<open>auto simp: not_less not_le simp del: not_None_eq\<close>)
  qed
  then show ?thesis by (auto simp: Certificate_Unmarshal_def)
qed

lemma CertificateRequest_total: "CertificateRequest_Unmarshal data \<noteq> None"
proof -
  have cas: "cas_loop cas \<noteq> None" for cas
  proof (induction "length cas" arbitrary: cas rule: less_induct)
    case less
    show ?case
      by (subst cas_loop.simps, unfold Let_def, intro total_intros) (use less in \<open>auto simp: not_less not_le simp del: not_None_eq\<close>)
  qed
  have algs: "collect (\<lambda>i. if length data < b + i * 2 + 2 then Some (Inl HBufferTooSmall)
      else do { a \<leftarrow> read_sig_hash data (b + i * 2); Some (Inr (if known_sig_hash a then Some a else None)) }) js \<noteq> None" for b js
    by (rule collect_total') (auto simp: read_sig_hash_def idx_def)
  have types: "those (map (\<lambda>i. idx data (1 + i)) [0..<n]) \<noteq> None" if "1 + n \<le> length data" for n
    using those_idx [OF that] by auto
  show ?thesis
    unfolding CertificateRequest_Unmarshal_def Let_def
    by (intro total_intros types algs) (auto simp: not_less not_le cas simp del: not_None_eq)
qed

text \<open>
  With a pre-shared key and an ephemeral one, the client's message ends with the identity where the
  length of the key is expected.
\<close>

definition client_kx_panics :: "u64 \<Rightarrow> bytes \<Rightarrow> bool" where
  "client_kx_panics kx body \<longleftrightarrow> kx_Has kx KeyExchangeAlgorithmPsk \<and> kx_Has kx KeyExchangeAlgorithmEcdhe \<and>
     2 \<le> length body \<and> length body = unat (be16 body) + 2"

lemma kx_None: "\<not> kx_Has 0 KeyExchangeAlgorithmPsk" "\<not> kx_Has 0 KeyExchangeAlgorithmEcdhe"
  by (simp_all add: kx_Has_def)

lemma ClientKeyExchange_panics: "ClientKeyExchange_Unmarshal kx body = None \<longleftrightarrow> client_kx_panics kx body"
proof (cases "length body < 2 \<or> kx = 0")
  case True
  then show ?thesis using kx_None by (auto simp: ClientKeyExchange_Unmarshal_def client_kx_panics_def)
next
  case False
  then show ?thesis
    by (auto simp: ClientKeyExchange_Unmarshal_def client_kx_panics_def u16_at_def sub_at_def idx_def tail_at_def)
qed

text \<open>
  The server's message with a pre-shared key: the end of the identity wraps around at 16 bits, or
  there is nothing behind it where the type of the curve is expected.
\<close>

definition server_kx_panics :: "u64 \<Rightarrow> bytes \<Rightarrow> bool" where
  "server_kx_panics kx body \<longleftrightarrow> kx_Has kx KeyExchangeAlgorithmPsk \<and> 2 \<le> length body \<and>
     (let n = unat (be16 body) in n + 2 \<le> length body \<and>
       (65534 \<le> n \<or> kx \<noteq> KeyExchangeAlgorithmPsk \<and> kx_Has kx KeyExchangeAlgorithmEcdhe \<and> length body = n + 2))"

lemma ServerKeyExchange_rest_None: "ServerKeyExchange_rest hint data = None \<longleftrightarrow> data = []"
proof -
  have "ServerKeyExchange_rest hint data \<noteq> None" if "data \<noteq> []"
    unfolding ServerKeyExchange_rest_def Let_def
    by (intro total_intros) (use that in \<open>auto simp: not_less not_le simp del: not_None_eq\<close>)
  then show ?thesis by (auto simp: ServerKeyExchange_rest_def idx_def)
qed

lemma unat_plus2: "unat (2 + w :: u16) = (if unat w < 65534 then unat w + 2 else unat w - 65534)"
proof -
  have "unat (2 + w) = (2 + unat w) mod 65536" by (simp add: unat_word_ariths)
  then show ?thesis using unat_u16_lt [of w] by (simp add: mod_if)
qed

lemma ServerKeyExchange_panics: "ServerKeyExchange_Unmarshal kx body = None \<longleftrightarrow> server_kx_panics kx body"
proof (cases "length body < 2 \<or> kx = 0")
  case True
  then show ?thesis using kx_None by (auto simp: ServerKeyExchange_Unmarshal_def server_kx_panics_def)
next
  case False
  let ?n = "unat (be16 body)"
  have lt: "?n < 65536" by (rule unat_u16_lt)
  show ?thesis
  proof (cases "?n \<le> length body - 2 \<and> kx_Has kx KeyExchangeAlgorithmPsk")
    case True
    then show ?thesis using False lt
      by (auto simp: ServerKeyExchange_Unmarshal_def server_kx_panics_def u16_at_def sub_at_def tail_at_def
          unat_plus2 ServerKeyExchange_rest_None Let_def split: if_splits)
  next
    case no: False
    then show ?thesis using False
      by (auto simp: ServerKeyExchange_Unmarshal_def server_kx_panics_def u16_at_def
          ServerKeyExchange_rest_None Let_def split: if_splits)
  qed
qed

text \<open>
  C21: The reader of handshake messages panics for exactly two kinds of input, whatever the bytes and the
  negotiated key exchange: a \<^verbatim>\<open>ClientKeyExchange\<close> or a \<^verbatim>\<open>ServerKeyExchange\<close> with a pre-shared
  key whose identity reaches to the end of the message where an ephemeral key is expected, or whose length
  wraps around at 16 bits. Everything else is read or refused.
\<close>

theorem handshake_reader_panics:
  assumes "cb_advances cb"
  shows "handshake_Unmarshal cb kx data = None \<longleftrightarrow>
    HeaderLength \<le> length data \<and> of_nat (length data - HeaderLength) = be24 (drop 1 data) \<and> be24 (drop 1 data) = be24 (drop 9 data) \<and>
    (data ! 0 = 16 \<and> client_kx_panics kx (drop HeaderLength data) \<or> data ! 0 = 12 \<and> server_kx_panics kx (drop HeaderLength data))"
proof (cases "length data < HeaderLength")
  case False
  have m: "message_Unmarshal cb kx t body = None \<longleftrightarrow> t = 16 \<and> client_kx_panics kx body \<or> t = 12 \<and> server_kx_panics kx body" for t body
    by (auto simp: message_Unmarshal_def ClientHello_total [OF assms] ServerHello_total [OF assms] verify_total Certificate_total
        CertificateRequest_total ClientKeyExchange_panics ServerKeyExchange_panics simp del: not_None_eq)
  have at: "tail_at data 1 = Some (drop 1 data)" "idx data 0 = Some (data ! 0)" "tail_at data HeaderLength = Some (drop HeaderLength data)"
    using False by (auto simp: tail_at_def idx_def HeaderLength_def)
  have u: "hs_Unmarshal data = Inr \<lparr>hh_Type = data ! 0, hh_Length = be24 (drop 1 data), hh_MessageSequence = be16 (drop 4 data),
        hh_FragmentOffset = be24 (drop 6 data), hh_FragmentLength = be24 (drop 9 data)\<rparr>"
    using False by (simp add: hs_Unmarshal_def)
  have e: "handshake_Unmarshal cb kx data =
      (if of_nat (length data - HeaderLength) \<noteq> be24 (drop 1 data) then Some (Inl HLengthMismatch)
       else if be24 (drop 1 data) \<noteq> be24 (drop 9 data) then Some (Inl HLengthMismatch)
       else Option.bind (message_Unmarshal cb kx (data ! 0) (drop HeaderLength data)) (\<lambda>m. Some (map_sum id (Pair (projr (hs_Unmarshal data))) m)))"
    by (simp only: handshake_Unmarshal_def u sum.case sum.sel at Option.bind.bind_lunit Let_def hs_header.select_convs)
  show ?thesis using False m [of "data ! 0" "drop HeaderLength data"] unfolding e
    by (cases "message_Unmarshal cb kx (data ! 0) (drop HeaderLength data)") auto
qed (simp add: handshake_Unmarshal_def hs_Unmarshal_def)

theorem handshake_reader_panics_witness:
  "handshake_Unmarshal plain_cb 6 ([16, 0, 0, 3, 0, 0, 0, 0, 0, 0, 0, 3] @ [0, 1, 7]) = None"
proof -
  have "client_kx_panics 6 [0, 1, 7]"
    by (simp add: client_kx_panics_def kx_Has_def)
  then show ?thesis
    unfolding handshake_reader_panics [OF plain_cb_ok(2), of 6 "[16, 0, 0, 3, 0, 0, 0, 0, 0, 0, 0, 3] @ [0, 1, 7]"]
    by (simp add: HeaderLength_def be24_def)
qed

section \<open>Messages survive the wire\<close>

lemma collect_nth: "(\<And>i. i < length xs \<Longrightarrow> f i = Some (Inr (Some (xs ! i)))) \<Longrightarrow> collect f [0..<length xs] = Some (Inr xs)"
proof (induction xs arbitrary: f)
  case (Cons x xs)
  have "collect (\<lambda>i. f (Suc i)) [0..<length xs] = Some (Inr xs)" using Cons.prems by (intro Cons.IH) force
  moreover have "collect f (map Suc is) = collect (\<lambda>i. f (Suc i)) is" for "is" by (induction "is") simp_all
  moreover have "[0..<length (x # xs)] = 0 # map Suc [0..<length xs]" by (simp add: upt_conv_Cons map_Suc_upt del: upt_Suc)
  ultimately show ?case using Cons.prems [of 0] by simp
qed simp

lemma cipher_suites_roundtrip:
  assumes "length ids < 32768"
  shows "decodeCipherSuiteIDs (encodeCipherSuiteIDs ids @ rest) = Some (Inr ids)"
proof -
  let ?pre = "put_u16 (u16_len (length ids * 2))"
  let ?b = "?pre @ concat (map put_u16 ids) @ rest"
  have n: "unat (u16_len (length ids * 2)) div 2 = length ids" using assms by simp
  have "u16_at ?b (i * 2 + 2) = Some (ids ! i)" "\<not> length ?b < i * 2 + 4" if "i < length ids" for i
    using drop_pairs_app [of put_u16 i ids ?pre rest] that by (simp_all add: u16_at_def length_concat_pairs add.commute)
  then show ?thesis
    using collect_nth [of ids "\<lambda>i. if length ?b < i * 2 + 4 then Some (Inl HBufferTooSmall) else do { x \<leftarrow> u16_at ?b (i * 2 + 2); Some (Inr (Some x)) }"]
    by (simp add: decodeCipherSuiteIDs_def encodeCipherSuiteIDs_def u16_at_wire n)
qed

lemma compression_roundtrip:
  assumes "set c \<subseteq> CompressionMethods" "length c < 256"
  shows "DecodeCompressionMethods (EncodeCompressionMethods c @ rest) = Some (Inr c)"
proof -
  let ?b = "of_nat (length c) # c @ rest :: bytes"
  have n: "unat (of_nat (length c) :: byte) = length c" using assms(2) by (simp add: unat_of_nat)
  have c: "replicate (length c) 0 = c" by (rule replicate_length_same) (use assms(1) in \<open>auto simp: CompressionMethods_def\<close>)
  then have r: "rev c = c" by (metis rev_replicate)
  have "idx ?b (i + 1) = Some (c ! i)" "\<not> length ?b \<le> i + 1" "c ! i \<in> CompressionMethods" if "i < length c" for i
    using that assms(1) by (auto simp: idx_def nth_append)
  then show ?thesis
    using collect_nth [of c "\<lambda>i. if length ?b \<le> i + 1 then Some (Inl HBufferTooSmall)
      else do { x \<leftarrow> idx ?b (i + 1); Some (Inr (if x \<in> CompressionMethods then Some x else None)) }"]
    by (simp add: DecodeCompressionMethods_def EncodeCompressionMethods_def r idx_def n)
qed

definition random_ok :: "hs_random \<Rightarrow> bool" where
  "random_ok r \<longleftrightarrow> 0 \<le> rnd_GMTUnixTime r \<and> rnd_GMTUnixTime r < 2 ^ 32 \<and> length (rnd_RandomBytes r) = RandomBytesLength"

lemma random_roundtrip: "random_ok r \<Longrightarrow> UnmarshalFixed (MarshalFixed r) = r \<and> length (MarshalFixed r) = RandomLength"
  by (simp add: random_ok_def UnmarshalFixed_def MarshalFixed_def RandomLength_def uint_word_of_int)

lemma vector8_app:
  assumes "length x < 256" "rest \<noteq> []" "length pre = i"
  shows "vector8 (pre @ of_nat (length x) # x @ rest) i = Some (Inr x)"
proof -
  have "unat (of_nat (length x) :: byte) = length x" using assms(1) by (simp add: unat_of_nat)
  then show ?thesis using assms(2,3) by (auto simp: vector8_def idx_def sub_at_def nth_append)
qed

definition exts_ok :: "cryptobyte \<Rightarrow> extension list \<Rightarrow> bool" where
  "exts_ok cb es \<longleftrightarrow> (\<forall>e \<in> set es. ext_ok e) \<and> (case exts_concat cb es of Inl _ \<Rightarrow> False | Inr raw \<Rightarrow> length raw < 65536)"

lemma exts_ok_read:
  assumes "cb_ok cb" "exts_ok cb es"
  shows "\<exists>raw. exts_Marshal cb es = Inr raw \<and> exts_Unmarshal cb raw = Some (Inr es) \<and> raw \<noteq> []"
proof -
  obtain raw where raw: "exts_concat cb es = Inr raw" "length raw < 65536 \<longrightarrow>
      exts_Marshal cb es = Inr (put_u16 (u16_len (length raw)) @ raw) \<and> exts_Unmarshal cb (put_u16 (u16_len (length raw)) @ raw) = Some (Inr es)"
    using exts_roundtrip [OF assms(1), of es] assms(2) by (auto simp: exts_ok_def)
  moreover have "length raw < 65536" using assms(2) raw(1) by (simp add: exts_ok_def)
  moreover have "put_u16 w @ raw \<noteq> []" for w by (simp add: put_u16_def)
  ultimately show ?thesis by blast
qed

definition client_hello_ok :: "cryptobyte \<Rightarrow> client_hello \<Rightarrow> bool" where
  "client_hello_ok cb m \<longleftrightarrow> random_ok (ch_Random m) \<and> length (ch_SessionID m) < 256 \<and> length (ch_Cookie m) < 256 \<and>
     length (ch_CipherSuiteIDs m) < 32768 \<and> set (ch_CompressionMethods m) \<subseteq> CompressionMethods \<and>
     length (ch_CompressionMethods m) < 256 \<and> exts_ok cb (ch_Extensions m)"

lemma ClientHello_roundtrip:
  assumes "cb_ok cb" "client_hello_ok cb m"
  shows "\<exists>b. ClientHello_Marshal cb m = Inr b \<and> ClientHello_Unmarshal cb b = Some (Inr m)"
proof -
  note ok = assms(2) [unfolded client_hello_ok_def]
  obtain raw where raw: "exts_Marshal cb (ch_Extensions m) = Inr raw" "exts_Unmarshal cb raw = Some (Inr (ch_Extensions m))" "raw \<noteq> []"
    using exts_ok_read [OF assms(1)] ok by blast
  define sid ck cs cm rnd where d: "sid = ch_SessionID m" "ck = ch_Cookie m" "cs = encodeCipherSuiteIDs (ch_CipherSuiteIDs m)"
    "cm = EncodeCompressionMethods (ch_CompressionMethods m)" "rnd = MarshalFixed (ch_Random m)"
  define p0 where "p0 = [ch_Major m, ch_Minor m] @ rnd"
  define p1 where "p1 = p0 @ of_nat (length sid) # sid"
  define p2 where "p2 = p1 @ of_nat (length ck) # ck"
  define b where "b = p2 @ cs @ cm @ raw"
  have rnd: "UnmarshalFixed rnd = ch_Random m" "length rnd = 32"
    using random_roundtrip ok by (auto simp: d RandomLength_def RandomBytesLength_def)
  have len: "length p0 = 34" "length p1 = 35 + length sid" "length p2 = 36 + length sid + length ck"
    using rnd(2) by (simp_all add: p0_def p1_def p2_def)
  have cs: "decodeCipherSuiteIDs (cs @ r) = Some (Inr (ch_CipherSuiteIDs m))" "u16_at (cs @ r) 0 = Some (u16_len (length (ch_CipherSuiteIDs m) * 2))"
    "unat (u16_len (length (ch_CipherSuiteIDs m) * 2)) + 2 = length cs" for r
    using cipher_suites_roundtrip ok by (simp_all add: d encodeCipherSuiteIDs_def u16_at_wire length_concat_pairs)
  have cm: "DecodeCompressionMethods (cm @ r) = Some (Inr (ch_CompressionMethods m))" "cm = of_nat (length (ch_CompressionMethods m)) # tl cm"
    "unat (of_nat (length (ch_CompressionMethods m)) :: byte) + 1 = length cm" for r
    using compression_roundtrip ok by (simp_all add: d EncodeCompressionMethods_def unat_of_nat)
  have v: "vector8 b 34 = Some (Inr sid)" "vector8 b (35 + length sid) = Some (Inr ck)"
    using vector8_app [of sid "of_nat (length ck) # ck @ cs @ cm @ raw" p0 34] vector8_app [of ck "cs @ cm @ raw" p1 "35 + length sid"] ok len raw(3)
    by (simp_all add: b_def p1_def p2_def d)
  define o2 where "o2 = length p2"
  define o3 where "o3 = o2 + length cs"
  define o4 where "o4 = o3 + length cm"
  have e: "35 + length sid + 1 + length ck = o2" "o2 + unat (u16_len (length (ch_CipherSuiteIDs m) * 2)) + 2 = o3"
    "o3 + unat (of_nat (length (ch_CompressionMethods m)) :: byte) + 1 = o4"
    using len(3) cs(3) cm(3) by (simp_all add: o2_def o3_def o4_def)
  have at: "tail_at b o2 = Some (cs @ cm @ raw)" "u16_at b o2 = u16_at (cs @ cm @ raw) 0" "tail_at b o3 = Some (cm @ raw)" "tail_at b o4 = Some raw"
    "idx b o3 = Some (of_nat (length (ch_CompressionMethods m)))"
    using cm(2) unfolding b_def o2_def o3_def o4_def by (auto simp: tail_at_def u16_at_def idx_def nth_append) (metis nth_Cons_0)+
  have hd: "idx b 0 = Some (ch_Major m)" "idx b 1 = Some (ch_Minor m)" "take (28 + 4) (drop 2 b) = rnd" and gt: "\<not> length b < 2 + (28 + 4)"
    using rnd(2) by (simp_all add: b_def p2_def p1_def p0_def idx_def)
  have o: "\<not> length b < o2" "\<not> length b < o2 + 2" "\<not> length b < o3"
    using cs(3) by (simp_all add: b_def o2_def o3_def)
  have "ClientHello_Unmarshal cb b = Some (Inr m)"
    by (simp only: ClientHello_Unmarshal_def RandomLength_def RandomBytesLength_def gt if_False hd Option.bind.bind_lunit Let_def v sum.case e o at
        cs(1,2) cm(1) raw(2) rnd(1)) (simp add: d)
  moreover have "ClientHello_Marshal cb m = Inr b"
    using ok raw(1) by (simp add: ClientHello_Marshal_def b_def p2_def p1_def p0_def d)
  ultimately show ?thesis by blast
qed

definition server_hello_ok :: "cryptobyte \<Rightarrow> server_hello \<Rightarrow> bool" where
  "server_hello_ok cb m \<longleftrightarrow> random_ok (sh_Random m) \<and> length (sh_SessionID m) < 256 \<and> sh_CipherSuiteID m \<noteq> None \<and>
     sh_CompressionMethod m = Some 0 \<and> exts_ok cb (sh_Extensions m)"

lemma ServerHello_roundtrip:
  assumes "cb_ok cb" "server_hello_ok cb m"
  shows "\<exists>b. ServerHello_Marshal cb m = Inr b \<and> ServerHello_Unmarshal cb b = Some (Inr m)"
proof -
  note ok = assms(2) [unfolded server_hello_ok_def]
  obtain cs where cs: "sh_CipherSuiteID m = Some cs" using ok by blast
  obtain raw where raw: "exts_Marshal cb (sh_Extensions m) = Inr raw" "exts_Unmarshal cb raw = Some (Inr (sh_Extensions m))" "raw \<noteq> []"
    using exts_ok_read [OF assms(1)] ok by blast
  define sid rnd where d: "sid = sh_SessionID m" "rnd = MarshalFixed (sh_Random m)"
  define p0 where "p0 = [sh_Major m, sh_Minor m] @ rnd"
  define p1 where "p1 = p0 @ of_nat (length sid) # sid"
  define b where "b = p1 @ put_u16 cs @ [0] @ raw"
  have rnd: "UnmarshalFixed rnd = sh_Random m" "length rnd = 32"
    using random_roundtrip ok by (auto simp: d RandomLength_def RandomBytesLength_def)
  have len: "length p0 = 34" "length p1 = 35 + length sid" using rnd(2) by (simp_all add: p0_def p1_def)
  have v: "vector8 b 34 = Some (Inr sid)"
    using vector8_app [of sid "put_u16 cs @ [0] @ raw" p0 34] ok len by (simp add: b_def p1_def d)
  define o1 where "o1 = length p1"
  have e: "35 + length sid = o1" using len by (simp add: o1_def)
  have at: "u16_at b o1 = Some cs" "idx b (o1 + 2) = Some 0" "tail_at b (o1 + 3) = Some raw"
    by (simp_all add: b_def o1_def u16_at_def idx_def tail_at_def nth_append)
  have o: "\<not> length b < o1 + 2" "\<not> length b \<le> o1 + 2" "\<not> length b \<le> o1 + 3" "0 \<in> CompressionMethods"
    using raw(3) by (simp_all add: b_def o1_def CompressionMethods_def)
  have hd: "idx b 0 = Some (sh_Major m)" "idx b 1 = Some (sh_Minor m)" "take (28 + 4) (drop 2 b) = rnd" and gt: "\<not> length b < 2 + (28 + 4)"
    using rnd(2) by (simp_all add: b_def p1_def p0_def idx_def)
  have "ServerHello_Unmarshal cb b = Some (Inr m)"
    by (simp only: ServerHello_Unmarshal_def RandomLength_def RandomBytesLength_def gt if_False hd Option.bind.bind_lunit Let_def v sum.case e o at
        not_True_eq_False raw(2) rnd(1)) (use ok cs in \<open>simp add: d\<close>)
  moreover have "ServerHello_Marshal cb m = Inr b"
    using ok cs raw(1) by (simp add: ServerHello_Marshal_def b_def p1_def p0_def d)
  ultimately show ?thesis by blast
qed

lemma HelloVerifyRequest_roundtrip:
  assumes "length (vr_Cookie m) < 256"
  shows "\<exists>b. HelloVerifyRequest_Marshal m = Inr b \<and> HelloVerifyRequest_Unmarshal b = Some (Inr m)"
proof -
  have "unat (of_nat (length (vr_Cookie m)) :: byte) = length (vr_Cookie m)" using assms by (simp add: unat_of_nat)
  then show ?thesis using assms
    by (simp add: HelloVerifyRequest_Marshal_def HelloVerifyRequest_Unmarshal_def idx_def sub_at_def numeral_3_eq_3)
qed

lemma CertificateVerify_roundtrip:
  assumes "known_sig_hash (cv_HashAlgorithm m, cv_SignatureAlgorithm m)" "length (cv_Signature m) < 65536"
  shows "CertificateVerify_Unmarshal (CertificateVerify_Marshal m) = Some (Inr m)"
proof -
  have s: "cv_SignatureAlgorithm m \<in> {0, 1, 3, 7}" "cv_SignatureAlgorithm m \<in> signature_Algorithms" "cv_HashAlgorithm m \<in> hash_Algorithms"
    using assms(1) by (auto simp: known_sig_hash_def signature_Algorithms_def)
  then have u: "ucast (ucast (cv_SignatureAlgorithm m) :: byte) = cv_SignatureAlgorithm m" by auto
  have at: "idx (CertificateVerify_Marshal m) 0 = Some (cv_HashAlgorithm m)" "idx (CertificateVerify_Marshal m) 1 = Some (ucast (cv_SignatureAlgorithm m))"
    "u16_at (CertificateVerify_Marshal m) 2 = Some (u16_len (length (cv_Signature m)))" "tail_at (CertificateVerify_Marshal m) 4 = Some (cv_Signature m)"
    "length (CertificateVerify_Marshal m) = length (cv_Signature m) + 4"
    by (simp_all add: CertificateVerify_Marshal_def idx_def u16_at_def tail_at_def)
  show ?thesis using assms(2) s(2,3) unfolding CertificateVerify_Unmarshal_def at by (simp add: at u)
qed

lemma of_nat_less24: "n < 2 ^ 24 \<Longrightarrow> (of_nat n :: u32) < 2 ^ 24 \<and> unat (of_nat n :: u32) = n"
  by (simp add: word_less_nat_alt unat_of_nat)

definition cert_entry :: "bytes \<Rightarrow> bytes" where
  "cert_entry r = put_u24 (of_nat (length r)) @ r"

lemma cert_loop_read:
  "\<forall>c \<in> set cs. length c < 2 ^ 24 \<Longrightarrow> cert_loop (pre @ concat (map cert_entry cs)) (length pre) = Some (Inr cs)"
proof (induction cs arbitrary: pre)
  case Nil
  then show ?case by (simp add: cert_loop.simps)
next
  case (Cons c cs)
  let ?d = "pre @ cert_entry c @ concat (map cert_entry cs)" and ?o = "length pre"
  have n: "(of_nat (length c) :: u32) < 2 ^ 24" "unat (of_nat (length c) :: u32) = length c" using of_nat_less24 [of "length c"] Cons.prems by simp_all
  have t: "tail_at ?d ?o = Some (put_u24 (of_nat (length c)) @ c @ concat (map cert_entry cs))" by (simp add: tail_at_def cert_entry_def)
  have be: "be24 (put_u24 (of_nat (length c)) @ c @ concat (map cert_entry cs)) = of_nat (length c)" using be24_put_u24 [OF n(1)] by simp
  have s: "sub_at ?d (?o + 3) (?o + 3 + length c) = Some c" by (simp add: sub_at_def cert_entry_def)
  have ih: "cert_loop ?d (?o + 3 + length c) = Some (Inr cs)"
    using Cons.IH [of "pre @ cert_entry c"] Cons.prems by (simp add: cert_entry_def [of c] add.assoc)
  have l: "\<not> length ?d \<le> ?o" "\<not> length ?d < ?o + 3 + length c" by (simp_all add: cert_entry_def)
  have "cert_loop ?d ?o = Some (Inr (c # cs))"
    by (subst cert_loop.simps) (simp only: l if_False t Option.bind.bind_lunit Let_def be n(2) s ih, simp)
  then show ?case by simp
qed

lemma Certificate_roundtrip:
  assumes "length (concat (map cert_entry cs)) < 2 ^ 24"
  shows "Certificate_Unmarshal (Certificate_Marshal cs) = Some (Inr cs)"
proof -
  let ?body = "concat (map cert_entry cs)"
  have "length c \<le> length ?body" if "c \<in> set cs" for c
    using that by (induction cs) (auto simp: cert_entry_def)
  then have c: "\<forall>c \<in> set cs. length c < 2 ^ 24" using assms by fastforce
  have m: "Certificate_Marshal cs = put_u24 (of_nat (length ?body)) @ ?body"
    by (simp add: Certificate_Marshal_def cert_entry_def [abs_def] Let_def)
  have "unat (be24 (Certificate_Marshal cs)) = length ?body"
    using of_nat_less24 [OF assms] unfolding m by (simp add: be24_put_u24)
  then show ?thesis using cert_loop_read [OF c, of "put_u24 (of_nat (length ?body))"] unfolding m by (simp add: Certificate_Unmarshal_def)
qed

definition ca_entry :: "bytes \<Rightarrow> bytes" where
  "ca_entry ca = put_u16 (u16_len (length ca)) @ ca"

lemma cas_loop_read: "\<forall>c \<in> set cs. length c < 65536 \<Longrightarrow> cas_loop (concat (map ca_entry cs)) = Some (Inr cs)"
proof (induction cs)
  case (Cons c cs)
  let ?d = "put_u16 (u16_len (length c)) @ c @ concat (map ca_entry cs)"
  have n: "unat (u16_len (length c)) = length c" using Cons.prems by simp
  have l: "\<not> length ?d < 2" "?d \<noteq> []" "drop 2 ?d = c @ concat (map ca_entry cs)" by (simp_all add: put_u16_def)
  have ih: "cas_loop (concat (map ca_entry cs)) = Some (Inr cs)" using Cons by simp
  have "cas_loop ?d = Some (Inr (c # cs))"
    by (subst cas_loop.simps) (simp only: l if_False u16_at_wire Option.bind.bind_lunit Let_def n, simp add: ih)
  then show ?case by (simp add: ca_entry_def [of c])
qed (simp add: cas_loop.simps)

lemma those_conv: "those ys = Some xs \<Longrightarrow> ys = map Some xs"
  by (induction ys arbitrary: xs) (auto split: option.splits)

lemma read_sig_hash_nth:
  assumes "\<forall>a \<in> set xs. known_sig_hash a" "i < length xs"
  shows "read_sig_hash (pre @ concat (map (\<lambda>(h, s). [h, ucast s]) xs) @ rest) (length pre + i * 2) = Some (xs ! i)"
  using arg_cong [OF those_conv [OF sig_hash_list_read [OF assms(1), of pre rest]], of "\<lambda>l. l ! i"] assms(2) by simp

definition cert_request_ok :: "cert_request \<Rightarrow> bool" where
  "cert_request_ok m \<longleftrightarrow> set (cr_CertificateTypes m) \<subseteq> clientcertificate_Types \<and> length (cr_CertificateTypes m) < 256 \<and>
     (\<forall>a \<in> set (cr_SignatureHashAlgorithms m). known_sig_hash a) \<and> length (cr_SignatureHashAlgorithms m) < 32768 \<and>
     length (concat (map ca_entry (cr_CertificateAuthoritiesNames m))) < 65536"

lemma CertificateRequest_Marshal_eq:
  "CertificateRequest_Marshal m = of_nat (length (cr_CertificateTypes m)) # cr_CertificateTypes m @
     put_u16 (u16_len (length (cr_SignatureHashAlgorithms m) * 2)) @ concat (map (\<lambda>(h, s). [h, ucast s]) (cr_SignatureHashAlgorithms m)) @
     put_u16 (u16_len (length (concat (map ca_entry (cr_CertificateAuthoritiesNames m))))) @ concat (map ca_entry (cr_CertificateAuthoritiesNames m))"
proof -
  have "sum_list (map (\<lambda>ca. length ca + 2) ns) = length (concat (map ca_entry ns))" for ns
    by (induction ns) (simp_all add: ca_entry_def)
  moreover have "concat (map ca_entry ns) = []" if "length (concat (map ca_entry ns)) = 0" for ns using that by simp
  ultimately show ?thesis by (simp add: CertificateRequest_Marshal_def Let_def ca_entry_def [abs_def, symmetric])
qed

lemma CertificateRequest_roundtrip:
  assumes "cert_request_ok m"
  shows "CertificateRequest_Unmarshal (CertificateRequest_Marshal m) = Some (Inr m)"
proof -
  define ts as ns where d: "ts = cr_CertificateTypes m" "as = cr_SignatureHashAlgorithms m" "ns = cr_CertificateAuthoritiesNames m"
  let ?f = "\<lambda>(h :: byte, s :: u16). [h, ucast s :: byte]" and ?cas = "concat (map ca_entry ns)"
  note ok = assms [unfolded cert_request_ok_def, folded d]
  define b where "b = of_nat (length ts) # ts @ put_u16 (u16_len (length as * 2)) @ concat (map ?f as) @ put_u16 (u16_len (length ?cas)) @ ?cas"
  define o1 where "o1 = 1 + length ts"
  define o2 where "o2 = o1 + 2"
  define o3 where "o3 = o2 + length as * 2"
  define o4 where "o4 = o3 + 2"
  have un: "unat (of_nat (length ts) :: byte) = length ts" "unat (u16_len (length as * 2)) = length as * 2" "unat (u16_len (length ?cas)) = length ?cas"
    using ok by (simp_all add: unat_of_nat)
  have lf: "length (concat (map ?f as)) = length as * 2" by (rule length_concat_pairs) (simp add: split_beta)
  have types: "those (map (\<lambda>i. idx b (1 + i)) [0..<length ts]) = Some ts"
    by (rule those_nth) (simp add: idx_def b_def nth_append)
  have at: "idx b 0 = Some (of_nat (length ts))" "u16_at b o1 = Some (u16_len (length as * 2))" "u16_at b o3 = Some (u16_len (length ?cas))"
    "sub_at b o4 (o4 + length ?cas) = Some ?cas"
    using lf by (simp_all add: b_def o1_def o2_def o3_def o4_def idx_def u16_at_def sub_at_def)
  have l: "\<not> length b < 5" "\<not> length b < o1" "\<not> length b < o2" "\<not> length b < o3" "\<not> length b < o4" "\<not> length b < o4 + length ?cas"
    using lf by (simp_all add: b_def o1_def o2_def o3_def o4_def)
  let ?pre = "of_nat (length ts) # ts @ put_u16 (u16_len (length as * 2))"
  have algs: "collect (\<lambda>i. if length b < o2 + i * 2 + 2 then Some (Inl HBufferTooSmall)
      else do { a \<leftarrow> read_sig_hash b (o2 + i * 2); Some (Inr (if known_sig_hash a then Some a else None)) }) [0..<length as] = Some (Inr as)"
  proof (rule collect_nth)
    fix i assume i: "i < length as"
    have "read_sig_hash b (o2 + i * 2) = Some (as ! i)"
      using read_sig_hash_nth [of as i ?pre "put_u16 (u16_len (length ?cas)) @ ?cas"] ok i by (simp add: b_def o2_def o1_def)
    moreover have "\<not> length b < o2 + i * 2 + 2" using lf i by (simp add: b_def o2_def o1_def)
    moreover have "known_sig_hash (as ! i)" using ok i by simp
    ultimately show "(if length b < o2 + i * 2 + 2 then Some (Inl HBufferTooSmall)
      else do { a \<leftarrow> read_sig_hash b (o2 + i * 2); Some (Inr (if known_sig_hash a then Some a else None)) }) = Some (Inr (Some (as ! i)))" by simp
  qed
  have cas: "cas_loop ?cas = Some (Inr ns)"
  proof (rule cas_loop_read)
    have "length c \<le> length ?cas" if "c \<in> set ns" for c using that by (induction ns) (auto simp: ca_entry_def)
    then show "\<forall>c \<in> set ns. length c < 65536" using ok by fastforce
  qed
  have half: "(length as * 2 + 1) div 2 = length as" by simp
  have "CertificateRequest_Unmarshal b = Some (Inr m)"
    by (simp only: CertificateRequest_Unmarshal_def Let_def l if_False at Option.bind.bind_lunit un o1_def [symmetric] types o2_def [symmetric] half
        algs sum.case o3_def [symmetric] o4_def [symmetric] cas)
      (use ok in \<open>simp add: d filter_subset\<close>)
  then show ?thesis unfolding CertificateRequest_Marshal_eq b_def d .
qed

definition curve_part_ok :: "server_kx \<Rightarrow> bool" where
  "curve_part_ok m \<longleftrightarrow> sk_EllipticCurveType m \<in> CurveTypes \<and> sk_NamedCurve m \<in> Curves \<and> sk_PublicKey m \<noteq> [] \<and> length (sk_PublicKey m) < 256 \<and>
     (sk_HashAlgorithm m = 0 \<and> sk_SignatureAlgorithm m = 0 \<and> sk_Signature m = [] \<or>
      sk_HashAlgorithm m \<noteq> 0 \<and> sk_SignatureAlgorithm m \<noteq> 0 \<and> known_sig_hash (sk_HashAlgorithm m, sk_SignatureAlgorithm m) \<and>
        sk_Signature m \<noteq> [] \<and> length (sk_Signature m) < 65536)"

definition sig_part :: "server_kx \<Rightarrow> bytes" where
  "sig_part m = (if sk_SignatureAlgorithm m = 0 then []
     else [sk_HashAlgorithm m, ucast (sk_SignatureAlgorithm m)] @ put_u16 (u16_len (length (sk_Signature m))) @ sk_Signature m)"

definition curve_part :: "server_kx \<Rightarrow> bytes" where
  "curve_part m = sk_EllipticCurveType m # put_u16 (sk_NamedCurve m) @ of_nat (length (sk_PublicKey m)) # sk_PublicKey m @ sig_part m"

lemma known_sig_ucast: "known_sig_hash (h, s) \<Longrightarrow> ucast (ucast s :: byte) = s \<and> s \<in> signature_Algorithms \<and> h \<in> hash_Algorithms"
  by (auto simp: known_sig_hash_def signature_Algorithms_def)

lemma curve_part_read:
  assumes "curve_part_ok m"
  shows "ServerKeyExchange_rest (sk_IdentityHint m) (curve_part m) = Some (Inr m)"
proof -
  let ?b = "curve_part m" and ?pk = "sk_PublicKey m" and ?sg = "sk_Signature m"
  define off where "off = 4 + length ?pk"
  have ok: "sk_EllipticCurveType m \<in> CurveTypes" "sk_NamedCurve m \<in> Curves" "length ?pk < 256" using assms by (simp_all add: curve_part_ok_def)
  have n: "unat (of_nat (length ?pk) :: byte) = length ?pk" using ok(3) by (simp add: unat_of_nat)
  have len: "length ?b = off + length (sig_part m)" by (simp add: curve_part_def off_def)
  have at: "idx ?b 0 = Some (sk_EllipticCurveType m)" "u16_at ?b 1 = Some (sk_NamedCurve m)" "idx ?b 3 = Some (of_nat (length ?pk))" "sub_at ?b 4 off = Some ?pk"
    by (simp_all add: curve_part_def idx_def u16_at_def sub_at_def off_def nth_append)
  have l: "\<not> length ?b - 1 < 2" "\<not> length ?b < 4" "\<not> length ?b < off" using len by (simp_all add: off_def)
  show ?thesis
  proof (cases "sk_SignatureAlgorithm m = 0")
    case True
    then have z: "sk_HashAlgorithm m = 0" "?sg = []" "length ?b = off" using assms len by (auto simp: curve_part_ok_def sig_part_def)
    show ?thesis
      by (simp only: ServerKeyExchange_rest_def Let_def at Option.bind.bind_lunit ok l if_False not_True_eq_False n off_def [symmetric] z(3) if_True)
        (use True z(1,2) in \<open>simp add: off_def\<close>)
  next
    case False
    have k: "known_sig_hash (sk_HashAlgorithm m, sk_SignatureAlgorithm m)" "length ?sg < 65536" using assms False by (auto simp: curve_part_ok_def)
    note ku = known_sig_ucast [OF k(1)]
    obtain P where P: "off = length P" "?b = P @ [sk_HashAlgorithm m, ucast (sk_SignatureAlgorithm m)] @ put_u16 (u16_len (length ?sg)) @ ?sg"
      using that [of "sk_EllipticCurveType m # put_u16 (sk_NamedCurve m) @ of_nat (length ?pk) # ?pk"] False
      by (simp add: curve_part_def sig_part_def off_def)
    have at2: "idx ?b off = Some (sk_HashAlgorithm m)" "idx ?b (off + 1) = Some (ucast (sk_SignatureAlgorithm m))"
      "u16_at ?b (off + 2) = Some (u16_len (length ?sg))" "sub_at ?b (off + 4) (off + 4 + length ?sg) = Some ?sg"
      unfolding P by (simp_all add: idx_def u16_at_def sub_at_def nth_append)
    have l2: "length ?b \<noteq> off" "\<not> length ?b \<le> off" "\<not> length ?b \<le> off + 1" "\<not> length ?b < off + 2 + 2" "\<not> length ?b < off + 4 + length ?sg"
      using len False by (simp_all add: sig_part_def)
    have un: "unat (u16_len (length ?sg)) = length ?sg" using k(2) by simp
    show ?thesis
      by (simp only: ServerKeyExchange_rest_def Let_def at at2 Option.bind.bind_lunit ok l l2 if_False not_True_eq_False n off_def [symmetric] un ku)
        simp
  qed
qed

text \<open>The key exchanges with the parts that their algorithm has.\<close>

definition kx_parts :: "u64 \<Rightarrow> bool" where
  "kx_parts kx \<longleftrightarrow> kx \<in> {KeyExchangeAlgorithmPsk, KeyExchangeAlgorithmEcdhe, KeyExchangeAlgorithmPsk OR KeyExchangeAlgorithmEcdhe}"

definition server_kx_ok :: "u64 \<Rightarrow> server_kx \<Rightarrow> bool" where
  "server_kx_ok kx m \<longleftrightarrow> kx_parts kx \<and>
     (case sk_IdentityHint m of None \<Rightarrow> \<not> kx_Has kx KeyExchangeAlgorithmPsk | Some h \<Rightarrow> kx_Has kx KeyExchangeAlgorithmPsk \<and> length h < 65534) \<and>
     (if kx = KeyExchangeAlgorithmPsk
      then m = \<lparr>sk_IdentityHint = sk_IdentityHint m, sk_EllipticCurveType = 0, sk_NamedCurve = 0, sk_PublicKey = [],
        sk_HashAlgorithm = 0, sk_SignatureAlgorithm = 0, sk_Signature = []\<rparr>
      else curve_part_ok m)"

lemma kx_simps:
  "kx_Has 2 KeyExchangeAlgorithmPsk" "\<not> kx_Has 2 KeyExchangeAlgorithmEcdhe" "\<not> kx_Has 4 KeyExchangeAlgorithmPsk"
  "kx_Has 4 KeyExchangeAlgorithmEcdhe" "kx_Has 6 KeyExchangeAlgorithmPsk" "kx_Has 6 KeyExchangeAlgorithmEcdhe"
  by (simp_all add: kx_Has_def)

lemma kx_parts_cases: "kx_parts kx \<Longrightarrow> kx = 2 \<or> kx = 4 \<or> kx = 6"
  by (auto simp: kx_parts_def)

lemma hint_read:
  assumes "length h < 65534"
  shows "sub_at (put_u16 (u16_len (length h)) @ h @ r) 2 (unat (2 + u16_len (length h))) = Some h"
    "tail_at (put_u16 (u16_len (length h)) @ h @ r) (unat (2 + u16_len (length h))) = Some r"
  using assms by (simp_all add: unat_plus2 sub_at_def tail_at_def)

lemma ServerKeyExchange_Marshal_curve:
  "curve_part_ok m \<Longrightarrow> ServerKeyExchange_Marshal m =
     Inr ((case sk_IdentityHint m of None \<Rightarrow> [] | Some h \<Rightarrow> put_u16 (u16_len (length h)) @ h) @ curve_part m)"
  by (auto simp: ServerKeyExchange_Marshal_def curve_part_ok_def CurveTypes_def curve_part_def sig_part_def Let_def)

lemma ServerKeyExchange_roundtrip:
  assumes "server_kx_ok kx m"
  shows "\<exists>b. ServerKeyExchange_Marshal m = Inr b \<and> ServerKeyExchange_Unmarshal kx b = Some (Inr m)"
proof -
  consider "kx = 2" | "kx = 4" | "kx = 6" using assms kx_parts_cases by (auto simp: server_kx_ok_def)
  then show ?thesis
  proof cases
    case 1
    then obtain h where h: "sk_IdentityHint m = Some h" "length h < 65534" using assms kx_simps by (auto simp: server_kx_ok_def split: option.splits)
    have m: "m = \<lparr>sk_IdentityHint = Some h, sk_EllipticCurveType = 0, sk_NamedCurve = 0, sk_PublicKey = [],
        sk_HashAlgorithm = 0, sk_SignatureAlgorithm = 0, sk_Signature = []\<rparr>"
      using assms 1 h(1) by (simp add: server_kx_ok_def)
    show ?thesis using 1 h(2) hint_read [OF h(2), of "[]"] kx_simps
      by (simp add: m ServerKeyExchange_Marshal_def ServerKeyExchange_Unmarshal_def u16_at_def)
  next
    case 2
    then have c: "sk_IdentityHint m = None" "curve_part_ok m"
      using assms kx_simps by (auto simp: server_kx_ok_def split: option.splits)
    have len: "2 \<le> length (curve_part m)" by (simp add: curve_part_def)
    show ?thesis using 2 c(1) curve_part_read [OF c(2)] kx_simps(3,4) len
      by (simp add: ServerKeyExchange_Marshal_curve [OF c(2)] ServerKeyExchange_Unmarshal_def u16_at_def)
  next
    case 3
    then obtain h where c: "sk_IdentityHint m = Some h" "length h < 65534" "curve_part_ok m"
      using assms kx_simps by (auto simp: server_kx_ok_def split: option.splits)
    show ?thesis using 3 c(1,2) curve_part_read [OF c(3)] kx_simps hint_read [OF c(2), of "curve_part m"]
      by (simp add: ServerKeyExchange_Marshal_curve [OF c(3)] ServerKeyExchange_Unmarshal_def u16_at_def)
  qed
qed

definition client_kx_ok :: "u64 \<Rightarrow> client_kx \<Rightarrow> bool" where
  "client_kx_ok kx m \<longleftrightarrow> kx_parts kx \<and>
     (case ck_IdentityHint m of None \<Rightarrow> \<not> kx_Has kx KeyExchangeAlgorithmPsk | Some h \<Rightarrow> kx_Has kx KeyExchangeAlgorithmPsk \<and> length h < 65536) \<and>
     (case ck_PublicKey m of None \<Rightarrow> \<not> kx_Has kx KeyExchangeAlgorithmEcdhe
      | Some k \<Rightarrow> kx_Has kx KeyExchangeAlgorithmEcdhe \<and> k \<noteq> [] \<and> length k < 256)"

lemma ClientKeyExchange_roundtrip:
  assumes "client_kx_ok kx m"
  shows "\<exists>b. ClientKeyExchange_Marshal m = Inr b \<and> ClientKeyExchange_Unmarshal kx b = Some (Inr m)"
proof -
  have k: "uint (of_nat (length (k :: bytes)) :: byte) = int (length k)" if "length k < 256" for k
    using that by (simp add: uint_nat unat_of_nat)
  consider "kx = 2" | "kx = 4" | "kx = 6" using assms kx_parts_cases by (auto simp: client_kx_ok_def)
  then show ?thesis
  proof cases
    case 1
    then obtain h where h: "m = \<lparr>ck_IdentityHint = Some h, ck_PublicKey = None\<rparr>" "length h < 65536"
      using assms kx_simps by (cases m) (auto simp: client_kx_ok_def split: option.splits)
    show ?thesis using 1 h kx_simps
      by (simp add: ClientKeyExchange_Marshal_def ClientKeyExchange_Unmarshal_def u16_at_def sub_at_def)
  next
    case 2
    then obtain p where p: "m = \<lparr>ck_IdentityHint = None, ck_PublicKey = Some p\<rparr>" "p \<noteq> []" "length p < 256"
      using assms kx_simps by (cases m) (auto simp: client_kx_ok_def split: option.splits)
    have "\<not> length p < 1" "Suc 0 \<le> length p" using p(2) by (cases p; simp)+
    then show ?thesis using 2 p kx_simps k [OF p(3)]
      by (simp add: ClientKeyExchange_Marshal_def ClientKeyExchange_Unmarshal_def u16_at_def idx_def tail_at_def)
  next
    case 3
    then obtain h p where p: "m = \<lparr>ck_IdentityHint = Some h, ck_PublicKey = Some p\<rparr>" "length h < 65536" "p \<noteq> []" "length p < 256"
      using assms kx_simps by (cases m) (auto simp: client_kx_ok_def split: option.splits)
    show ?thesis using 3 p kx_simps k [OF p(4)]
      by (simp add: ClientKeyExchange_Marshal_def ClientKeyExchange_Unmarshal_def u16_at_def idx_def tail_at_def sub_at_def nth_append
         )
  qed
qed

fun message_ok :: "cryptobyte \<Rightarrow> u64 \<Rightarrow> hs_message \<Rightarrow> bool" where
  "message_ok cb kx (MClientHello m) \<longleftrightarrow> client_hello_ok cb m"
| "message_ok cb kx (MServerHello m) \<longleftrightarrow> server_hello_ok cb m"
| "message_ok cb kx (MHelloVerifyRequest m) \<longleftrightarrow> length (vr_Cookie m) < 256"
| "message_ok cb kx (MCertificate cs) \<longleftrightarrow> length (concat (map cert_entry cs)) < 2 ^ 24"
| "message_ok cb kx (MServerKeyExchange m) \<longleftrightarrow> server_kx_ok kx m"
| "message_ok cb kx (MCertificateRequest m) \<longleftrightarrow> cert_request_ok m"
| "message_ok cb kx MServerHelloDone \<longleftrightarrow> True"
| "message_ok cb kx (MCertificateVerify m) \<longleftrightarrow>
     known_sig_hash (cv_HashAlgorithm m, cv_SignatureAlgorithm m) \<and> length (cv_Signature m) < 65536"
| "message_ok cb kx (MClientKeyExchange m) \<longleftrightarrow> client_kx_ok kx m"
| "message_ok cb kx (MFinished d) \<longleftrightarrow> True"

lemma message_roundtrip:
  assumes "cb_ok cb" "message_ok cb kx m"
  shows "\<exists>b. message_Marshal cb m = Inr b \<and> message_Unmarshal cb kx (message_Type m) b = Some (Inr m)"
proof (cases m)
  case (MClientHello x)
  then show ?thesis using ClientHello_roundtrip [OF assms(1)] assms(2) by (fastforce simp: message_Unmarshal_def)
next
  case (MServerHello x)
  then show ?thesis using ServerHello_roundtrip [OF assms(1)] assms(2) by (fastforce simp: message_Unmarshal_def)
next
  case (MHelloVerifyRequest x)
  then show ?thesis using HelloVerifyRequest_roundtrip assms(2) by (fastforce simp: message_Unmarshal_def)
next
  case (MServerKeyExchange x)
  then show ?thesis using ServerKeyExchange_roundtrip assms(2) by (fastforce simp: message_Unmarshal_def)
next
  case (MClientKeyExchange x)
  then show ?thesis using ClientKeyExchange_roundtrip assms(2) by (fastforce simp: message_Unmarshal_def)
qed (use assms(2) Certificate_roundtrip CertificateRequest_roundtrip CertificateVerify_roundtrip in \<open>simp_all add: message_Unmarshal_def\<close>)


definition demo_hello :: client_hello where
  "demo_hello = \<lparr>ch_Major = 0xfe, ch_Minor = 0xfd, ch_Random = \<lparr>rnd_GMTUnixTime = 1700000000, rnd_RandomBytes = replicate 28 5\<rparr>,
     ch_Cookie = [1, 2], ch_SessionID = [], ch_CipherSuiteIDs = [0xc02b], ch_CompressionMethods = [0],
     ch_Extensions = [SupportedEllipticCurves [0x1d, 0x17], ConnectionID [9], ALPN [[104, 50]]]\<rparr>"


end
