(* ===== verification/Spec2Isabelle.thy ===== *)
theory Spec2Isabelle
  imports Replay_Filter Padding Reliable_RTP Obfs Socks5 Dc_Conn Peer_Session Peer_Group Session_Hub Discovery_Hub
    Udp_Relay Json Base64 Api_Server Manual_Code Signal_Client Discovery_Client Dns_Cache Dns_Channel
    Dtls_Record Dtls_Fragment Dtls_Conn Dtls_Read Dtls_Send Ccm Dtls_Cipher Dtls_Prf Dtls_Cbc
    Packet_Buffer Dtls_Ext Dtls_Hello
begin

text \<open>
  A verification development for NATProxy, which shares the internet connection of one device with
  others behind NATs. A server device and its clients find each other through a signalling server,
  connect over WebRTC (data channels or media streams on DTLS), and the client sends its traffic
  through the tunnel.

  \<^bold>\<open>The program's parts\<close>, under \<^verbatim>\<open>src/\<close>:

  \<^item> \<^verbatim>\<open>signalserver/cmd/signalserver/main.go\<close>: the signalling server. A session hub keeps offers and
    answers and streams changes to those who watch; a registry lists running servers by room; a
    UDP relay forwards packets between two registered peers; an HTTP interface serves all of them.
  \<^item> \<^verbatim>\<open>golib/signaling\<close>: the client of that server, with optional encryption of the payloads, and
    codes that users copy by hand instead.
  \<^item> \<^verbatim>\<open>golib/webrtc\<close>: servers and clients as peers and groups of peers, the byte streams on top of
    data channels or RTP, padding, obfuscation of packets, the replay filter, limits and the
    SOCKS5 front end.
  \<^item> \<^verbatim>\<open>golib/tunnel\<close>: name resolution through the tunnel.
  \<^item> \<^verbatim>\<open>golib/replace/dtls\<close>: the fork of the DTLS library that the peers use.

  \<^bold>\<open>How the model is written.\<close> A struct is a record and an enumeration a datatype; an operation is a
  function from a state to a result and a new state. Machine integers are words, byte slices lists
  of bytes, instants and durations integers. An error is the left side of a sum, and where the code
  can panic the absence of a value is the panic. Random draws, the order in which a map is walked,
  the clock, the answers of connections and everything outside \<^verbatim>\<open>src/\<close> (cryptographic primitives,
  the network, pion, smux) are arguments; what a theorem needs of them is a named hypothesis, and
  the witness of the theorem instantiates it. Goroutines that interleave are step relations.

  \<^bold>\<open>The theories\<close>, in the order in which they build on each other:

  \<^item> \<^verbatim>\<open>Go_Prelude\<close>: words and bytes, big-endian codecs, readers, text, and the interfaces that
    several components share: \<^verbatim>\<open>frame_codec\<close> (a stream of frames can be cut in one way only),
    \<^verbatim>\<open>buffered_reader\<close> (reads with any buffer sizes give the bytes in order) and \<^verbatim>\<open>expiring_store\<close>
    (entries with a time of last use and a collector).
  \<^item> \<^verbatim>\<open>Replay_Filter\<close> (\<^verbatim>\<open>webrtc/replay.go\<close>): the sliding window over an array of 64-bit words.
    It implements a set with a maximum; no number is accepted twice, and exactly the numbers that
    are new and in the window are accepted.
  \<^item> \<^verbatim>\<open>Padding\<close> (\<^verbatim>\<open>webrtc/padding.go\<close>, \<^verbatim>\<open>padding_burst.go\<close>): whatever the random choices, padding,
    decoys and the burst leave the bytes of the stream unchanged; the 16-bit length wraps for
    writes of 65536 bytes.
  \<^item> \<^verbatim>\<open>Reliable_RTP\<close> (\<^verbatim>\<open>webrtc/media_reliable.go\<close>): sender, receiver and a network that loses,
    duplicates and reorders. What is read is a prefix of what was written; a lost frame followed
    by a full window blocks the stream.
  \<^item> \<^verbatim>\<open>Obfs\<close> (\<^verbatim>\<open>webrtc/obfs.go\<close>): sealed packets arrive in order and unchanged, nonces are
    distinct, and with the filter no counter is taken twice.
  \<^item> \<^verbatim>\<open>Dc_Conn\<close>, \<^verbatim>\<open>Socks5\<close>, \<^verbatim>\<open>Peer_Session\<close>, \<^verbatim>\<open>Peer_Group\<close> (\<^verbatim>\<open>webrtc/dcconn.go\<close>, \<^verbatim>\<open>media_transport.go\<close>,
    \<^verbatim>\<open>socks5.go\<close>, \<^verbatim>\<open>server.go\<close>, \<^verbatim>\<open>client.go\<close>, \<^verbatim>\<open>group.go\<close>, \<^verbatim>\<open>defaults.go\<close>, \<^verbatim>\<open>throttle.go\<close>,
    \<^verbatim>\<open>activity.go\<close>): streams over messages with their shared buffer, the request handlers, the
    readiness of several channels, choice of sessions, starting and stopping of groups.
  \<^item> \<^verbatim>\<open>Session_Hub\<close>, \<^verbatim>\<open>Discovery_Hub\<close>, \<^verbatim>\<open>Udp_Relay\<close>, \<^verbatim>\<open>Json\<close>, \<^verbatim>\<open>Base64\<close>, \<^verbatim>\<open>Api_Server\<close>: the signalling
    server. Each store refines an abstract one, streams lose no update, the relay keeps sessions
    apart, and every request in every reachable state gets its reply.
  \<^item> \<^verbatim>\<open>Manual_Code\<close>, \<^verbatim>\<open>Signal_Client\<close>, \<^verbatim>\<open>Discovery_Client\<close>: the client side, composed with the server
    model: what one side posts the other one gets.
  \<^item> \<^verbatim>\<open>Dns_Cache\<close>, \<^verbatim>\<open>Dns_Channel\<close> (\<^verbatim>\<open>tunnel/tun.go\<close>, \<^verbatim>\<open>tunnel/dnschannel.go\<close>, \<^verbatim>\<open>webrtc/dnsrelay.go\<close>): the
    cache refines a recency list, queries leave the tunnel only when allowed, batches give each
    caller its own answer when the identifiers differ.
  \<^item> \<^verbatim>\<open>Dtls_Record\<close>, \<^verbatim>\<open>Dtls_Fragment\<close>, \<^verbatim>\<open>Dtls_Conn\<close>, \<^verbatim>\<open>Dtls_Read\<close>, \<^verbatim>\<open>Dtls_Send\<close>: records, datagrams and
    fragments, the handler of a record and the read loop, and the sending side. Handshake
    messages survive fragmentation, reordering and duplication; data are authentic and delivered
    once; the state stays well formed whatever arrives.
  \<^item> \<^verbatim>\<open>Ccm\<close>, \<^verbatim>\<open>Dtls_Cipher\<close>, \<^verbatim>\<open>Dtls_Prf\<close>: the CCM mode over any block cipher, the protection of records
    and the derivation of keys. Opening is the exact inverse of sealing (the interface \<^verbatim>\<open>aead\<close>,
    interpreted for CCM), both ends get matching keys, and data written at one end arrive at the
    other.
  \<^item> \<^verbatim>\<open>Dtls_Cbc\<close> (\<^verbatim>\<open>ciphersuite/cbc.go\<close>): the CBC suites. The padding check without branches decides
    exactly what it should, both ends read each other's records, and a record that anybody can
    compute from a known block makes the receiver panic.
  \<^item> \<^verbatim>\<open>Packet_Buffer\<close> (\<^verbatim>\<open>internal/net/buffer.go\<close>): the ring of datagrams of a connection. What comes out
    is in order, unchanged and without duplicates (the interface \<^verbatim>\<open>lossy_queue\<close>), but growing can lose datagrams.
  \<^item> \<^verbatim>\<open>Dtls_Ext\<close>, \<^verbatim>\<open>Dtls_Hello\<close> (\<^verbatim>\<open>pkg/protocol/extension\<close>, \<^verbatim>\<open>pkg/protocol/handshake\<close>): the handshake
    messages. Every message in order survives the wire, and the inputs for which a reader panics are
    characterised.

  \<^bold>\<open>Bounds and fuel.\<close> Loops are structural recursions or functions with a termination proof, except
  for three. The assembly of a handshake message (\<^verbatim>\<open>appendMessage\<close>) searches for the next fragment
  with the number of stored fragments plus one as fuel, and \<^verbatim>\<open>fb_pop_total\<close> proves that it never
  runs out. The reader that fills a buffer has the number of bytes wanted as fuel, and the
  names in the extensions of a hello message are read with the length of the list as fuel; both are
  proved to be enough (\<^verbatim>\<open>full_loop_reads\<close>, \<^verbatim>\<open>sni_loop_total\<close>, \<^verbatim>\<open>alpn_loop_total\<close>).
  Loops that run for ever (read loops, schedulers, collectors) are sequences of steps, and the theorems are
  about all finite sequences. Lengths on the wire keep their width, so theorems have a bound
  wherever a length could wrap.

  \<^bold>\<open>Not modelled\<close>: the application programming interface of the mobile library (\<^verbatim>\<open>golib/api.go\<close>, which
  starts and stops the parts and copies settings); the glue to pion (\<^verbatim>\<open>webrtc/peer.go\<close> apart from the
  relay client, \<^verbatim>\<open>keepalive.go\<close>, \<^verbatim>\<open>netmon.go\<close>, \<^verbatim>\<open>quality.go\<close>, \<^verbatim>\<open>media_rtcp.go\<close>, \<^verbatim>\<open>ice_filter.go\<close>,
  \<^verbatim>\<open>dtls_randomize.go\<close>); the discovery of routers (\<^verbatim>\<open>golib/nat\<close>), which is a conversation with
  devices on the network; the device of the tunnel and the user-space network stack behind it; the
  Supabase rendezvous (calls of a remote database); the handshake of DTLS above the messages: flights,
  certificates, signatures and the configuration; sockets and their listener; the Xray engine; logging;
  the user interface in Dart and Kotlin.
\<close>

end
